(* ===== verification/Dc_Prelude.thy ===== *)
theory Dc_Prelude
  imports Main "HOL-Library.Char_ord"
begin

text \<open>
  Shared vocabulary of the development: the \<open>std::string\<close> operations the C++ sources call
  (\<open>find\<close>, \<open>rfind\<close>, \<open>find_first_not_of\<close>, \<open>substr\<close>), character classes, decimal
  printing and reading, line splitting, the two SQL statement shapes the coordinator uses
  (\<open>UPDATE ... WHERE\<close> and \<open>SELECT ... WHERE\<close> over a table kept as a list of rows), the
  interface of a reversible encoding and the interface of an inductive invariant.
\<close>

named_theorems dc_defs \<open>definitions unfolded when a component lemma is evaluated\<close>
named_theorems tab_simps \<open>rewriting of table updates and selections\<close>

section \<open>Strings as the C++ library sees them\<close>

abbreviation nl :: char where "nl \<equiv> CHR 0x0A"
abbreviation tab :: char where "tab \<equiv> CHR 0x09"
abbreviation cr :: char where "cr \<equiv> CHR 0x0D"
abbreviation quote :: char where "quote \<equiv> CHR 0x22"
abbreviation backslash :: char where "backslash \<equiv> CHR 0x5C"

text \<open>Position of the first character at or after \<open>p\<close> with property \<open>P\<close>; \<open>None\<close> is \<open>npos\<close>.\<close>

definition find_if :: "(char \<Rightarrow> bool) \<Rightarrow> string \<Rightarrow> nat \<Rightarrow> nat option" where
  "find_if P s p =
     (let k = p + length (takeWhile (\<lambda>c. \<not> P c) (drop p s))
      in if k < length s then Some k else None)"

definition rfind_if :: "(char \<Rightarrow> bool) \<Rightarrow> string \<Rightarrow> nat option" where
  "rfind_if P s = map_option (\<lambda>k. length s - 1 - k) (find_if P (rev s) 0)"

definition substr :: "string \<Rightarrow> nat \<Rightarrow> nat \<Rightarrow> string" where
  "substr s p n = take n (drop p s)"

text \<open>\<open>std::isspace\<close> in the C locale, which \<open>operator>>\<close> uses.\<close>

definition is_space :: "char \<Rightarrow> bool" where
  "is_space c \<longleftrightarrow> c \<in> {CHR '' '', tab, nl, CHR 0x0B, CHR 0x0C, cr}"

definition is_digit :: "char \<Rightarrow> bool" where
  "is_digit c \<longleftrightarrow> CHR ''0'' \<le> c \<and> c \<le> CHR ''9''"

definition starts_with :: "string \<Rightarrow> string \<Rightarrow> bool" where
  "starts_with p s \<longleftrightarrow> take (length p) s = p"

lemma find_if_Some:
  "find_if P s p = Some k \<longleftrightarrow> p \<le> k \<and> k < length s \<and> P (s ! k) \<and> (\<forall>i. p \<le> i \<longrightarrow> i < k \<longrightarrow> \<not> P (s ! i))"
proof -
  let ?w = "takeWhile (\<lambda>c. \<not> P c) (drop p s)"
  have hit: "P (s ! (p + length ?w))" if "p + length ?w < length s"
    using that nth_length_takeWhile[of "\<lambda>c. \<not> P c" "drop p s"] by simp
  have miss: "\<not> P (s ! i)" if "p \<le> i" "i < p + length ?w" for i
  proof -
    from that have "?w ! (i - p) \<in> set ?w" by simp
    moreover have "?w ! (i - p) = drop p s ! (i - p)"
      using that by (intro takeWhile_nth) simp
    moreover have "p + length ?w \<le> max p (length s)"
      using length_takeWhile_le[of "\<lambda>c. \<not> P c" "drop p s"] by simp
    ultimately show ?thesis using that by (auto dest: set_takeWhileD)
  qed
  show ?thesis
  proof
    assume "find_if P s p = Some k"
    then have k: "k = p + length ?w" and l: "k < length s"
      by (auto simp: find_if_def Let_def split: if_splits)
    then show "p \<le> k \<and> k < length s \<and> P (s ! k) \<and> (\<forall>i. p \<le> i \<longrightarrow> i < k \<longrightarrow> \<not> P (s ! i))"
      using hit miss by auto
  next
    assume *: "p \<le> k \<and> k < length s \<and> P (s ! k) \<and> (\<forall>i. p \<le> i \<longrightarrow> i < k \<longrightarrow> \<not> P (s ! i))"
    have "\<not> k < p + length ?w" using * miss by blast
    moreover have "\<not> p + length ?w < k"
    proof
      assume "p + length ?w < k"
      with * hit show False by auto
    qed
    ultimately have "k = p + length ?w" by simp
    with * show "find_if P s p = Some k" by (simp add: find_if_def Let_def)
  qed
qed

lemma find_if_None:
  "find_if P s p = None \<longleftrightarrow> (\<forall>i. p \<le> i \<longrightarrow> i < length s \<longrightarrow> \<not> P (s ! i))"
proof
  assume none: "find_if P s p = None"
  show "\<forall>i. p \<le> i \<longrightarrow> i < length s \<longrightarrow> \<not> P (s ! i)"
  proof (intro allI impI notI)
    fix i assume i: "p \<le> i" "i < length s" "P (s ! i)"
    define k where "k = (LEAST j. p \<le> j \<and> j < length s \<and> P (s ! j))"
    from i have "p \<le> k \<and> k < length s \<and> P (s ! k)"
      unfolding k_def by (intro LeastI[where P = "\<lambda>j. p \<le> j \<and> j < length s \<and> P (s ! j)"]) auto
    moreover from this have "\<not> P (s ! j)" if "p \<le> j" "j < k" for j
      using that not_less_Least[of j "\<lambda>j. p \<le> j \<and> j < length s \<and> P (s ! j)"]
      unfolding k_def by auto
    ultimately have "find_if P s p = Some k" by (simp add: find_if_Some)
    with none show False by simp
  qed
next
  assume "\<forall>i. p \<le> i \<longrightarrow> i < length s \<longrightarrow> \<not> P (s ! i)"
  then show "find_if P s p = None"
    by (cases "find_if P s p") (auto simp: find_if_Some)
qed

lemma find_if_drop:
  "find_if P s p = map_option ((+) p) (find_if P (drop p s) 0)"
  by (auto simp: find_if_def Let_def)

section \<open>Lines\<close>

text \<open>Reference decomposition of a text at every newline.\<close>

function lines_of :: "string \<Rightarrow> string list" where
  "lines_of s =
     (if s = [] then []
      else takeWhile (\<lambda>c. c \<noteq> nl) s # lines_of (drop 1 (dropWhile (\<lambda>c. c \<noteq> nl) s)))"
  by pat_completeness auto
termination
proof (relation "measure length", goal_cases)
  case (2 s)
  then have "0 < length s" by simp
  with length_dropWhile_le[of "\<lambda>c. c \<noteq> nl" s] show ?case
    by (simp only: in_measure length_drop)
qed simp

declare lines_of.simps [simp del]

lemma lines_of_Nil [simp]: "lines_of [] = []"
  by (simp add: lines_of.simps)

lemma lines_of_line:
  assumes "nl \<notin> set l"
  shows "lines_of (l @ nl # rest) = l # lines_of rest"
proof -
  have "takeWhile (\<lambda>c. c \<noteq> nl) (l @ nl # rest) = l"
    and "dropWhile (\<lambda>c. c \<noteq> nl) (l @ nl # rest) = nl # rest"
    using assms by (induction l) auto
  then show ?thesis by (subst lines_of.simps) simp
qed

lemma lines_of_last:
  assumes "nl \<notin> set l" and "l \<noteq> []"
  shows "lines_of l = [l]"
proof -
  have tw: "takeWhile (\<lambda>c. c \<noteq> nl) l = l" and dw: "dropWhile (\<lambda>c. c \<noteq> nl) l = []"
    using assms(1) by (induction l) auto
  show ?thesis using assms(2) by (subst lines_of.simps) (simp add: tw dw del: dropWhile_eq_Nil_conv)
qed

lemma lines_of_no_nl: "l \<in> set (lines_of s) \<Longrightarrow> nl \<notin> set l"
proof (induction s rule: lines_of.induct)
  case (1 s)
  then show ?case
    by (cases "s = []") (auto simp: lines_of.simps[of s] dest: set_takeWhileD)
qed

definition unlines :: "string list \<Rightarrow> string" where
  "unlines ls = concat (map (\<lambda>l. l @ [nl]) ls)"

lemma unlines_simps [simp]: "unlines [] = []" "unlines (l # ls) = l @ nl # unlines ls"
  by (simp_all add: unlines_def)

lemma lines_of_unlines: "\<forall>l\<in>set ls. nl \<notin> set l \<Longrightarrow> lines_of (unlines ls) = ls"
  by (induction ls) (auto simp: lines_of_line)

section \<open>Sums of 64 bits\<close>

text \<open>\<open>int64_t\<close>. A sum that leaves the type is undefined in C++; the value here is the one of two's
  complement, and what is proved of sums assumes that they stay within the type.\<close>

definition i64 :: "int \<Rightarrow> int" where
  "i64 x = (x + 9223372036854775808) mod 18446744073709551616 - 9223372036854775808"

lemma i64_id: "- 9223372036854775808 \<le> x \<Longrightarrow> x \<le> 9223372036854775807 \<Longrightarrow> i64 x = x"
  by (simp add: i64_def)

section \<open>Decimal numbers\<close>

text \<open>\<open>std::to_string\<close> and \<open>operator<<\<close> on integers.\<close>

definition digit_char :: "nat \<Rightarrow> char" where
  "digit_char d = ''0123456789'' ! d"

fun to_string_nat :: "nat \<Rightarrow> string" where
  "to_string_nat n =
     (if n < 10 then [digit_char n] else to_string_nat (n div 10) @ [digit_char (n mod 10)])"

declare to_string_nat.simps [simp del]

definition to_string :: "int \<Rightarrow> string" where
  "to_string i = (if i < 0 then CHR ''-'' # to_string_nat (nat (- i)) else to_string_nat (nat i))"

text \<open>\<open>std::stoi\<close> / \<open>operator>>\<close> on a word that is all digits, with an optional sign.\<close>

definition digit_val :: "char \<Rightarrow> nat" where
  "digit_val c = of_char c - of_char (CHR ''0'')"

definition parse_nat :: "string \<Rightarrow> nat option" where
  "parse_nat s =
     (if s \<noteq> [] \<and> list_all is_digit s then Some (foldl (\<lambda>a c. 10 * a + digit_val c) 0 s) else None)"

definition parse_int :: "string \<Rightarrow> int option" where
  "parse_int s =
     (case s of
        [] \<Rightarrow> None
      | c # cs \<Rightarrow> if c = CHR ''-'' then map_option (\<lambda>n. - int n) (parse_nat cs)
                 else map_option int (parse_nat s))"

lemma less_10_cases: "(n::nat) < 10 \<longleftrightarrow> n \<in> {0, 1, 2, 3, 4, 5, 6, 7, 8, 9}"
  by auto

lemma digit_char_digit [simp]: "d < 10 \<Longrightarrow> is_digit (digit_char d)"
  by (auto simp: less_10_cases digit_char_def is_digit_def)

lemma digit_val_char [simp]: "d < 10 \<Longrightarrow> digit_val (digit_char d) = d"
  by (auto simp: less_10_cases digit_char_def digit_val_def)

lemma to_string_nat_digits: "list_all is_digit (to_string_nat n)"
proof (induction n rule: to_string_nat.induct)
  case (1 n)
  then show ?case by (cases "n < 10") (simp_all add: to_string_nat.simps[of n])
qed

lemma to_string_nat_nonempty [simp]: "to_string_nat n \<noteq> []"
  by (subst to_string_nat.simps) simp

lemma to_string_nat_value: "foldl (\<lambda>a c. 10 * a + digit_val c) 0 (to_string_nat n) = n"
proof (induction n rule: to_string_nat.induct)
  case (1 n)
  then show ?case by (cases "n < 10") (simp_all add: to_string_nat.simps[of n])
qed

lemma parse_to_string_nat [simp]: "parse_nat (to_string_nat n) = Some n"
  by (simp add: parse_nat_def to_string_nat_digits to_string_nat_value)

lemma is_digit_not_minus: "is_digit c \<Longrightarrow> c \<noteq> CHR ''-''"
  by (auto simp: is_digit_def)

lemma parse_to_string [simp]: "parse_int (to_string i) = Some i"
proof (cases "i < 0")
  case True
  then show ?thesis by (simp add: to_string_def parse_int_def)
next
  case False
  obtain c cs where s: "to_string_nat (nat i) = c # cs"
    by (meson neq_Nil_conv to_string_nat_nonempty)
  with to_string_nat_digits[of "nat i"] have "c \<noteq> CHR ''-''"
    using is_digit_not_minus by auto
  with s False parse_to_string_nat[of "nat i"] show ?thesis
    by (simp add: to_string_def parse_int_def)
qed

lemma to_string_inject [simp]: "to_string i = to_string j \<longleftrightarrow> i = j"
  by (metis option.inject parse_to_string)

lemma is_digit_not_space: "is_digit c \<Longrightarrow> \<not> is_space c"
  by (auto simp: is_digit_def is_space_def)

lemma to_string_no_space: "c \<in> set (to_string i) \<Longrightarrow> \<not> is_space c"
  using to_string_nat_digits is_digit_not_space
  by (auto simp: to_string_def list_all_iff is_space_def split: if_splits)

lemma to_string_nonempty [simp]: "to_string i \<noteq> []"
  by (simp add: to_string_def)

section \<open>Tables as lists of rows\<close>

text \<open>\<open>UPDATE tab SET f WHERE P\<close>; the rows it returns are \<open>map f (filter P ts)\<close>.\<close>

definition upd_where :: "('r \<Rightarrow> bool) \<Rightarrow> ('r \<Rightarrow> 'r) \<Rightarrow> 'r list \<Rightarrow> 'r list" where
  "upd_where P f ts = map (\<lambda>t. if P t then f t else t) ts"

lemma upd_where_Nil [tab_simps]: "upd_where P f [] = []"
  and upd_where_Cons [tab_simps]: "upd_where P f (t # ts) = (if P t then f t else t) # upd_where P f ts"
  by (simp_all add: upd_where_def)

lemma set_upd_where: "set (upd_where P f ts) = f ` {t \<in> set ts. P t} \<union> {t \<in> set ts. \<not> P t}"
  by (auto simp: upd_where_def)

lemma length_upd_where [simp]: "length (upd_where P f ts) = length ts"
  by (simp add: upd_where_def)

lemma map_upd_where_same:
  "(\<And>t. g (f t) = g t) \<Longrightarrow> map g (upd_where P f ts) = map g ts"
  by (auto simp: upd_where_def)

lemma upd_where_memE:
  assumes "t' \<in> set (upd_where P f ts)"
  obtains t where "t \<in> set ts" "P t" "t' = f t" | "t' \<in> set ts" "\<not> P t'"
  using assms by (auto simp: upd_where_def split: if_splits)

lemma upd_where_memI: "t \<in> set ts \<Longrightarrow> (if P t then f t else t) \<in> set (upd_where P f ts)"
  by (simp add: upd_where_def)

lemma image_upd_where: "(\<And>t. g (f t) = g t) \<Longrightarrow> g ` set (upd_where P f ts) = g ` set ts"
  using map_upd_where_same[of g f P ts] by (metis list.set_map)

lemma upd_where_cong_set:
  "(\<And>t. t \<in> set ts \<Longrightarrow> P t = Q t) \<Longrightarrow> upd_where P f ts = upd_where Q f ts"
  by (auto simp: upd_where_def)

lemma upd_where_none: "(\<And>t. t \<in> set ts \<Longrightarrow> \<not> P t) \<Longrightarrow> upd_where P f ts = ts"
  by (induction ts) (auto simp: upd_where_def)

lemma filter_upd_where_other:
  "(\<And>t. Q (f t) = Q t) \<Longrightarrow> (\<And>t. t \<in> set ts \<Longrightarrow> Q t \<Longrightarrow> \<not> P t) \<Longrightarrow>
   filter Q (upd_where P f ts) = filter Q ts"
  by (induction ts) (auto simp: upd_where_def)

section \<open>Interface: a reversible encoding\<close>

text \<open>
  Several components write structured data as text and read it back: array literals for
  PostgreSQL, newline-joined columns, the \<open>.dcstate\<close> file, length-prefixed hash input. The
  contract is the same: on the values the program writes, reading undoes writing.
\<close>

locale codec =
  fixes enc :: "'a \<Rightarrow> 'b" and dec :: "'b \<Rightarrow> 'a" and writable :: "'a \<Rightarrow> bool"
  assumes dec_enc: "writable x \<Longrightarrow> dec (enc x) = x"
begin

lemma enc_eq_iff: "writable x \<Longrightarrow> writable y \<Longrightarrow> enc x = enc y \<longleftrightarrow> x = y"
  using dec_enc by metis

lemma enc_inj_on: "inj_on enc (Collect writable)"
  by (rule inj_onI) (simp add: enc_eq_iff)

end

section \<open>Interface: an inductive invariant of a step relation\<close>

inductive run_of :: "('s \<Rightarrow> 's \<Rightarrow> bool) \<Rightarrow> 's \<Rightarrow> 's \<Rightarrow> bool" for R :: "'s \<Rightarrow> 's \<Rightarrow> bool" and s0 :: 's where
  run_refl: "run_of R s0 s0"
| run_step: "run_of R s0 s \<Longrightarrow> R s t \<Longrightarrow> run_of R s0 t"

locale invariant_of =
  fixes start :: "'s \<Rightarrow> bool" and next_of :: "'s \<Rightarrow> 's \<Rightarrow> bool" and keeps :: "'s \<Rightarrow> bool"
  assumes inv_start: "start s \<Longrightarrow> keeps s"
    and inv_next: "keeps s \<Longrightarrow> next_of s t \<Longrightarrow> keeps t"
begin

lemma inv_from: "run_of next_of s t \<Longrightarrow> keeps s \<Longrightarrow> keeps t"
  by (induction rule: run_of.induct) (auto intro: inv_next)

lemma inv_run: "start s \<Longrightarrow> run_of next_of s t \<Longrightarrow> keeps t"
  by (blast intro: inv_start inv_from)

end

section \<open>Filtered and zipped lists\<close>

lemma filter_nth: "i < length (filter P xs) \<Longrightarrow> filter P xs ! i \<in> set xs \<and> P (filter P xs ! i)"
  using nth_mem[of i "filter P xs"] by simp

lemma filter_index: "x \<in> set xs \<Longrightarrow> P x \<Longrightarrow> \<exists>i<length (filter P xs). filter P xs ! i = x"
  using in_set_conv_nth[of x "filter P xs"] by auto

lemma map_upds_nth:
  assumes "distinct xs" "length ys = length xs" "i < length xs"
  shows "(f(xs [\<mapsto>] ys)) (xs ! i) = Some (ys ! i)"
proof -
  have "map_of (rev (zip xs ys)) (xs ! i) = Some (ys ! i)"
    by (rule map_of_is_SomeI) (use assms in \<open>auto simp: rev_map[symmetric] in_set_zip\<close>)
  then show ?thesis by (simp add: map_upds_def map_add_def)
qed

lemma filter_head: "filter P xs = y # ys \<Longrightarrow> y \<in> set xs \<and> P y"
  using filter_nth[of 0 P xs] by simp

lemma map2_const_snd: "length is = length xs \<Longrightarrow> (\<And>i x. x \<in> set xs \<Longrightarrow> f (g i x) = h x) \<Longrightarrow> map f (map2 g is xs) = map h xs"
  by (rule nth_equalityI) simp_all

lemma distinct_map_split: "distinct (map f (filter P xs @ filter (\<lambda>x. \<not> P x) xs)) \<longleftrightarrow> distinct (map f xs)"
  by (induction xs) auto

end
