(* ===== verification/Dc_Util.thy ===== *)
theory Dc_Util
  imports Dc_Prelude "HOL-Library.Word"
begin

unbundle bit_operations_syntax

text \<open>
  \<open>src/util.cpp\<close> and \<open>src/util.h\<close>: hexadecimal digests, the length-prefixed hash of a list of
  parts, \<open>trim\<close>, \<open>split_ws\<close>, \<open>basename_of\<close>, the directory calls of \<open>make_dirs\<close>, the
  temp-file-and-rename writer, and the \<open>Stats\<close> counters. OpenSSL's SHA-256 is not part of the
  repository: it is the parameter \<open>sha\<close>, where \<open>sha x i\<close> is byte \<open>i\<close> of the 32-byte digest
  of \<open>x\<close>. Nothing is assumed of it; where a fact needs that two inputs do not collide, it says so
  for those inputs.
\<close>

section \<open>Hexadecimal digests\<close>

type_synonym sha_fn = "string \<Rightarrow> nat \<Rightarrow> 8 word"

definition hex_digits :: string where
  "hex_digits = ''0123456789abcdef''"

definition to_hex :: "8 word list \<Rightarrow> string" where
  "to_hex p = concat (map (\<lambda>b. [hex_digits ! unat (drop_bit 4 b), hex_digits ! unat (b AND 15)]) p)"

definition digest_bytes :: "sha_fn \<Rightarrow> string \<Rightarrow> 8 word list" where
  "digest_bytes sha data = map (sha data) [0..<32]"

definition sha256_hex :: "sha_fn \<Rightarrow> string \<Rightarrow> string" where
  "sha256_hex sha data = to_hex (digest_bytes sha data)"

text \<open>The eight bytes of \<open>uint64_t len\<close> as they lie in memory (little endian).\<close>

definition le64 :: "nat \<Rightarrow> string" where
  "le64 n = map (\<lambda>i. char_of (n div 256 ^ i mod 256)) [0..<8]"

definition frame :: "string list \<Rightarrow> string" where
  "frame parts = concat (map (\<lambda>p. le64 (length p) @ p) parts)"

definition sha256_hex_parts :: "sha_fn \<Rightarrow> string list \<Rightarrow> string" where
  "sha256_hex_parts sha parts = sha256_hex sha (frame parts)"

text \<open>Two inputs that hash alike are the same input, for inputs in \<open>X\<close>.\<close>

definition collision_free :: "sha_fn \<Rightarrow> string set \<Rightarrow> bool" where
  "collision_free sha X \<longleftrightarrow> inj_on (digest_bytes sha) X"

subsection \<open>Hex strings\<close>

lemma unat_low_nibble: "unat ((b :: 8 word) AND 15) = unat b mod 16"
proof -
  have "b AND 15 = take_bit 4 b" by (simp add: take_bit_eq_mask mask_eq_exp_minus_1)
  then have "unat (b AND 15) = take_bit 4 (unat b)" by (simp only: unsigned_take_bit_eq)
  then show ?thesis by (simp add: take_bit_eq_mod)
qed

lemma unat_high_nibble: "unat (drop_bit 4 (b :: 8 word)) = unat b div 16"
proof -
  have "unat (drop_bit 4 b) = drop_bit 4 (unat b)"
    using unat_drop_bit_eq[of 4 b] by simp
  then show ?thesis by (simp add: drop_bit_eq_div)
qed

lemma nibble_bounds: "unat (drop_bit 4 (b :: 8 word)) < 16" "unat (b AND 15) < 16"
  using unsigned_less[of b, where ?'a = nat] by (simp_all add: unat_low_nibble unat_high_nibble)

lemma nibbles_determine_byte:
  assumes "unat (drop_bit 4 (a :: 8 word)) = unat (drop_bit 4 b)" "unat (a AND 15) = unat (b AND 15)"
  shows "a = b"
proof -
  have "unat a div 16 = unat b div 16" and "unat a mod 16 = unat b mod 16"
    using assms by (simp_all only: unat_low_nibble unat_high_nibble)
  then have "unat a = unat b" by (metis div_mult_mod_eq)
  then show ?thesis by (simp add: word_unat_eq_iff)
qed

definition is_hex :: "char \<Rightarrow> bool" where
  "is_hex c \<longleftrightarrow> CHR ''0'' \<le> c \<and> c \<le> CHR ''9'' \<or> CHR ''a'' \<le> c \<and> c \<le> CHR ''f''"

lemma less_16_cases: "(n::nat) < 16 \<longleftrightarrow> n \<in> {0,1,2,3,4,5,6,7,8,9,10,11,12,13,14,15}"
  by (simp only: insert_iff empty_iff) arith

lemma hex_digit_is_hex: "n < 16 \<Longrightarrow> is_hex (hex_digits ! n)"
  by (auto simp: less_16_cases hex_digits_def is_hex_def)

lemma hex_digits_inj: "m < 16 \<Longrightarrow> n < 16 \<Longrightarrow> hex_digits ! m = hex_digits ! n \<Longrightarrow> m = n"
  using nth_eq_iff_index_eq[of hex_digits m n] by (simp add: hex_digits_def)

lemma length_to_hex [simp]: "length (to_hex p) = 2 * length p"
  by (induction p) (simp_all add: to_hex_def)

lemma to_hex_all_hex: "list_all is_hex (to_hex p)"
  by (induction p) (simp_all add: to_hex_def hex_digit_is_hex nibble_bounds del: hex_digits_def)

lemma to_hex_inject [simp]: "length p = length q \<Longrightarrow> to_hex p = to_hex q \<longleftrightarrow> p = q"
proof (induction p q rule: list_induct2)
  case (Cons x xs y ys)
  then show ?case
    using hex_digits_inj nibble_bounds nibbles_determine_byte[of x y]
    by (auto simp: to_hex_def)
qed simp

lemma length_sha256_hex [simp]: "length (sha256_hex sha x) = 64"
  by (simp add: sha256_hex_def digest_bytes_def)

lemma sha256_hex_nonempty [simp]: "sha256_hex sha x \<noteq> []"
  by (metis length_sha256_hex list.size(3) zero_neq_numeral)

lemma sha256_hex_eq_iff: "sha256_hex sha x = sha256_hex sha y \<longleftrightarrow> digest_bytes sha x = digest_bytes sha y"
  by (simp add: sha256_hex_def digest_bytes_def)

lemma sha256_hex_collision_free:
  "collision_free sha X \<Longrightarrow> x \<in> X \<Longrightarrow> y \<in> X \<Longrightarrow> sha256_hex sha x = sha256_hex sha y \<longleftrightarrow> x = y"
  by (auto simp: sha256_hex_eq_iff collision_free_def inj_on_def)

subsection \<open>Length framing is reversible\<close>

definition le64_val :: "string \<Rightarrow> nat" where
  "le64_val s = foldr (\<lambda>c a. of_char c + 256 * a) s 0"

function unframe :: "string \<Rightarrow> string list" where
  "unframe s =
     (if length s < 8 then []
      else let n = le64_val (take 8 s) in take n (drop 8 s) # unframe (drop (8 + n) s))"
  by pat_completeness auto
termination by (relation "measure length") auto

declare unframe.simps [simp del]

lemma length_le64 [simp]: "length (le64 n) = 8"
  by (simp add: le64_def)

lemma le64_val_le64:
  assumes "n < 2 ^ 64"
  shows "le64_val (le64 n) = n"
proof -
  have range: "[0..<8] = [0, 1, 2, 3, 4, 5, 6, 7 :: nat]" by (simp add: upt_rec)
  let ?b = "\<lambda>i. n div 256 ^ i"
  have step: "?b i mod 256 + 256 * (n div 256 ^ Suc i) = n div 256 ^ i" for i
    by (simp add: div_mult2_eq mult.commute[of 256 "256 ^ i"])
  have top: "n div 256 ^ 8 = 0" using assms by simp
  have v: "le64_val (le64 n) = ?b 0 mod 256 + 256 * (?b 1 mod 256 + 256 * (?b 2 mod 256 + 256 * (?b 3 mod 256
      + 256 * (?b 4 mod 256 + 256 * (?b 5 mod 256 + 256 * (?b 6 mod 256 + 256 * (?b 7 mod 256)))))))"
    unfolding le64_val_def le64_def range by (simp only: list.map foldr.simps comp_apply of_char_of id_apply, simp)
  show ?thesis
    unfolding v
    using step[of 0] step[of 1] step[of 2] step[of 3] step[of 4] step[of 5] step[of 6] step[of 7] top
    by (simp only: Suc_eq_plus1 numeral_plus_one semiring_norm power_0 div_by_1, simp)
qed

definition frameable :: "string list \<Rightarrow> bool" where
  "frameable parts \<longleftrightarrow> (\<forall>p\<in>set parts. length p < 2 ^ 64)"

lemma unframe_frame: "frameable parts \<Longrightarrow> unframe (frame parts) = parts"
proof (induction parts)
  case Nil
  show ?case by (simp add: frame_def unframe.simps)
next
  case (Cons p ps)
  then have "le64_val (le64 (length p)) = length p" and "unframe (frame ps) = ps"
    by (simp_all add: frameable_def le64_val_le64)
  moreover have "frame (p # ps) = le64 (length p) @ p @ frame ps" by (simp add: frame_def)
  ultimately show ?case by (subst unframe.simps) (simp add: Let_def)
qed

interpretation framing: codec frame unframe frameable
  by unfold_locales (rule unframe_frame)

lemma sha256_hex_parts_eq_iff:
  assumes "collision_free sha (frame ` P)" "ps \<in> P" "qs \<in> P" "frameable ps" "frameable qs"
  shows "sha256_hex_parts sha ps = sha256_hex_parts sha qs \<longleftrightarrow> ps = qs"
  using assms sha256_hex_collision_free[of sha "frame ` P" "frame ps" "frame qs"]
  by (simp add: sha256_hex_parts_def framing.enc_eq_iff)

section \<open>Words, trimming, base names\<close>

function split_ws :: "string \<Rightarrow> string list" where
  "split_ws s =
     (let r = dropWhile is_space s
      in if r = [] then []
         else takeWhile (\<lambda>c. \<not> is_space c) r # split_ws (dropWhile (\<lambda>c. \<not> is_space c) r))"
  by pat_completeness auto
termination
proof (relation "measure length", goal_cases)
  case (2 s x)
  then obtain c cs where x: "x = c # cs" by (meson neq_Nil_conv)
  with 2 hd_dropWhile[of is_space s] have c: "\<not> is_space c" by (metis list.sel(1))
  have "length (dropWhile (\<lambda>c. \<not> is_space c) x) \<le> length cs"
    using x c length_dropWhile_le[of "\<lambda>c. \<not> is_space c" cs] by simp
  moreover have "length x \<le> length s" using 2(1) length_dropWhile_le by metis
  ultimately show ?case using x by simp
qed simp

declare split_ws.simps [simp del]

lemma split_ws_words: "w \<in> set (split_ws s) \<Longrightarrow> w \<noteq> [] \<and> (\<forall>c\<in>set w. \<not> is_space c)"
proof (induction s rule: split_ws.induct)
  case (1 s)
  show ?case
  proof (cases "dropWhile is_space s = []")
    case True
    with 1 show ?thesis by (simp add: split_ws.simps[of s])
  next
    case False
    let ?r = "dropWhile is_space s"
    have hd: "\<not> is_space (hd ?r)" using False by (rule hd_dropWhile)
    have "w = takeWhile (\<lambda>c. \<not> is_space c) ?r \<or> w \<in> set (split_ws (dropWhile (\<lambda>c. \<not> is_space c) ?r))"
      using 1(2) False unfolding split_ws.simps[of s] Let_def by (auto split: if_splits)
    then show ?thesis
    proof
      assume w: "w = takeWhile (\<lambda>c. \<not> is_space c) ?r"
      have "w \<noteq> []" using hd False w by (cases ?r) auto
      then show ?thesis using w by (auto dest: set_takeWhileD)
    qed (use 1(1)[OF refl False] in blast)
  qed
qed

lemma split_ws_space: "split_ws (c # s) = split_ws s" if "is_space c"
  using that by (simp add: split_ws.simps[of "c # s"] split_ws.simps[of s])

lemma split_ws_Nil [simp]: "split_ws [] = []"
  by (simp add: split_ws.simps)

lemma split_ws_word:
  assumes "w \<noteq> []" "\<forall>c\<in>set w. \<not> is_space c" "s = [] \<or> is_space (hd s)"
  shows "split_ws (w @ s) = w # split_ws s"
proof -
  have "dropWhile is_space (w @ s) = w @ s" using assms(1,2) by (cases w) auto
  moreover have "takeWhile (\<lambda>c. \<not> is_space c) (w @ s) = w"
    using assms(2,3) by (induction w) (cases s; auto)+
  moreover have "dropWhile (\<lambda>c. \<not> is_space c) (w @ s) = s"
    using assms(2,3) by (induction w) (cases s; auto)+
  ultimately show ?thesis using assms(1) by (subst split_ws.simps) (simp add: Let_def)
qed

text \<open>\<open>trim\<close> by two searches and a \<open>substr\<close>, as written.\<close>

definition blank_chars :: "char set" where
  "blank_chars = {CHR '' '', tab, cr, nl}"

definition trim :: "string \<Rightarrow> string" where
  "trim s =
     (case find_if (\<lambda>c. c \<notin> blank_chars) s 0 of
        None \<Rightarrow> []
      | Some b \<Rightarrow>
          (case rfind_if (\<lambda>c. c \<notin> blank_chars) s of
             None \<Rightarrow> []
           | Some e \<Rightarrow> substr s b (e + 1 - b)))"

definition basename_of :: "string \<Rightarrow> string" where
  "basename_of path =
     (case rfind_if (\<lambda>c. c = CHR ''/'') path of None \<Rightarrow> path | Some p \<Rightarrow> drop (p + 1) path)"

lemma dropWhile_find_if:
  "dropWhile (\<lambda>c. \<not> P c) s = (case find_if P s 0 of None \<Rightarrow> [] | Some b \<Rightarrow> drop b s)"
proof -
  have "length (takeWhile (\<lambda>c. \<not> P c) s) \<le> length s" by (rule length_takeWhile_le)
  then show ?thesis
    by (auto simp: find_if_def Let_def dropWhile_eq_drop)
qed

text \<open>\<open>trim\<close> strips blanks at both ends, and nothing else.\<close>

lemma trim_spec: "trim s = rev (dropWhile (\<lambda>c. c \<in> blank_chars) (rev (dropWhile (\<lambda>c. c \<in> blank_chars) s)))"
proof -
  let ?P = "\<lambda>c. c \<notin> blank_chars"
  have dw: "dropWhile (\<lambda>c. c \<in> blank_chars) t = (case find_if ?P t 0 of None \<Rightarrow> [] | Some b \<Rightarrow> drop b t)" for t
    using dropWhile_find_if[of ?P t] by simp
  show ?thesis
  proof (cases "find_if ?P s 0")
    case None
    then have "dropWhile (\<lambda>c. c \<in> blank_chars) s = []" by (simp only: dw option.case)
    then show ?thesis unfolding trim_def None by (simp only: option.case rev.simps dropWhile.simps)
  next
    case (Some b)
    then have b: "b < length s" "?P (s ! b)" by (auto simp: find_if_Some)
    have "find_if ?P (rev s) 0 \<noteq> None"
      using b by (auto simp: find_if_None rev_nth intro!: exI[of _ "length s - 1 - b"])
    then obtain k where k: "find_if ?P (rev s) 0 = Some k" by auto
    then have kp: "k < length s" "?P (s ! (length s - 1 - k))" "\<forall>i<k. \<not> ?P (rev s ! i)"
      by (auto simp: find_if_Some rev_nth)
    have kb: "k \<le> length s - 1 - b"
    proof (rule ccontr)
      assume "\<not> k \<le> length s - 1 - b"
      then have "\<not> ?P (rev s ! (length s - 1 - b))" using kp(3) by simp
      with b show False by (simp add: rev_nth)
    qed
    have "find_if ?P (rev (drop b s)) 0 = Some k"
      using k kb b by (auto simp: find_if_Some rev_drop)
    then have "dropWhile (\<lambda>c. c \<in> blank_chars) (rev (drop b s)) = drop k (rev (drop b s))"
      by (simp add: dw)
    then have "rev (dropWhile (\<lambda>c. c \<in> blank_chars) (rev (drop b s))) = take (length s - b - k) (drop b s)"
      by (simp add: drop_rev)
    moreover have "trim s = take (length s - k - b) (drop b s)"
      using Some k kp b by (simp add: trim_def rfind_if_def substr_def)
    ultimately show ?thesis using Some by (simp add: dw add.commute)
  qed
qed

section \<open>Directories and atomic files\<close>

text \<open>
  The \<open>mkdir\<close> calls of \<open>make_dirs\<close>, in order: the loop scans one character at a time and
  creates the directory read so far at each slash and at the end.
\<close>

definition mkdir_here :: "string \<Rightarrow> string list" where
  "mkdir_here cur = (if cur \<noteq> [] \<and> cur \<noteq> ''/'' then [cur] else [])"

fun make_dirs_from :: "string \<Rightarrow> string \<Rightarrow> string list" where
  "make_dirs_from cur [] = mkdir_here cur"
| "make_dirs_from cur (c # rest) =
     (if c = CHR ''/'' then mkdir_here cur else []) @ make_dirs_from (cur @ [c]) rest"

definition make_dirs :: "string \<Rightarrow> string list" where
  "make_dirs path = make_dirs_from [] path"

text \<open>
  The file system is a map from paths to contents. \<open>write_file_atomic\<close> talks to the operating
  system, whose answers are the record below: whether the temporary file could be opened, whether
  the stream was still good after \<open>write\<close>, how many bytes had reached the file once the stream
  was destroyed (the destructor's flush reports no error), and whether \<open>rename\<close> succeeded.
\<close>

type_synonym fs = "string \<rightharpoonup> string"

record io_env =
  open_ok :: bool
  write_ok :: bool
  landed :: nat
  rename_ok :: bool

definition write_file_atomic :: "io_env \<Rightarrow> string \<Rightarrow> string \<Rightarrow> string \<Rightarrow> fs \<Rightarrow> bool \<times> fs" where
  "write_file_atomic io suffix path data fs =
     (let tmp = path @ suffix
      in if \<not> open_ok io then (False, fs)
         else let fs1 = fs(tmp \<mapsto> take (landed io) data)
              in if \<not> write_ok io then (False, fs1)
                 else if \<not> rename_ok io then (False, fs1(tmp := None))
                 else (True, fs1(tmp := None, path \<mapsto> take (landed io) data)))"

lemma write_file_atomic_ok:
  assumes "write_file_atomic io sfx path data fs = (True, fs')"
  shows "fs' path = Some (take (landed io) data)"
    and "q \<noteq> path \<Longrightarrow> q \<noteq> path @ sfx \<Longrightarrow> fs' q = fs q"
  using assms by (auto simp: write_file_atomic_def Let_def split: if_splits)

text \<open>Whatever happens, only the target and its own temporary name change, and the target is either
  left as it was or replaced in one step.\<close>

lemma write_file_atomic_frame:
  assumes "write_file_atomic io sfx path data fs = (r, fs')" "sfx \<noteq> []"
  shows "q \<noteq> path \<Longrightarrow> q \<noteq> path @ sfx \<Longrightarrow> fs' q = fs q"
    and "\<not> r \<Longrightarrow> fs' path = fs path"
  using assms by (auto simp: write_file_atomic_def Let_def split: if_splits)

section \<open>Counters\<close>

text \<open>
  \<open>Stats::add\<close> on a map from names to entries. Times are C++ doubles: they are values of a type
  \<open>'d\<close>, added by the machine's addition, which is the parameter \<open>fadd\<close>.
\<close>

record 'd stat_entry =
  s_count :: int
  s_ms :: 'd
  s_bytes :: int

definition stats_add ::
    "('d \<Rightarrow> 'd \<Rightarrow> 'd) \<Rightarrow> 'd \<Rightarrow> (string \<rightharpoonup> 'd stat_entry) \<Rightarrow> string \<Rightarrow> 'd \<Rightarrow> int \<Rightarrow> (string \<rightharpoonup> 'd stat_entry)" where
  "stats_add fadd zero m name t n =
     (let e = (case m name of None \<Rightarrow> \<lparr>s_count = 0, s_ms = zero, s_bytes = 0\<rparr> | Some e \<Rightarrow> e)
      in m(name \<mapsto> e\<lparr>s_count := s_count e + 1, s_ms := fadd (s_ms e) t, s_bytes := s_bytes e + n\<rparr>))"

fun stats_adds :: "('d \<Rightarrow> 'd \<Rightarrow> 'd) \<Rightarrow> 'd \<Rightarrow> (string \<times> 'd \<times> int) list \<Rightarrow> (string \<rightharpoonup> 'd stat_entry) \<Rightarrow> (string \<rightharpoonup> 'd stat_entry)" where
  "stats_adds fadd zero [] m = m"
| "stats_adds fadd zero ((name, t, n) # evs) m = stats_adds fadd zero evs (stats_add fadd zero m name t n)"

definition count_of :: "(string \<rightharpoonup> 'd stat_entry) \<Rightarrow> string \<Rightarrow> int" where
  "count_of m name = (case m name of None \<Rightarrow> 0 | Some e \<Rightarrow> s_count e)"

definition bytes_of :: "(string \<rightharpoonup> 'd stat_entry) \<Rightarrow> string \<Rightarrow> int" where
  "bytes_of m name = (case m name of None \<Rightarrow> 0 | Some e \<Rightarrow> s_bytes e)"

lemma stats_adds_counts:
  "count_of (stats_adds fadd zero evs m) name
     = count_of m name + int (length (filter (\<lambda>(k, _). k = name) evs))"
  "bytes_of (stats_adds fadd zero evs m) name
     = bytes_of m name + sum_list (map (\<lambda>(_, _, n). n) (filter (\<lambda>(k, _). k = name) evs))"
proof (induction fadd zero evs m rule: stats_adds.induct)
  case (2 fadd zero k t n evs m)
  note IH = 2
  have one: "count_of (stats_add fadd zero m k t n) name = count_of m name + (if k = name then 1 else 0)"
    "bytes_of (stats_add fadd zero m k t n) name = bytes_of m name + (if k = name then n else 0)"
    by (auto simp: stats_add_def count_of_def bytes_of_def Let_def split: option.splits)
  { case 1 from IH(1) one show ?case by simp }
  { case 2 from IH(2) one show ?case by simp }
qed simp_all

end
