(* ===== verification/Dc_Cas.thy ===== *)
theory Dc_Cas
  imports Dc_Util
begin

text \<open>
  \<open>src/cas.cpp\<close>: the content-addressed blob store. A store is a root directory and the files
  under it. Its contract (what \<open>has\<close>, \<open>get\<close>, \<open>size_of\<close> answer after a \<open>put\<close>) is the
  locale \<open>blob_store\<close>, which the coordinator's blob calls and the worker's fetch rely on. The
  second part is the store under concurrent writers: each writes its own temporary file piece by
  piece and then renames it, and may die at any point.
\<close>

section \<open>The store\<close>

definition valid_hash :: "string \<Rightarrow> bool" where
  "valid_hash h \<longleftrightarrow>
     length h = 64 \<and>
     list_all (\<lambda>c. CHR ''0'' \<le> c \<and> c \<le> CHR ''9'' \<or> CHR ''a'' \<le> c \<and> c \<le> CHR ''f'') h"

record cas =
  cas_root :: string
  cas_files :: fs

definition path_of :: "cas \<Rightarrow> string \<Rightarrow> string" where
  "path_of s hash = cas_root s @ ''/'' @ substr hash 0 2 @ ''/'' @ drop 2 hash"

definition cas_has :: "cas \<Rightarrow> string \<Rightarrow> bool" where
  "cas_has s hash \<longleftrightarrow> valid_hash hash \<and> cas_files s (path_of s hash) \<noteq> None"

definition cas_get :: "cas \<Rightarrow> string \<Rightarrow> string option" where
  "cas_get s hash = (if \<not> valid_hash hash then None else cas_files s (path_of s hash))"

definition cas_size_of :: "cas \<Rightarrow> string \<Rightarrow> int" where
  "cas_size_of s hash =
     (if \<not> valid_hash hash then -1
      else case cas_files s (path_of s hash) of None \<Rightarrow> -1 | Some d \<Rightarrow> int (length d))"

text \<open>\<open>put\<close> answers the hash, or the empty string on error; \<open>expect = ''''\<close> is the default
  argument. The temporary name's suffix \<open>.tmp.<pid>.<thread>\<close> and the answers of the operating
  system are arguments.\<close>

definition cas_put :: "sha_fn \<Rightarrow> io_env \<Rightarrow> string \<Rightarrow> string \<Rightarrow> string \<Rightarrow> cas \<Rightarrow> string \<times> cas" where
  "cas_put sha io suffix data expect s =
     (let h = sha256_hex sha data
      in if expect \<noteq> [] \<and> expect \<noteq> h then ([], s)
         else if cas_has s h then (h, s)
         else let (ok, fs) = write_file_atomic io suffix (path_of s h) data (cas_files s)
              in (if ok then h else [], s\<lparr>cas_files := fs\<rparr>))"

lemma valid_hash_iff: "valid_hash h \<longleftrightarrow> length h = 64 \<and> list_all is_hex h"
  by (simp add: valid_hash_def is_hex_def list_all_iff)

lemma valid_hash_sha [simp]: "valid_hash (sha256_hex sha x)"
  by (simp add: valid_hash_iff sha256_hex_def to_hex_all_hex digest_bytes_def)

lemma valid_hash_nonempty [dest]: "valid_hash h \<Longrightarrow> h \<noteq> []"
  by (auto simp: valid_hash_def)

lemma valid_hash_no_dot: "valid_hash h \<Longrightarrow> c \<in> set h \<Longrightarrow> c \<noteq> CHR ''.'' \<and> c \<noteq> CHR ''/'' \<and> c \<noteq> nl"
  by (auto simp: valid_hash_def list_all_iff)

lemma path_of_inject:
  assumes "valid_hash g" "valid_hash h"
  shows "path_of s g = path_of s h \<longleftrightarrow> g = h"
proof
  assume "path_of s g = path_of s h"
  then have "take 2 g @ CHR ''/'' # drop 2 g = take 2 h @ CHR ''/'' # drop 2 h"
    by (simp add: path_of_def substr_def)
  moreover have "length (take 2 g) = length (take 2 h)"
    using assms by (simp add: valid_hash_def)
  ultimately have "take 2 g = take 2 h" "drop 2 g = drop 2 h" by auto
  then show "g = h" by (metis append_take_drop_id)
qed simp

text \<open>A temporary name is never the name of a blob: its suffix begins with a dot.\<close>

definition tmp_suffix :: "string \<Rightarrow> bool" where
  "tmp_suffix sfx \<longleftrightarrow> sfx \<noteq> [] \<and> hd sfx = CHR ''.''"

lemma path_of_not_tmp:
  assumes "valid_hash g" "valid_hash h" "tmp_suffix sfx"
  shows "path_of s g \<noteq> path_of s h @ sfx"
proof
  assume "path_of s g = path_of s h @ sfx"
  then have "length (path_of s g) = length (path_of s h) + length sfx" by simp
  then have "sfx = []" using assms(1,2) by (simp add: path_of_def substr_def valid_hash_def)
  with assms(3) show False by (simp add: tmp_suffix_def)
qed

section \<open>What the store promises\<close>

locale blob_store =
  fixes digest :: "string \<Rightarrow> string"
    and has :: "'s \<Rightarrow> string \<Rightarrow> bool"
    and get :: "'s \<Rightarrow> string \<Rightarrow> string option"
    and put :: "'e \<Rightarrow> string \<Rightarrow> string \<Rightarrow> 's \<Rightarrow> string \<times> 's"
    and env_ok :: "'e \<Rightarrow> bool"
    and intact :: "string \<Rightarrow> 'e \<Rightarrow> bool"
  assumes has_get: "has s h \<longleftrightarrow> get s h \<noteq> None"
    and digest_nonempty: "digest d \<noteq> []"
    and put_answer: "env_ok e \<Longrightarrow> put e d x s = (h, s') \<Longrightarrow> h = digest d \<and> has s' h \<or> h = []"
    and put_refuses: "x \<noteq> [] \<Longrightarrow> x \<noteq> digest d \<Longrightarrow> put e d x s = ([], s)"
    and put_keeps: "env_ok e \<Longrightarrow> put e d x s = (h, s') \<Longrightarrow> get s g = Some c \<Longrightarrow> get s' g = Some c"
    and put_adds: "env_ok e \<Longrightarrow> put e d x s = (h, s') \<Longrightarrow> get s' g = Some c \<Longrightarrow>
       get s g = Some c \<or> g = digest d \<and> (intact d e \<longrightarrow> c = d)"
begin

definition genuine :: "'s \<Rightarrow> bool" where
  "genuine s \<longleftrightarrow> (\<forall>h c. get s h = Some c \<longrightarrow> digest c = h)"

lemma put_genuine:
  assumes "genuine s" "env_ok e" "intact d e" "put e d x s = (h, s')"
  shows "genuine s'"
  using put_adds[OF assms(2,4)] assms(1,3) unfolding genuine_def by blast

lemma put_has_mono: "env_ok e \<Longrightarrow> put e d x s = (h, s') \<Longrightarrow> has s g \<Longrightarrow> has s' g"
  using put_keeps by (auto simp: has_get)

lemma put_get:
  assumes "genuine s" "env_ok e" "intact d e" "put e d x s = (h, s')" "h \<noteq> []"
    and "\<And>g c. get s g = Some c \<Longrightarrow> digest c = digest d \<Longrightarrow> c = d"
  shows "get s' h = Some d"
proof -
  from put_answer[OF assms(2,4)] assms(5) have h: "h = digest d" "has s' h" by auto
  then obtain c where c: "get s' h = Some c" by (auto simp: has_get)
  from put_adds[OF assms(2,4) c] show ?thesis
  proof
    assume old: "get s h = Some c"
    with assms(1) h(1) have "digest c = digest d" by (auto simp: genuine_def)
    with assms(6)[OF old] c show ?thesis by simp
  qed (use c assms(3) in auto)
qed

lemma put_expected:
  assumes "env_ok e" "put e d x s = (h, s')" "h \<noteq> []" "x \<noteq> []"
  shows "h = x \<and> digest d = x"
  using put_answer[OF assms(1,2)] put_refuses[of x d e s] assms by (cases "x = digest d") auto

end

text \<open>
  The environment of a \<open>put\<close>: the answers of the operating system and the temporary suffix.
  \<open>intact_write\<close> says that a write which reports success had landed completely.
\<close>

type_synonym put_env = "io_env \<times> string"

definition put_env_ok :: "put_env \<Rightarrow> bool" where
  "put_env_ok e \<longleftrightarrow> tmp_suffix (snd e)"

definition intact_write :: "string \<Rightarrow> put_env \<Rightarrow> bool" where
  "intact_write d e \<longleftrightarrow> length d \<le> landed (fst e)"

definition cas_put_env :: "sha_fn \<Rightarrow> put_env \<Rightarrow> string \<Rightarrow> string \<Rightarrow> cas \<Rightarrow> string \<times> cas" where
  "cas_put_env sha e = cas_put sha (fst e) (snd e)"

lemma cas_has_get: "cas_has s h \<longleftrightarrow> cas_get s h \<noteq> None"
  by (simp add: cas_has_def cas_get_def)

lemma cas_put_cases:
  assumes "cas_put sha io sfx d x s = (h, s')"
  obtains (refused) "x \<noteq> []" "x \<noteq> sha256_hex sha d" "h = []" "s' = s"
    | (present) "cas_has s (sha256_hex sha d)" "h = sha256_hex sha d" "s' = s"
    | (written) ok fs where "\<not> cas_has s (sha256_hex sha d)"
        "write_file_atomic io sfx (path_of s (sha256_hex sha d)) d (cas_files s) = (ok, fs)"
        "h = (if ok then sha256_hex sha d else [])" "s' = s\<lparr>cas_files := fs\<rparr>"
proof (cases "x \<noteq> [] \<and> x \<noteq> sha256_hex sha d")
  case True
  with assms have "h = []" "s' = s" by (simp_all add: cas_put_def Let_def)
  with True show ?thesis by (intro refused) auto
next
  case pass: False
  note put = assms[unfolded cas_put_def Let_def if_not_P[OF pass]]
  show ?thesis
  proof (cases "cas_has s (sha256_hex sha d)")
    case True
    with put show ?thesis by (intro present) simp_all
  next
    case False
    obtain ok fs where w: "write_file_atomic io sfx (path_of s (sha256_hex sha d)) d (cas_files s) = (ok, fs)"
      by fastforce
    with False put show ?thesis by (intro written[OF False w]) simp_all
  qed
qed

lemma cas_written_get:
  assumes w: "write_file_atomic io sfx (path_of s k) d (cas_files s) = (ok, fs)"
    and "valid_hash k" "tmp_suffix sfx"
  shows "cas_get (s\<lparr>cas_files := fs\<rparr>) g = (if ok \<and> g = k then Some (take (landed io) d) else cas_get s g)"
proof (cases "valid_hash g")
  case True
  have p: "cas_get (s\<lparr>cas_files := fs\<rparr>) g = fs (path_of s g)" "cas_get s g = cas_files s (path_of s g)"
    using True by (simp_all add: cas_get_def path_of_def)
  have ne: "sfx \<noteq> []" using assms(3) by (simp add: tmp_suffix_def)
  show ?thesis
  proof (cases "g = k")
    case True
    have "fs (path_of s k) = (if ok then Some (take (landed io) d) else cas_files s (path_of s k))"
      using write_file_atomic_ok(1) write_file_atomic_frame(2)[OF w ne] w by (cases ok) auto
    with True p show ?thesis by simp
  next
    case False
    then have "path_of s g \<noteq> path_of s k" "path_of s g \<noteq> path_of s k @ sfx"
      using True assms(2,3) path_of_inject path_of_not_tmp by auto
    then have "fs (path_of s g) = cas_files s (path_of s g)"
      by (rule write_file_atomic_frame(1)[OF w ne])
    with False p show ?thesis by simp
  qed
qed (auto simp: cas_get_def assms(2))

interpretation cas_store: blob_store "sha256_hex sha" cas_has cas_get "cas_put_env sha" put_env_ok intact_write
  for sha
proof (unfold_locales, goal_cases)
  case (1 s h)
  show ?case by (rule cas_has_get)
next
  case (3 e d x s h s')
  from 3(2)[unfolded cas_put_env_def] show ?case
  proof (cases rule: cas_put_cases)
    case (written ok fs)
    with 3(1) cas_written_get[OF written(2)] show ?thesis
      by (cases ok) (simp_all add: cas_has_get put_env_ok_def)
  qed auto
next
  case (4 x d e s)
  then show ?case by (simp add: cas_put_env_def cas_put_def)
next
  case (5 e d x s h s' g c)
  from 5(2)[unfolded cas_put_env_def] show ?case
  proof (cases rule: cas_put_cases)
    case (written ok fs)
    have "cas_get s (sha256_hex sha d) = None" using written(1) by (simp add: cas_has_get)
    with 5(1,3) written cas_written_get[OF written(2)] show ?thesis
      by (auto simp: put_env_ok_def)
  qed (use 5(3) in auto)
next
  case (6 e d x s h s' g c)
  from 6(2)[unfolded cas_put_env_def] show ?case
  proof (cases rule: cas_put_cases)
    case (written ok fs)
    with 6(1,3) cas_written_get[OF written(2)] show ?thesis
      by (auto simp: put_env_ok_def intact_write_def split: if_splits)
  qed (use 6(3) in auto)
qed simp

section \<open>Concurrent writers\<close>

text \<open>
  The same store at the level of single file operations. A writer that decided to write has opened
  its own temporary file (\<open>util.cpp:84-87\<close>), appends to it a piece at a time, and renames it once
  everything was handed to the stream; between any two of these another writer may do the same, for the
  same hash or not, and a writer may die or give up, leaving its temporary file behind or removing it.
  The last buffer is written out by the stream's destructor, which reports no error: on a disk that
  loses it (\<open>lossy\<close>) the writer goes on to rename a file that ends early.
\<close>

record writing =
  w_hash :: string
  w_data :: string
  w_done :: nat
  w_lost :: bool

record shared_store =
  blobs :: "string \<rightharpoonup> string"
  writers :: "nat \<rightharpoonup> writing"

definition empty_store :: shared_store where
  "empty_store = \<lparr>blobs = Map.empty, writers = Map.empty\<rparr>"

definition new_writing :: "sha_fn \<Rightarrow> string \<Rightarrow> writing" where
  "new_writing sha d = \<lparr>w_hash = sha256_hex sha d, w_data = d, w_done = 0, w_lost = False\<rparr>"

inductive store_step :: "sha_fn \<Rightarrow> bool \<Rightarrow> shared_store \<Rightarrow> shared_store \<Rightarrow> bool" for sha lossy where
  writer_opens: "writers s w = None \<Longrightarrow> blobs s (sha256_hex sha d) = None \<Longrightarrow>
     store_step sha lossy s (s\<lparr>writers := (writers s)(w \<mapsto> new_writing sha d)\<rparr>)"
| writer_appends: "writers s w = Some x \<Longrightarrow> \<not> w_lost x \<Longrightarrow> w_done x + n \<le> length (w_data x) \<Longrightarrow>
     store_step sha lossy s (s\<lparr>writers := (writers s)(w \<mapsto> x\<lparr>w_done := w_done x + n\<rparr>)\<rparr>)"
| flush_loses: "writers s w = Some x \<Longrightarrow> lossy \<Longrightarrow>
     store_step sha lossy s (s\<lparr>writers := (writers s)(w \<mapsto> x\<lparr>w_lost := True\<rparr>)\<rparr>)"
| writer_renames: "writers s w = Some x \<Longrightarrow> w_lost x \<or> w_done x = length (w_data x) \<Longrightarrow>
     store_step sha lossy s \<lparr>blobs = (blobs s)(w_hash x \<mapsto> take (w_done x) (w_data x)), writers = (writers s)(w := None)\<rparr>"
| writer_dies: "store_step sha lossy s (s\<lparr>writers := (writers s)(w := None)\<rparr>)"

inductive_cases store_stepE: "store_step sha lossy s t"

text \<open>What a file at a blob's name can hold: the data of its hash, or on a lossy disk a beginning of them.\<close>

definition blob_of :: "sha_fn \<Rightarrow> bool \<Rightarrow> string \<Rightarrow> string \<Rightarrow> bool" where
  "blob_of sha lossy h c \<longleftrightarrow> (\<exists>d n. h = sha256_hex sha d \<and> c = take n d \<and> (lossy \<or> c = d))"

definition store_ok :: "sha_fn \<Rightarrow> bool \<Rightarrow> shared_store \<Rightarrow> bool" where
  "store_ok sha lossy s \<longleftrightarrow>
     (\<forall>h c. blobs s h = Some c \<longrightarrow> blob_of sha lossy h c) \<and>
     (\<forall>w x. writers s w = Some x \<longrightarrow> w_hash x = sha256_hex sha (w_data x) \<and> (w_lost x \<longrightarrow> lossy))"

lemma renamed_blob_of:
  assumes "store_ok sha lossy s" "writers s w = Some x" "w_lost x \<or> w_done x = length (w_data x)"
  shows "blob_of sha lossy (w_hash x) (take (w_done x) (w_data x))"
  using assms unfolding store_ok_def blob_of_def by (metis order_refl take_all)

lemma store_ok_step: "store_ok sha lossy s \<Longrightarrow> store_step sha lossy s t \<Longrightarrow> store_ok sha lossy t"
proof (erule store_stepE)
  fix w x assume "store_ok sha lossy s" "writers s w = Some x" "w_lost x \<or> w_done x = length (w_data x)"
    "t = \<lparr>blobs = (blobs s)(w_hash x \<mapsto> take (w_done x) (w_data x)), writers = (writers s)(w := None)\<rparr>"
  with renamed_blob_of[OF this(1-3)] show "store_ok sha lossy t" by (simp add: store_ok_def)
qed (auto simp: store_ok_def new_writing_def)

interpretation shared_blobs: invariant_of "\<lambda>s. s = empty_store" "store_step sha lossy" "store_ok sha lossy" for sha lossy
  by unfold_locales (simp add: store_ok_def empty_store_def, rule store_ok_step)

text \<open>Without a loss a blob stays what it is, whoever writes the same hash again.\<close>

lemma store_step_keeps_blobs:
  assumes "store_step sha False s t" "store_ok sha False s" "blobs s h = Some c"
    and "collision_free sha X" "c \<in> X" "\<And>w x. writers s w = Some x \<Longrightarrow> w_data x \<in> X"
  shows "blobs t h = Some c"
  using assms(1)
proof cases
  case (writer_renames w x)
  have x: "w_hash x = sha256_hex sha (w_data x)" "w_done x = length (w_data x)"
    using assms(2) writer_renames(2,3) by (auto simp: store_ok_def)
  have "c = w_data x" if "w_hash x = h"
  proof -
    have "sha256_hex sha c = sha256_hex sha (w_data x)"
      using that assms(2,3) x by (auto simp: store_ok_def blob_of_def)
    then show ?thesis
      using sha256_hex_collision_free[OF assms(4,5)] assms(6) writer_renames(2) by blast
  qed
  with assms(3) writer_renames x show ?thesis by auto
qed (use assms(3) in auto)

text \<open>With one it may get the name of its hash with nothing in it, and no later \<open>put\<close> repairs it.\<close>

lemma lossy_disk_truncates: "\<exists>s. run_of (store_step sha True) empty_store s \<and> blobs s (sha256_hex sha d) = Some []"
proof -
  let ?x = "new_writing sha d"
  let ?s1 = "empty_store\<lparr>writers := (writers empty_store)(0 \<mapsto> ?x)\<rparr>"
  let ?s2 = "?s1\<lparr>writers := (writers ?s1)(0 \<mapsto> ?x\<lparr>w_lost := True\<rparr>)\<rparr>"
  let ?s3 = "\<lparr>blobs = (blobs ?s2)(sha256_hex sha d \<mapsto> []), writers = (writers ?s2)(0 := None)\<rparr>"
  have s1: "store_step sha True empty_store ?s1" by (rule writer_opens) (simp_all add: empty_store_def)
  have s2: "store_step sha True ?s1 ?s2" by (rule flush_loses) simp_all
  have s3: "store_step sha True ?s2 ?s3"
    using writer_renames[of ?s2 0 "?x\<lparr>w_lost := True\<rparr>" sha True] by (simp add: new_writing_def)
  have "run_of (store_step sha True) empty_store ?s3" 
    by (rule run_step[of "store_step sha True", OF run_step[of "store_step sha True", OF run_step[of "store_step sha True", OF run_refl s1] s2] s3])
  then show ?thesis by (intro exI[of _ ?s3]) simp
qed

end
