(* ===== verification/Dc_Tables.thy ===== *)
theory Dc_Tables
  imports Dc_Cas
begin

text \<open>
  The coordinator's metadata (\<open>sql/schema.sql\<close>) and its small helpers
  (\<open>src/coordinator.cpp:33-71\<close>). A table is the list of its rows; a nullable column is an
  option; the state columns, which hold one of a fixed set of words, are datatypes; BIGSERIAL
  sequences are counters. Times are integers (any unit, \<open>now\<close> is an argument of the operations),
  and the \<open>double\<close> columns hold the number with the six decimals that \<open>std::to_string\<close> sends.
\<close>

section \<open>Rows\<close>

datatype tstate = TWaiting | TReady | TRunning | TDone | TCached | TFailed

datatype bstate = BRunning | BDone | BFailed

record task_row =
  t_uid :: nat
  t_build :: nat
  t_id :: nat
  t_kind :: int
  t_name :: string
  t_key :: "string option"
  t_input :: "string option"
  t_args :: string
  t_inputs :: "string option"
  t_input_names :: "string option"
  t_toolchain :: string
  t_cost :: int
  t_priority :: int
  t_part :: int
  t_state :: tstate
  t_pending :: int
  t_attempts :: nat
  t_lease_owner :: "string option"
  t_lease_until :: "int option"
  t_output :: "string option"
  t_log :: "string option"
  t_exec_ms :: "int option"
  t_last_failed_by :: "string option"
  t_ready_at :: "int option"

record build_row =
  b_id :: nat
  b_toolchain :: string
  b_state :: bstate
  b_total :: nat
  b_finished_at :: "int option"

record dep_row =
  d_build :: nat
  d_task :: nat
  d_dep :: nat
  d_pos :: nat

record cache_row =
  c_key :: string
  c_output :: string
  c_size :: int
  c_hits :: nat

record worker_row =
  wk_id :: string
  wk_toolchain :: string
  wk_slots :: int
  wk_part :: int
  wk_last_seen :: int

record db =
  db_builds :: "build_row list"
  db_tasks :: "task_row list"
  db_deps :: "dep_row list"
  db_cache :: "cache_row list"
  db_workers :: "worker_row list"
  db_next_build :: nat
  db_next_uid :: nat

definition empty_db :: db where
  "empty_db = \<lparr>db_builds = [], db_tasks = [], db_deps = [], db_cache = [], db_workers = [],
     db_next_build = 1, db_next_uid = 1\<rparr>"

text \<open>The states in the order a task can go through them; a finished task has an output.\<close>

instantiation tstate :: linorder
begin

fun stage :: "tstate \<Rightarrow> nat" where
  "stage TWaiting = 0"
| "stage TReady = 1"
| "stage TRunning = 2"
| "stage TFailed = 3"
| "stage TCached = 4"
| "stage TDone = 5"

definition less_eq_tstate :: "tstate \<Rightarrow> tstate \<Rightarrow> bool" where
  "less_eq_tstate a b \<longleftrightarrow> stage a \<le> stage b"

definition less_tstate :: "tstate \<Rightarrow> tstate \<Rightarrow> bool" where
  "less_tstate a b \<longleftrightarrow> stage a < stage b"

instance
proof
  fix a b :: tstate
  show "a \<le> b \<Longrightarrow> b \<le> a \<Longrightarrow> a = b" by (cases a; cases b) (simp_all add: less_eq_tstate_def)
qed (auto simp: less_eq_tstate_def less_tstate_def)

end

definition fin :: "tstate \<Rightarrow> bool" where
  "fin s \<longleftrightarrow> s = TDone \<or> s = TCached"

text \<open>The states no operation leaves.\<close>

definition terminal :: "tstate \<Rightarrow> bool" where
  "terminal s \<longleftrightarrow> s = TDone \<or> s = TCached \<or> s = TFailed"

lemma terminal_order: "terminal s \<longleftrightarrow> TFailed \<le> s"
  by (cases s) (simp_all add: terminal_def less_eq_tstate_def)

lemma fin_simps [simp]: "fin TDone" "fin TCached" "\<not> fin TWaiting" "\<not> fin TReady" "\<not> fin TRunning" "\<not> fin TFailed"
  by (simp_all add: fin_def)

lemma fin_terminal: "fin s \<Longrightarrow> terminal s"
  by (auto simp: fin_def terminal_def)

section \<open>Helpers of the coordinator\<close>

fun join_lines :: "string list \<Rightarrow> string" where
  "join_lines [] = []"
| "join_lines [s] = s"
| "join_lines (s # ss) = s @ nl # join_lines ss"

function split_from :: "string \<Rightarrow> nat \<Rightarrow> string list" where
  "split_from s b =
     (case find_if (\<lambda>c. c = nl) s b of
        None \<Rightarrow> [drop b s]
      | Some e \<Rightarrow> substr s b (e - b) # split_from s (e + 1))"
  by pat_completeness auto
termination
proof (relation "measure (\<lambda>(s, b). length s - b)", goal_cases)
  case (2 s b e)
  then have "b \<le> e" "e < length s" by (auto simp: find_if_Some)
  then show ?case by (simp add: diff_less_mono2 less_Suc_eq_le)
qed simp

declare split_from.simps [simp del]

definition split_lines :: "string \<Rightarrow> string list" where
  "split_lines s = (if s = [] then [] else split_from s 0)"

definition flat_name :: "string \<Rightarrow> string" where
  "flat_name n = map (\<lambda>c. if c = CHR ''/'' then CHR ''_'' else c) n"

fun interleave :: "string list \<Rightarrow> string list \<Rightarrow> string list" where
  "interleave (n # ns) (d # ds) = n # d # interleave ns ds"
| "interleave _ _ = []"

definition action_parts :: "int \<Rightarrow> string \<Rightarrow> string \<Rightarrow> string list \<Rightarrow> string list \<Rightarrow> string list" where
  "action_parts kind tc args names digests =
     [''dc-action-v1'', to_string kind, tc, args] @ interleave names digests"

definition action_key :: "sha_fn \<Rightarrow> int \<Rightarrow> string \<Rightarrow> string \<Rightarrow> string list \<Rightarrow> string list \<Rightarrow> string" where
  "action_key sha kind tc args names digests = sha256_hex_parts sha (action_parts kind tc args names digests)"

subsection \<open>Columns of lines\<close>

lemma find_if_from:
  assumes "\<forall>c\<in>set a. \<not> P c" "P c"
  shows "find_if P (p @ a @ c # q) (length p) = Some (length p + length a)"
  using assms by (auto simp: find_if_Some nth_append)

lemma split_from_join:
  assumes "ss \<noteq> []" "\<forall>s\<in>set ss. nl \<notin> set s"
  shows "split_from (p @ join_lines ss) (length p) = ss"
  using assms
proof (induction ss arbitrary: p rule: induct_list012)
  case (2 s)
  then have "\<And>k. k < length s \<Longrightarrow> s ! k \<noteq> nl" by (auto simp: in_set_conv_nth)
  then have "find_if (\<lambda>c. c = nl) (p @ s) (length p) = None"
    by (simp add: find_if_None nth_append)
  then show ?case by (simp add: split_from.simps)
next
  case (3 s s' ss)
  let ?rest = "join_lines (s' # ss)"
  have a: "join_lines (s # s' # ss) = s @ nl # ?rest" by simp
  have f: "find_if (\<lambda>c. c = nl) (p @ s @ nl # ?rest) (length p) = Some (length p + length s)"
    using 3(3,4) by (intro find_if_from) auto
  have w: "substr (p @ s @ nl # ?rest) (length p) (length s) = s" by (simp add: substr_def)
  have t: "split_from (p @ s @ nl # ?rest) (length p + length s + 1) = s' # ss"
    using 3(2)[of "p @ s @ [nl]"] 3(4) by simp
  show ?case unfolding a by (subst split_from.simps) (simp add: f w t[simplified])
qed simp

text \<open>A column of lines: no line holds a newline, and the column is not a single empty line.\<close>

definition column :: "string list \<Rightarrow> bool" where
  "column ss \<longleftrightarrow> ss \<noteq> [[]] \<and> (\<forall>s\<in>set ss. nl \<notin> set s)"

lemma join_lines_Nil_iff: "column ss \<Longrightarrow> join_lines ss = [] \<longleftrightarrow> ss = []"
  by (cases ss rule: join_lines.cases) (auto simp: column_def)

lemma split_join_lines: "column ss \<Longrightarrow> split_lines (join_lines ss) = ss"
  using split_from_join[of ss "[]"] join_lines_Nil_iff[of ss]
  by (auto simp: split_lines_def column_def)

interpretation column: codec join_lines split_lines column
  by unfold_locales (rule split_join_lines)

subsection \<open>Action keys\<close>

lemma interleave_inject:
  assumes "length ns = length ds" "length ns' = length ds'"
  shows "interleave ns ds = interleave ns' ds' \<longleftrightarrow> ns = ns' \<and> ds = ds'"
  using assms
proof (induction ns ds arbitrary: ns' ds' rule: list_induct2)
  case Nil
  then show ?case by (cases ns'; cases ds') auto
next
  case (Cons n ns d ds)
  then show ?case by (cases ns'; cases ds') auto
qed

lemma action_parts_inject:
  assumes "length ns = length ds" "length ns' = length ds'"
  shows "action_parts k tc args ns ds = action_parts k' tc' args' ns' ds' \<longleftrightarrow>
    k = k' \<and> tc = tc' \<and> args = args' \<and> ns = ns' \<and> ds = ds'"
  using interleave_inject[OF assms] by (auto simp: action_parts_def)

text \<open>\<open>flat_name\<close> is not injective: two outputs may get the same file name on a worker.\<close>

lemma flat_name_clash: "flat_name ''obj/a_b.o'' = flat_name ''obj/a/b.o''"
  by (simp add: flat_name_def)

lemma nl_flat_name: "nl \<in> set (flat_name n) \<longleftrightarrow> nl \<in> set n"
  by (auto simp: flat_name_def image_iff)

lemma flat_name_Nil [simp]: "flat_name n = [] \<longleftrightarrow> n = []"
  by (simp add: flat_name_def)

end
