(* ===== verification/Dc_Sched.thy ===== *)
theory Dc_Sched
  imports Dc_Tables
begin

text \<open>
  The completion cascade of the coordinator (\<open>src/coordinator.cpp:446-505\<close>): \<open>finished\<close> counts
  down the dependents of a finished task, \<open>make_ready\<close> computes the key of a task that has all its
  inputs and either queues it or, when the action cache knows its output, finishes it at once
  (which recurses), \<open>maybe_finish\<close> settles the state of the build. Each SQL statement is an
  operation on the rows; the whole cascade runs in one transaction.
  \<open>None\<close> is the reading of a row that is not there (\<open>Rows::at\<close> does not check its indices) or the
  end of the fuel \<open>n\<close> of the recursion; \<open>Dc_Cascade\<close> shows that neither happens in consistent tables.
\<close>

section \<open>Statements\<close>

definition text_of :: "string option \<Rightarrow> string" where
  "text_of v = (case v of None \<Rightarrow> [] | Some s \<Rightarrow> s)"

definition task_rows :: "nat \<Rightarrow> nat \<Rightarrow> db \<Rightarrow> task_row list" where
  "task_rows b i db = filter (\<lambda>t. t_build t = b \<and> t_id t = i) (db_tasks db)"

definition upd_tasks :: "(task_row \<Rightarrow> bool) \<Rightarrow> (task_row \<Rightarrow> task_row) \<Rightarrow> db \<Rightarrow> db" where
  "upd_tasks P f db = db\<lparr>db_tasks := upd_where P f (db_tasks db)\<rparr>"

definition count_tasks :: "(tstate \<Rightarrow> bool) \<Rightarrow> nat \<Rightarrow> db \<Rightarrow> nat" where
  "count_tasks P b db = length (filter (\<lambda>t. t_build t = b \<and> P (t_state t)) (db_tasks db))"

definition set_build :: "int \<Rightarrow> nat \<Rightarrow> bstate \<Rightarrow> db \<Rightarrow> db" where
  "set_build now b s db =
     db\<lparr>db_builds := upd_where (\<lambda>r. b_id r = b \<and> b_state r = BRunning)
                       (\<lambda>r. r\<lparr>b_state := s, b_finished_at := Some now\<rparr>) (db_builds db)\<rparr>"

definition maybe_finish :: "int \<Rightarrow> nat \<Rightarrow> db \<Rightarrow> db" where
  "maybe_finish now b db =
     (let left = count_tasks (\<lambda>s. \<not> fin s) b db; failed = count_tasks (\<lambda>s. s = TFailed) b db
      in if failed > 0 then set_build now b BFailed db
         else if left = 0 then set_build now b BDone db
         else db)"

definition dependents :: "nat \<Rightarrow> nat \<Rightarrow> db \<Rightarrow> nat list" where
  "dependents b i db =
     map t_uid (sort_key t_id (concat (map (\<lambda>d. task_rows (d_build d) (d_task d) db)
       (filter (\<lambda>d. d_build d = b \<and> d_dep d = i) (db_deps db)))))"

definition dep_rows :: "nat \<Rightarrow> nat \<Rightarrow> db \<Rightarrow> task_row list" where
  "dep_rows b i db =
     concat (map (\<lambda>d. task_rows (d_build d) (d_dep d) db)
       (sort_key d_pos (filter (\<lambda>d. d_build d = b \<and> d_task d = i) (db_deps db))))"

definition count_down :: "nat \<Rightarrow> db \<Rightarrow> db \<times> (int \<times> nat) list" where
  "count_down u db =
     (let db' = upd_tasks (\<lambda>t. t_uid t = u) (\<lambda>t. t\<lparr>t_pending := t_pending t - 1\<rparr>) db
      in (db', map (\<lambda>t. (t_pending t, t_id t)) (filter (\<lambda>t. t_uid t = u) (db_tasks db'))))"

definition cache_rows :: "string \<Rightarrow> db \<Rightarrow> cache_row list" where
  "cache_rows k db = filter (\<lambda>c. c_key c = k) (db_cache db)"

definition cache_hit :: "string \<Rightarrow> db \<Rightarrow> db" where
  "cache_hit k db = db\<lparr>db_cache := upd_where (\<lambda>c. c_key c = k) (\<lambda>c. c\<lparr>c_hits := c_hits c + 1\<rparr>) (db_cache db)\<rparr>"

definition mark_cached :: "nat \<Rightarrow> nat \<Rightarrow> string \<Rightarrow> string \<Rightarrow> db \<Rightarrow> db" where
  "mark_cached b i k h db =
     upd_tasks (\<lambda>t. t_build t = b \<and> t_id t = i)
       (\<lambda>t. t\<lparr>t_state := TCached, t_key := Some k, t_output := Some h\<rparr>) db"

definition mark_ready :: "nat \<Rightarrow> nat \<Rightarrow> string \<Rightarrow> string \<Rightarrow> string \<Rightarrow> db \<Rightarrow> db" where
  "mark_ready b i k ins nms db =
     upd_tasks (\<lambda>t. t_build t = b \<and> t_id t = i)
       (\<lambda>t. t\<lparr>t_state := TReady, t_key := Some k, t_inputs := Some ins, t_input_names := Some nms\<rparr>) db"

section \<open>The cascade\<close>

definition dep_names :: "task_row list \<Rightarrow> string list" where
  "dep_names deps = map (\<lambda>t. flat_name (t_name t)) deps"

definition dep_digests :: "task_row list \<Rightarrow> string list" where
  "dep_digests deps = map (\<lambda>t. text_of (t_output t)) deps"

definition make_ready :: "(nat \<Rightarrow> nat \<Rightarrow> db \<Rightarrow> db option) \<Rightarrow> sha_fn \<Rightarrow> nat \<Rightarrow> nat \<Rightarrow> db \<Rightarrow> db option" where
  "make_ready finish sha b i db =
     (case task_rows b i db of
        [] \<Rightarrow> None
      | me # _ \<Rightarrow>
          let deps = dep_rows b i db; names = dep_names deps; digests = dep_digests deps;
              key = action_key sha (t_kind me) (t_toolchain me) (t_args me) names digests;
              db1 = cache_hit key db
          in (case cache_rows key db of
                c # _ \<Rightarrow> finish b i (mark_cached b i key (c_output c) db1)
              | [] \<Rightarrow> Some (mark_ready b i key (join_lines digests) (join_lines names) db1)))"

fun count_downs :: "(nat \<Rightarrow> nat \<Rightarrow> db \<Rightarrow> db option) \<Rightarrow> sha_fn \<Rightarrow> nat \<Rightarrow> nat list \<Rightarrow> db \<Rightarrow> db option" where
  "count_downs finish sha b [] db = Some db"
| "count_downs finish sha b (u # us) db =
     (case count_down u db of
        (db1, []) \<Rightarrow> None
      | (db1, (pending, i) # _) \<Rightarrow>
          (case if pending = 0 then make_ready finish sha b i db1 else Some db1 of
             None \<Rightarrow> None
           | Some db2 \<Rightarrow> count_downs finish sha b us db2))"

primrec finished :: "nat \<Rightarrow> sha_fn \<Rightarrow> int \<Rightarrow> nat \<Rightarrow> nat \<Rightarrow> db \<Rightarrow> db option" where
  "finished 0 sha now b i db = None"
| "finished (Suc n) sha now b i db =
     (let us = dependents b i db
      in case count_downs (finished n sha now) sha b us db of
           None \<Rightarrow> None
         | Some db' \<Rightarrow> Some (if us = [] then maybe_finish now b db' else db'))"

text \<open>Enough fuel: a call recurses only after one more task has nothing left to wait for.\<close>

definition open_tasks :: "db \<Rightarrow> nat" where
  "open_tasks db = length (filter (\<lambda>t. t_pending t > 0) (db_tasks db))"

definition finish_task :: "sha_fn \<Rightarrow> int \<Rightarrow> nat \<Rightarrow> nat \<Rightarrow> db \<Rightarrow> db option" where
  "finish_task sha now b i db = finished (Suc (length (db_tasks db))) sha now b i db"

end
