(* ===== verification/Dc_Consistent.thy ===== *)
theory Dc_Consistent
  imports Dc_Sched
begin

text \<open>
  What it means for the coordinator's tables to be consistent, and that one change of one task row
  keeps them so. The invariant has three parameters besides the contents \<open>C\<close> of the blob store and
  the bound \<open>m\<close> on attempts, for the points in the middle of a transaction: \<open>E\<close> holds the
  dependency rows whose task is finished but not yet counted down, \<open>X\<close> the builds whose state has
  yet to be settled, \<open>W\<close> the tasks that have been counted down to zero but not yet queued. Between
  transactions all three are empty.
\<close>

section \<open>The parts of the invariant\<close>

definition fin_at :: "db \<Rightarrow> nat \<Rightarrow> nat \<Rightarrow> bool" where
  "fin_at db b i \<longleftrightarrow> (\<exists>t\<in>set (task_rows b i db). fin (t_state t))"

definition dep_edges :: "nat \<Rightarrow> nat \<Rightarrow> db \<Rightarrow> dep_row list" where
  "dep_edges b i db = filter (\<lambda>d. d_build d = b \<and> d_task d = i) (db_deps db)"

definition out_edges :: "nat \<Rightarrow> nat \<Rightarrow> db \<Rightarrow> dep_row set" where
  "out_edges b i db = {d \<in> set (db_deps db). d_build d = b \<and> d_dep d = i}"

definition uncounted :: "dep_row set \<Rightarrow> db \<Rightarrow> nat \<Rightarrow> nat \<Rightarrow> dep_row list" where
  "uncounted E db b i = filter (\<lambda>d. \<not> fin_at db b (d_dep d) \<or> d \<in> E) (dep_edges b i db)"

text \<open>Keys and references: primary keys, the builds of the tasks, the sequences.\<close>

definition keys_ok :: "db \<Rightarrow> bool" where
  "keys_ok db \<longleftrightarrow>
     distinct (map t_uid (db_tasks db)) \<and> distinct (map (\<lambda>t. (t_build t, t_id t)) (db_tasks db)) \<and>
     distinct (map b_id (db_builds db)) \<and> distinct (map c_key (db_cache db)) \<and>
     (\<forall>t\<in>set (db_tasks db). t_uid t < db_next_uid db \<and> t_build t \<in> b_id ` set (db_builds db)) \<and>
     (\<forall>r\<in>set (db_builds db). b_id r < db_next_build db)"

text \<open>The dependency rows: their primary key, both tasks exist, a compile task has none, no cycle.\<close>

definition deps_ok :: "db \<Rightarrow> bool" where
  "deps_ok db \<longleftrightarrow>
     distinct (map (\<lambda>d. (d_build d, d_dep d, d_task d)) (db_deps db)) \<and>
     (\<forall>d\<in>set (db_deps db). task_rows (d_build d) (d_dep d) db \<noteq> [] \<and>
        (\<exists>t\<in>set (task_rows (d_build d) (d_task d) db). t_kind t \<noteq> 0)) \<and>
     (\<exists>rank :: nat \<Rightarrow> nat \<Rightarrow> nat. \<forall>d\<in>set (db_deps db). rank (d_build d) (d_dep d) < rank (d_build d) (d_task d))"

text \<open>The key of a task that is past waiting: the client's for a compile task, else the action
  key of what its dependencies are called and what they produced.\<close>

definition key_ok :: "sha_fn \<Rightarrow> db \<Rightarrow> task_row \<Rightarrow> bool" where
  "key_ok sha db t \<longleftrightarrow>
     (if t_kind t = 0 then t_key t \<noteq> None
      else let deps = dep_rows (t_build t) (t_id t) db
           in t_key t = Some (action_key sha (t_kind t) (t_toolchain t) (t_args t) (dep_names deps) (dep_digests deps)))"

text \<open>What a worker is given: for a compile task its preprocessed source, else the outputs of the
  dependencies in the order of their positions.\<close>

definition work_ok :: "string set \<Rightarrow> db \<Rightarrow> task_row \<Rightarrow> bool" where
  "work_ok C db t \<longleftrightarrow>
     (if t_kind t = 0 then \<exists>h\<in>C. t_input t = Some h \<and> t_inputs t = Some h \<and> t_input_names t = Some ''in.i''
      else let deps = dep_rows (t_build t) (t_id t) db
           in text_of (t_inputs t) = join_lines (dep_digests deps) \<and>
              text_of (t_input_names t) = join_lines (dep_names deps))"

definition cached_as :: "db \<Rightarrow> task_row \<Rightarrow> bool" where
  "cached_as db t \<longleftrightarrow>
     (\<exists>c\<in>set (db_cache db). t_key t = Some (c_key c) \<and> (t_state t = TCached \<longrightarrow> t_output t = Some (c_output c)))"

definition task_ok :: "sha_fn \<Rightarrow> nat \<Rightarrow> string set \<Rightarrow> dep_row set \<Rightarrow> nat set \<Rightarrow> db \<Rightarrow> task_row \<Rightarrow> bool" where
  "task_ok sha m C E W db t \<longleftrightarrow>
     t_pending t = int (length (uncounted E db (t_build t) (t_id t))) \<and>
     (t_state t = TWaiting \<longleftrightarrow> t_pending t > 0 \<or> t_uid t \<in> W) \<and>
     (t_uid t \<in> W \<longrightarrow> t_pending t = 0) \<and>
     (fin (t_state t) \<longrightarrow> (\<exists>h\<in>C. t_output t = Some h) \<and> cached_as db t) \<and>
     (t_state t \<noteq> TWaiting \<and> t_state t \<noteq> TFailed \<longrightarrow> key_ok sha db t) \<and>
     (t_state t = TReady \<or> t_state t = TRunning \<longrightarrow> work_ok C db t) \<and>
     (t_state t = TReady \<or> t_state t = TWaiting \<longrightarrow> t_attempts t < max 1 m) \<and>
     t_attempts t \<le> max 1 m \<and>
     (t_state t = TRunning \<longrightarrow> 0 < t_attempts t \<and> t_lease_owner t \<noteq> None \<and> t_lease_until t \<noteq> None)"

definition edges_ok :: "dep_row set \<Rightarrow> db \<Rightarrow> bool" where
  "edges_ok E db \<longleftrightarrow> (\<forall>d\<in>E. d \<in> set (db_deps db) \<and> fin_at db (d_build d) (d_dep d))"

definition build_ok :: "dep_row set \<Rightarrow> nat set \<Rightarrow> db \<Rightarrow> build_row \<Rightarrow> bool" where
  "build_ok E X db r \<longleftrightarrow>
     (case b_state r of
        BDone \<Rightarrow> \<forall>t\<in>set (db_tasks db). t_build t = b_id r \<longrightarrow> fin (t_state t)
      | BFailed \<Rightarrow> \<exists>t\<in>set (db_tasks db). t_build t = b_id r \<and> t_state t = TFailed
      | BRunning \<Rightarrow> b_id r \<in> X \<or>
          (\<forall>t\<in>set (db_tasks db). t_build t = b_id r \<longrightarrow> t_state t \<noteq> TFailed) \<and>
          ((\<exists>t\<in>set (db_tasks db). t_build t = b_id r \<and> \<not> fin (t_state t)) \<or> (\<exists>d\<in>E. d_build d = b_id r)))"

definition cache_ok :: "string set \<Rightarrow> db \<Rightarrow> bool" where
  "cache_ok C db \<longleftrightarrow> [] \<notin> C \<and> (\<forall>h\<in>C. nl \<notin> set h) \<and> (\<forall>c\<in>set (db_cache db). c_output c \<in> C)"

definition consistent ::
    "sha_fn \<Rightarrow> nat \<Rightarrow> string set \<Rightarrow> dep_row set \<Rightarrow> nat set \<Rightarrow> nat set \<Rightarrow> db \<Rightarrow> bool" where
  "consistent sha m C E X W db \<longleftrightarrow>
     keys_ok db \<and> deps_ok db \<and> edges_ok E db \<and> cache_ok C db \<and>
     (\<forall>t\<in>set (db_tasks db). task_ok sha m C E W db t) \<and>
     (\<forall>r\<in>set (db_builds db). build_ok E X db r)"

lemma consistentI:
  assumes "keys_ok db" "deps_ok db" "edges_ok E db" "cache_ok C db"
    and "\<And>t. t \<in> set (db_tasks db) \<Longrightarrow> task_ok sha m C E W db t"
    and "\<And>r. r \<in> set (db_builds db) \<Longrightarrow> build_ok E X db r"
  shows "consistent sha m C E X W db"
  using assms by (simp add: consistent_def)

lemma consistentD:
  assumes "consistent sha m C E X W db"
  shows "keys_ok db" "deps_ok db" "edges_ok E db" "cache_ok C db"
    and "t \<in> set (db_tasks db) \<Longrightarrow> task_ok sha m C E W db t"
    and "r \<in> set (db_builds db) \<Longrightarrow> build_ok E X db r"
  using assms by (simp_all add: consistent_def)

lemma build_ok_mono: "build_ok E X db r \<Longrightarrow> X \<subseteq> Y \<Longrightarrow> build_ok E Y db r"
  by (auto simp: build_ok_def split: bstate.splits)

lemma consistent_mono: "consistent sha m C E X W db \<Longrightarrow> X \<subseteq> Y \<Longrightarrow> consistent sha m C E Y W db"
  by (auto simp: consistent_def intro: build_ok_mono)

section \<open>One row\<close>

text \<open>The columns no operation changes.\<close>

definition same_cols :: "task_row \<Rightarrow> task_row \<Rightarrow> bool" where
  "same_cols t t' \<longleftrightarrow>
     t_uid t' = t_uid t \<and> t_build t' = t_build t \<and> t_id t' = t_id t \<and> t_kind t' = t_kind t \<and>
     t_name t' = t_name t \<and> t_input t' = t_input t \<and> t_args t' = t_args t \<and>
     t_toolchain t' = t_toolchain t \<and> t_cost t' = t_cost t \<and> t_priority t' = t_priority t \<and> t_part t' = t_part t"

lemma same_cols_refl [simp]: "same_cols t t"
  by (simp add: same_cols_def)

lemma same_cols_trans: "same_cols t u \<Longrightarrow> same_cols u v \<Longrightarrow> same_cols t v"
  by (simp add: same_cols_def)

lemma distinct_single: "distinct xs \<Longrightarrow> set xs = {x} \<Longrightarrow> xs = [x]"
  by (cases xs) (auto simp: subset_singleton_iff)

lemma task_rows_single:
  assumes "keys_ok db" "t \<in> set (db_tasks db)"
  shows "task_rows (t_build t) (t_id t) db = [t]"
proof -
  have inj: "inj_on (\<lambda>t. (t_build t, t_id t)) (set (db_tasks db))" and dist: "distinct (db_tasks db)"
    using assms(1) by (auto simp: keys_ok_def distinct_map)
  let ?f = "filter (\<lambda>s. t_build s = t_build t \<and> t_id s = t_id t) (db_tasks db)"
  have "set ?f = {t}" using inj assms(2) by (auto simp: inj_on_def)
  moreover have "distinct ?f" using dist by simp
  ultimately have "?f = [t]" by (intro distinct_single)
  then show ?thesis by (simp add: task_rows_def)
qed

lemma task_rows_mem: "t \<in> set (task_rows b i db) \<longleftrightarrow> t \<in> set (db_tasks db) \<and> t_build t = b \<and> t_id t = i"
  by (auto simp: task_rows_def)

lemma same_key_same_row:
  assumes "keys_ok db" "t \<in> set (db_tasks db)" "u \<in> set (db_tasks db)"
  shows "t_build t = t_build u \<Longrightarrow> t_id t = t_id u \<Longrightarrow> t = u" and "t_uid t = t_uid u \<Longrightarrow> t = u"
  using assms by (auto simp: keys_ok_def distinct_map inj_on_def)

lemma fin_at_row: "keys_ok db \<Longrightarrow> t \<in> set (db_tasks db) \<Longrightarrow> fin_at db (t_build t) (t_id t) \<longleftrightarrow> fin (t_state t)"
  by (simp add: fin_at_def task_rows_single)

definition set_row :: "task_row \<Rightarrow> db \<Rightarrow> db" where
  "set_row t' db = db\<lparr>db_tasks := map (\<lambda>t. if t_uid t = t_uid t' then t' else t) (db_tasks db)\<rparr>"

lemma set_row_simps [simp]:
  "db_builds (set_row t' db) = db_builds db" "db_deps (set_row t' db) = db_deps db"
  "db_cache (set_row t' db) = db_cache db" "db_workers (set_row t' db) = db_workers db"
  "db_next_uid (set_row t' db) = db_next_uid db" "db_next_build (set_row t' db) = db_next_build db"
  "dep_edges b i (set_row t' db) = dep_edges b i db" "out_edges b i (set_row t' db) = out_edges b i db"
  "length (db_tasks (set_row t' db)) = length (db_tasks db)"
  by (simp_all add: set_row_def dep_edges_def out_edges_def)

text \<open>An update by primary key, and one by build and index, is the change of one row.\<close>

lemma upd_tasks_row:
  assumes "keys_ok db" "t \<in> set (db_tasks db)" "t_uid (f t) = t_uid t"
    and "\<And>s. s \<in> set (db_tasks db) \<Longrightarrow> P s \<longleftrightarrow> s = t"
  shows "upd_tasks P f db = set_row (f t) db"
proof -
  have "(if P s then f s else s) = (if t_uid s = t_uid (f t) then f t else s)" if "s \<in> set (db_tasks db)" for s
    using same_key_same_row(2)[OF assms(1) that assms(2)] assms(3) assms(4)[OF that] by auto
  then show ?thesis by (simp add: upd_tasks_def set_row_def upd_where_def)
qed

lemma upd_tasks_uid:
  "keys_ok db \<Longrightarrow> t \<in> set (db_tasks db) \<Longrightarrow> t_uid (f t) = t_uid t \<Longrightarrow>
   upd_tasks (\<lambda>s. t_uid s = t_uid t) f db = set_row (f t) db"
  by (rule upd_tasks_row) (auto dest: same_key_same_row(2))

lemma upd_tasks_at:
  "keys_ok db \<Longrightarrow> t \<in> set (db_tasks db) \<Longrightarrow> t_uid (f t) = t_uid t \<Longrightarrow>
   upd_tasks (\<lambda>s. t_build s = t_build t \<and> t_id s = t_id t) f db = set_row (f t) db"
  by (rule upd_tasks_row) (auto dest: same_key_same_row(1))

lemma set_row_mem:
  assumes "keys_ok db" "t \<in> set (db_tasks db)" "same_cols t t'"
  shows "s \<in> set (db_tasks (set_row t' db)) \<longleftrightarrow> s = t' \<or> s \<in> set (db_tasks db) \<and> s \<noteq> t"
proof -
  have u: "t_uid t' = t_uid t" using assms(3) by (simp add: same_cols_def)
  have "t_uid x = t_uid t \<longleftrightarrow> x = t" if "x \<in> set (db_tasks db)" for x
    using same_key_same_row(2)[OF assms(1) that assms(2)] by auto
  then have "set (db_tasks (set_row t' db)) = (\<lambda>x. if x = t then t' else x) ` set (db_tasks db)"
    by (simp add: set_row_def u cong: image_cong_simp)
  then show ?thesis using assms(2) by auto
qed

lemma keys_ok_set_row:
  assumes "keys_ok db" "t \<in> set (db_tasks db)" "same_cols t t'"
  shows "keys_ok (set_row t' db)"
proof -
  have u: "t_uid t' = t_uid t" "t_build t' = t_build t" "t_id t' = t_id t"
    using assms(3) by (simp_all add: same_cols_def)
  have same: "map g (db_tasks (set_row t' db)) = map g (db_tasks db)" if "g t' = g t" for g :: "task_row \<Rightarrow> 'x"
    using that same_key_same_row(2)[OF assms(1) _ assms(2)] by (auto simp: set_row_def u(1))
  have "map t_uid (db_tasks (set_row t' db)) = map t_uid (db_tasks db)" by (rule same) (simp add: u)
  moreover have "map (\<lambda>t. (t_build t, t_id t)) (db_tasks (set_row t' db)) = map (\<lambda>t. (t_build t, t_id t)) (db_tasks db)"
    by (rule same) (simp add: u)
  moreover have "\<forall>s\<in>set (db_tasks (set_row t' db)). t_uid s < db_next_uid db \<and> t_build s \<in> b_id ` set (db_builds db)"
    using assms(1,2) u by (auto simp: set_row_mem[OF assms] keys_ok_def)
  ultimately show ?thesis using assms(1) by (simp add: keys_ok_def)
qed

lemma task_rows_set_row:
  assumes "keys_ok db" "t \<in> set (db_tasks db)" "same_cols t t'"
  shows "task_rows b i (set_row t' db) = (if t_build t = b \<and> t_id t = i then [t'] else task_rows b i db)"
proof (cases "t_build t = b \<and> t_id t = i")
  case True
  then have "task_rows (t_build t') (t_id t') (set_row t' db) = [t']"
    using task_rows_single[OF keys_ok_set_row[OF assms], of t'] set_row_mem[OF assms] by blast
  with True assms(3) show ?thesis by (simp add: same_cols_def)
next
  case False
  have u: "t_uid t' = t_uid t" "t_build t' = t_build t" "t_id t' = t_id t"
    using assms(3) by (simp_all add: same_cols_def)
  have "filter (\<lambda>s. t_build s = b \<and> t_id s = i) (map (\<lambda>s. if t_uid s = t_uid t' then t' else s) ts)
      = filter (\<lambda>s. t_build s = b \<and> t_id s = i) ts" if "set ts \<subseteq> set (db_tasks db)" for ts
    using that False same_key_same_row(2)[OF assms(1) _ assms(2)] by (induction ts) (auto simp: u)
  then show ?thesis unfolding if_not_P[OF False] task_rows_def set_row_def by simp
qed

lemma fin_at_set_row:
  assumes "keys_ok db" "t \<in> set (db_tasks db)" "same_cols t t'"
  shows "fin_at (set_row t' db) b i \<longleftrightarrow> (if t_build t = b \<and> t_id t = i then fin (t_state t') else fin_at db b i)"
  by (simp add: fin_at_def task_rows_set_row[OF assms])

text \<open>The rows of the dependencies change only where the changed task is one of them.\<close>

lemma dep_rows_set_row:
  assumes "keys_ok db" "t \<in> set (db_tasks db)" "same_cols t t'"
    and "\<And>d. d \<in> set (dep_edges b i db) \<Longrightarrow> t_build t = b \<Longrightarrow> d_dep d \<noteq> t_id t"
  shows "dep_rows b i (set_row t' db) = dep_rows b i db"
proof -
  have "task_rows (d_build d) (d_dep d) (set_row t' db) = task_rows (d_build d) (d_dep d) db"
    if "d \<in> set (sort_key d_pos (filter (\<lambda>d. d_build d = b \<and> d_task d = i) (db_deps db)))" for d
    using that assms(4)[of d] by (auto simp: task_rows_set_row[OF assms(1-3)] dep_edges_def)
  then show ?thesis unfolding dep_rows_def by (metis (no_types, lifting) map_cong set_row_simps(2))
qed

section \<open>Changes of one row\<close>

lemma pending_zero:
  assumes "task_ok sha m C E W db s" "t_pending s = 0" "d \<in> set (dep_edges (t_build s) (t_id s) db)"
  shows "fin_at db (t_build s) (d_dep d)" "d \<notin> E"
proof -
  have "uncounted E db (t_build s) (t_id s) = []" using assms(1,2) by (simp add: task_ok_def)
  with assms(3) show "fin_at db (t_build s) (d_dep d)" "d \<notin> E"
    by (auto simp: uncounted_def filter_empty_conv)
qed

lemma pending_nonneg: "task_ok sha m C E W db s \<Longrightarrow> 0 \<le> t_pending s"
  by (simp add: task_ok_def)

lemma not_waiting_pending: "task_ok sha m C E W db s \<Longrightarrow> t_state s \<noteq> TWaiting \<Longrightarrow> t_pending s = 0"
  by (auto simp: task_ok_def)

lemma no_self_dep:
  assumes "deps_ok db" "d \<in> set (dep_edges b i db)"
  shows "d_dep d \<noteq> i"
  using assms by (auto simp: deps_ok_def dep_edges_def)

lemma key_work_unaffected:
  assumes "keys_ok db" "t \<in> set (db_tasks db)" "same_cols t t'" "\<not> fin (t_state t)"
    and "task_ok sha m C E W db s" "t_pending s = 0"
  shows "dep_rows (t_build s) (t_id s) (set_row t' db) = dep_rows (t_build s) (t_id s) db"
proof (rule dep_rows_set_row[OF assms(1-3)], rule notI)
  fix d assume d: "d \<in> set (dep_edges (t_build s) (t_id s) db)" "t_build t = t_build s" "d_dep d = t_id t"
  from pending_zero(1)[OF assms(5,6) d(1)] d(2,3) have "fin_at db (t_build t) (t_id t)" by simp
  with fin_at_row[OF assms(1,2)] assms(4) show False by simp
qed

lemma key_ok_cong: "dep_rows (t_build s) (t_id s) db' = dep_rows (t_build s) (t_id s) db \<Longrightarrow> key_ok sha db' s = key_ok sha db s"
  and work_ok_cong: "dep_rows (t_build s) (t_id s) db' = dep_rows (t_build s) (t_id s) db \<Longrightarrow> work_ok C db' s = work_ok C db s"
  by (simp_all add: key_ok_def work_ok_def)

lemma cached_as_cong: "db_cache db' = db_cache db \<Longrightarrow> cached_as db' s = cached_as db s"
  by (simp add: cached_as_def)

text \<open>A task that is not the changed one keeps its invariant when its dependencies count the same.\<close>

lemma task_ok_other:
  assumes "keys_ok db" "t \<in> set (db_tasks db)" "same_cols t t'" "\<not> fin (t_state t)"
    and "task_ok sha m C E W db s"
    and "length (uncounted E' (set_row t' db) (t_build s) (t_id s)) = length (uncounted E db (t_build s) (t_id s))"
    and "t_uid s \<in> W' \<longleftrightarrow> t_uid s \<in> W"
  shows "task_ok sha m C E' W' (set_row t' db) s"
proof -
  have dr: "dep_rows (t_build s) (t_id s) (set_row t' db) = dep_rows (t_build s) (t_id s) db"
    if "t_state s \<noteq> TWaiting"
    using key_work_unaffected[OF assms(1-5)] not_waiting_pending[OF assms(5) that] by simp
  have "cached_as (set_row t' db) s = cached_as db s" by (rule cached_as_cong) simp
  moreover have "t_state s \<noteq> TWaiting \<Longrightarrow> key_ok sha (set_row t' db) s = key_ok sha db s"
    by (rule key_ok_cong) (rule dr)
  moreover have "t_state s \<noteq> TWaiting \<Longrightarrow> work_ok C (set_row t' db) s = work_ok C db s"
    by (rule work_ok_cong) (rule dr)
  moreover obtain n where "length (uncounted E db (t_build s) (t_id s)) = n" by simp
  ultimately show ?thesis using assms(5) unfolding task_ok_def assms(6,7)
    by (cases "t_state s") auto
qed

lemma deps_ok_set_row:
  assumes "keys_ok db" "t \<in> set (db_tasks db)" "same_cols t t'" "deps_ok db"
  shows "deps_ok (set_row t' db)"
proof -
  have "task_rows (d_build d) (d_dep d) (set_row t' db) \<noteq> [] \<and>
        (\<exists>s\<in>set (task_rows (d_build d) (d_task d) (set_row t' db)). t_kind s \<noteq> 0)" if "d \<in> set (db_deps db)" for d
  proof -
    have "task_rows (d_build d) (d_dep d) db \<noteq> []" and
      k: "\<exists>s\<in>set (task_rows (d_build d) (d_task d) db). t_kind s \<noteq> 0"
      using assms(4) that by (simp_all add: deps_ok_def)
    moreover have "t_kind t' \<noteq> 0" if "t_build t = d_build d" "t_id t = d_task d"
      using k that task_rows_single[OF assms(1,2)] assms(3) by (simp add: same_cols_def)
    ultimately show ?thesis by (auto simp: task_rows_set_row[OF assms(1-3)])
  qed
  with assms(4) show ?thesis by (simp add: deps_ok_def)
qed

text \<open>A change between unfinished states.\<close>

lemma consistent_unfinished:
  assumes con: "consistent sha m C E X W db" and t: "t \<in> set (db_tasks db)" and c: "same_cols t t'"
    and nf: "\<not> terminal (t_state t)" "\<not> fin (t_state t')"
    and t': "task_ok sha m C E W' db t'" and W: "\<And>u. u \<noteq> t_uid t \<Longrightarrow> u \<in> W' \<longleftrightarrow> u \<in> W"
    and X: "X \<subseteq> X'" "t_state t' = TFailed \<Longrightarrow> t_build t \<in> X'"
  shows "consistent sha m C E X' W' (set_row t' db)"
proof (rule consistentI)
  note D = consistentD[OF con]
  note k = D(1)
  have nt: "\<not> fin (t_state t)" using nf(1) fin_terminal by blast
  have cols: "t_uid t' = t_uid t" "t_build t' = t_build t" "t_id t' = t_id t" "t_kind t' = t_kind t"
    "t_toolchain t' = t_toolchain t" "t_args t' = t_args t" "t_input t' = t_input t"
    using c by (simp_all add: same_cols_def)
  have fa: "fin_at (set_row t' db) b i = fin_at db b i" for b i
    using fin_at_set_row[OF k t c] fin_at_row[OF k t] nf(2) nt by auto
  have un: "uncounted E (set_row t' db) b i = uncounted E db b i" for b i
    by (simp add: uncounted_def fa)
  show "keys_ok (set_row t' db)" by (rule keys_ok_set_row[OF k t c])
  show "deps_ok (set_row t' db)" by (rule deps_ok_set_row[OF k t c D(2)])
  show "edges_ok E (set_row t' db)" using D(3) by (simp add: edges_ok_def fa)
  show "cache_ok C (set_row t' db)" using D(4) by (simp add: cache_ok_def)
  show "task_ok sha m C E W' (set_row t' db) s" if "s \<in> set (db_tasks (set_row t' db))" for s
  proof (cases "s = t'")
    case True
    have dr: "dep_rows (t_build t') (t_id t') (set_row t' db) = dep_rows (t_build t') (t_id t') db"
      unfolding cols by (rule dep_rows_set_row[OF k t c]) (rule no_self_dep[OF D(2)])
    have "cached_as (set_row t' db) t' = cached_as db t'" by (rule cached_as_cong) simp
    then have "task_ok sha m C E W' (set_row t' db) t' = task_ok sha m C E W' db t'"
      by (simp only: task_ok_def un key_ok_cong[OF dr] work_ok_cong[OF dr])
    with t' True show ?thesis by simp
  next
    case False
    then have s: "s \<in> set (db_tasks db)" "s \<noteq> t" using that set_row_mem[OF k t c] by auto
    have "t_uid s \<noteq> t_uid t" using same_key_same_row(2)[OF k s(1) t] s(2) by blast
    then show ?thesis by (intro task_ok_other[OF k t c nt D(5)[OF s(1)]]) (simp_all add: un W)
  qed
  show "build_ok E X' (set_row t' db) r" if "r \<in> set (db_builds (set_row t' db))" for r
  proof -
    have r: "build_ok E X db r" using that D(6) by simp
    show ?thesis
    proof (cases "b_state r")
      case BDone
      with r nt t show ?thesis by (auto simp: build_ok_def set_row_mem[OF k t c] cols)
    next
      case BFailed
      with r obtain s where "s \<in> set (db_tasks db)" "t_build s = b_id r" "t_state s = TFailed"
        by (auto simp: build_ok_def)
      moreover from this nf(1) have "s \<noteq> t" by (auto simp: terminal_def)
      ultimately show ?thesis using BFailed by (auto simp: build_ok_def set_row_mem[OF k t c])
    next
      case BRunning
      show ?thesis
      proof (cases "b_id r \<in> X'")
        case False
        then have "b_id r \<notin> X" using X(1) by blast
        with r BRunning have nofail: "\<forall>s\<in>set (db_tasks db). t_build s = b_id r \<longrightarrow> t_state s \<noteq> TFailed"
          and open': "(\<exists>s\<in>set (db_tasks db). t_build s = b_id r \<and> \<not> fin (t_state s)) \<or> (\<exists>d\<in>E. d_build d = b_id r)"
          by (auto simp: build_ok_def)
        have "\<forall>s\<in>set (db_tasks (set_row t' db)). t_build s = b_id r \<longrightarrow> t_state s \<noteq> TFailed"
          using nofail X(2) False by (auto simp: set_row_mem[OF k t c] cols)
        moreover have "(\<exists>s\<in>set (db_tasks (set_row t' db)). t_build s = b_id r \<and> \<not> fin (t_state s)) \<or> (\<exists>d\<in>E. d_build d = b_id r)"
          using open' nf(2) by (metis cols(2) set_row_mem[OF k t c])
        ultimately show ?thesis using BRunning by (simp add: build_ok_def)
      qed (simp add: build_ok_def BRunning)
    qed
  qed
qed

text \<open>A task finishes: the dependency rows it has below it are not counted down yet.\<close>

lemma consistent_finishes:
  assumes con: "consistent sha m C E X W db" and t: "t \<in> set (db_tasks db)" and c: "same_cols t t'"
    and nf: "\<not> terminal (t_state t)" "fin (t_state t')" and p: "t_pending t = 0" "t_pending t' = 0"
    and at: "t_attempts t' = t_attempts t" and out: "\<exists>h\<in>C. t_output t' = Some h"
    and key: "key_ok sha db t'" "cached_as db t'"
    and X': "X \<subseteq> X'" "out_edges (t_build t) (t_id t) db = {} \<Longrightarrow> t_build t \<in> X'"
  shows "consistent sha m C (E \<union> out_edges (t_build t) (t_id t) db) X' (W - {t_uid t}) (set_row t' db)"
    (is "consistent sha m C ?E X' ?W ?db")
proof (rule consistentI)
  note D = consistentD[OF con]
  note k = D(1)
  have nt: "\<not> fin (t_state t)" using nf(1) fin_terminal by blast
  have cols: "t_uid t' = t_uid t" "t_build t' = t_build t" "t_id t' = t_id t"
    using c by (simp_all add: same_cols_def)
  have fa: "fin_at ?db b i \<longleftrightarrow> t_build t = b \<and> t_id t = i \<or> fin_at db b i" for b i
    using fin_at_set_row[OF k t c] nf(2) by auto
  have un: "uncounted ?E ?db b i = uncounted E db b i" for b i
  proof -
    have "\<not> fin_at ?db b (d_dep d) \<or> d \<in> ?E \<longleftrightarrow> \<not> fin_at db b (d_dep d) \<or> d \<in> E" if "d \<in> set (dep_edges b i db)" for d
    proof -
      have d: "d_build d = b" "d \<in> set (db_deps db)" using that by (auto simp: dep_edges_def)
      have "\<not> fin_at db (t_build t) (t_id t)" using fin_at_row[OF k t] nt by simp
      with d show ?thesis by (auto simp: fa out_edges_def)
    qed
    then show ?thesis unfolding uncounted_def set_row_simps by (intro filter_cong) auto
  qed
  show "keys_ok ?db" by (rule keys_ok_set_row[OF k t c])
  show "deps_ok ?db" by (rule deps_ok_set_row[OF k t c D(2)])
  show "edges_ok ?E ?db" using D(3) by (auto simp: edges_ok_def fa out_edges_def)
  show "cache_ok C ?db" using D(4) by (simp add: cache_ok_def)
  show "task_ok sha m C ?E ?W ?db s" if "s \<in> set (db_tasks ?db)" for s
  proof (cases "s = t'")
    case True
    have dr: "dep_rows (t_build t') (t_id t') ?db = dep_rows (t_build t') (t_id t') db"
      unfolding cols by (rule dep_rows_set_row[OF k t c]) (rule no_self_dep[OF D(2)])
    have "cached_as ?db t' = cached_as db t'" by (rule cached_as_cong) simp
    moreover have "length (uncounted E db (t_build t) (t_id t)) = 0" "t_attempts t \<le> max 1 m"
      using D(5)[OF t] p(1) by (simp_all add: task_ok_def)
    ultimately show ?thesis unfolding True task_ok_def un key_ok_cong[OF dr]
      using nf(2) p(2) out key at cols by (cases "t_state t'") simp_all
  next
    case False
    then have s: "s \<in> set (db_tasks db)" "s \<noteq> t" using that set_row_mem[OF k t c] by auto
    have "t_uid s \<noteq> t_uid t" using same_key_same_row(2)[OF k s(1) t] s(2) by blast
    then show ?thesis by (intro task_ok_other[OF k t c nt D(5)[OF s(1)]]) (simp_all add: un)
  qed
  show "build_ok ?E X' ?db r" if "r \<in> set (db_builds ?db)" for r
  proof -
    have r: "build_ok E X db r" using that D(6) by simp
    have nf': "t_state t \<noteq> TFailed" "t_state t' \<noteq> TFailed" using nf by (auto simp: terminal_def fin_def)
    show ?thesis
    proof (cases "b_state r")
      case BDone
      with r nt t show ?thesis by (auto simp: build_ok_def set_row_mem[OF k t c] cols)
    next
      case BFailed
      with r nf' show ?thesis unfolding build_ok_def by (auto simp: set_row_mem[OF k t c])
    next
      case BRunning
      show ?thesis
      proof (cases "b_id r \<in> X'")
        case False
        then have "b_id r \<notin> X" using X'(1) by blast
        with r BRunning have nofail: "\<forall>s\<in>set (db_tasks db). t_build s = b_id r \<longrightarrow> t_state s \<noteq> TFailed"
          and open': "(\<exists>s\<in>set (db_tasks db). t_build s = b_id r \<and> \<not> fin (t_state s)) \<or> (\<exists>d\<in>E. d_build d = b_id r)"
          by (auto simp: build_ok_def)
        have "\<forall>s\<in>set (db_tasks ?db). t_build s = b_id r \<longrightarrow> t_state s \<noteq> TFailed"
          using nofail nf' by (auto simp: set_row_mem[OF k t c])
        moreover have "(\<exists>s\<in>set (db_tasks ?db). t_build s = b_id r \<and> \<not> fin (t_state s)) \<or> (\<exists>d\<in>?E. d_build d = b_id r)"
        proof (cases "b_id r = t_build t")
          case True
          with X'(2) False have "out_edges (t_build t) (t_id t) db \<noteq> {}" by auto
          with True show ?thesis by (auto simp: out_edges_def)
        next
          case False
          with open' show ?thesis by (metis UnI1 set_row_mem[OF k t c])
        qed
        ultimately show ?thesis using BRunning by (simp add: build_ok_def)
      qed (simp add: build_ok_def BRunning)
    qed
  qed
qed

end
