(* ===== verification/Dc_Cascade.thy ===== *)
theory Dc_Cascade
  imports Dc_Consistent
begin

text \<open>
  The completion cascade on consistent tables. \<open>evolves\<close> is what every operation of the coordinator
  promises about the rows that were there before: tasks and builds stay, a finished or failed task
  and a settled build never change, cached outputs stay. The last lemma is the total correctness of
  \<open>finished\<close>: with the fuel of \<open>finish_task\<close> it has a result, every dependency row below the
  finished task is counted down, and the tables are consistent again.
\<close>

section \<open>What stays\<close>

definition evolves :: "db \<Rightarrow> db \<Rightarrow> bool" where
  "evolves db db' \<longleftrightarrow>
     set (db_deps db) \<subseteq> set (db_deps db') \<and>
     (\<forall>t\<in>set (db_tasks db). \<exists>t'\<in>set (db_tasks db'). same_cols t t' \<and> t_attempts t \<le> t_attempts t' \<and>
        (terminal (t_state t) \<longrightarrow> t' = t)) \<and>
     (\<forall>r\<in>set (db_builds db). \<exists>r'\<in>set (db_builds db'). b_id r' = b_id r \<and> b_total r' = b_total r \<and>
        b_toolchain r' = b_toolchain r \<and> (b_state r \<noteq> BRunning \<longrightarrow> r' = r)) \<and>
     (\<forall>c\<in>set (db_cache db). \<exists>c'\<in>set (db_cache db'). c_key c' = c_key c \<and> c_output c' = c_output c) \<and>
     (\<forall>t'\<in>set (db_tasks db'). t_build t' \<in> b_id ` set (db_builds db) \<longrightarrow> (\<exists>t\<in>set (db_tasks db). same_cols t t'))"

lemma evolves_refl: "evolves db db"
  unfolding evolves_def by (intro conjI ballI) (auto intro: rev_bexI)

lemma evolves_trans:
  assumes "evolves a b" "evolves b c"
  shows "evolves a c"
  unfolding evolves_def
proof (intro conjI ballI)
  show "set (db_deps a) \<subseteq> set (db_deps c)" using assms by (auto simp: evolves_def)
next
  fix t assume "t \<in> set (db_tasks a)"
  with assms(1) obtain u where u: "u \<in> set (db_tasks b)" "same_cols t u" "t_attempts t \<le> t_attempts u"
    "terminal (t_state t) \<longrightarrow> u = t" unfolding evolves_def by blast
  from assms(2) u(1) obtain v where "v \<in> set (db_tasks c)" "same_cols u v" "t_attempts u \<le> t_attempts v"
    "terminal (t_state u) \<longrightarrow> v = u" unfolding evolves_def by blast
  with u show "\<exists>t'\<in>set (db_tasks c). same_cols t t' \<and> t_attempts t \<le> t_attempts t' \<and> (terminal (t_state t) \<longrightarrow> t' = t)"
    using same_cols_trans[of t u v] by (intro bexI[of _ v]) auto
next
  fix r assume "r \<in> set (db_builds a)"
  with assms(1) obtain s where s: "s \<in> set (db_builds b)" "b_id s = b_id r" "b_total s = b_total r"
    "b_toolchain s = b_toolchain r" "b_state r \<noteq> BRunning \<longrightarrow> s = r" unfolding evolves_def by metis
  from assms(2) s(1) obtain v where "v \<in> set (db_builds c)" "b_id v = b_id s" "b_total v = b_total s"
    "b_toolchain v = b_toolchain s" "b_state s \<noteq> BRunning \<longrightarrow> v = s" unfolding evolves_def by metis
  with s show "\<exists>r'\<in>set (db_builds c). b_id r' = b_id r \<and> b_total r' = b_total r \<and>
      b_toolchain r' = b_toolchain r \<and> (b_state r \<noteq> BRunning \<longrightarrow> r' = r)"
    by (intro bexI[of _ v]) auto
next
  fix x assume "x \<in> set (db_cache a)"
  with assms show "\<exists>c'\<in>set (db_cache c). c_key c' = c_key x \<and> c_output c' = c_output x"
    unfolding evolves_def by metis
next
  fix v assume v: "v \<in> set (db_tasks c)"
  show "t_build v \<in> b_id ` set (db_builds a) \<longrightarrow> (\<exists>t\<in>set (db_tasks a). same_cols t v)"
  proof
    assume a: "t_build v \<in> b_id ` set (db_builds a)"
    then have "t_build v \<in> b_id ` set (db_builds b)" using assms(1) unfolding evolves_def image_iff by metis
    with assms(2) v obtain u where u: "u \<in> set (db_tasks b)" "same_cols u v" unfolding evolves_def by blast
    with a have "t_build u \<in> b_id ` set (db_builds a)" by (simp add: same_cols_def)
    with assms(1) u(1) obtain t where "t \<in> set (db_tasks a)" "same_cols t u" unfolding evolves_def by blast
    with u(2) same_cols_trans[of t u v] show "\<exists>t\<in>set (db_tasks a). same_cols t v" by blast
  qed
qed

lemma evolves_set_row:
  assumes "keys_ok db" "t \<in> set (db_tasks db)" "same_cols t t'" "\<not> terminal (t_state t)"
    and "t_attempts t \<le> t_attempts t'"
  shows "evolves db (set_row t' db)"
  unfolding evolves_def
proof (intro conjI ballI)
  fix s assume s: "s \<in> set (db_tasks db)"
  show "\<exists>s'\<in>set (db_tasks (set_row t' db)). same_cols s s' \<and> t_attempts s \<le> t_attempts s' \<and> (terminal (t_state s) \<longrightarrow> s' = s)"
  proof (cases "s = t")
    case True
    have "t' \<in> set (db_tasks (set_row t' db))" by (simp add: set_row_mem[OF assms(1-3)])
    then show ?thesis using True assms(3-5) by (intro bexI[of _ t']) simp_all
  next
    case False
    with s have "s \<in> set (db_tasks (set_row t' db))" by (simp add: set_row_mem[OF assms(1-3)])
    then show ?thesis by (intro bexI[of _ s]) simp_all
  qed
next
  fix s assume "s \<in> set (db_tasks (set_row t' db))"
  then have "s = t' \<or> s \<in> set (db_tasks db)" by (auto simp: set_row_mem[OF assms(1-3)])
  then have "\<exists>t\<in>set (db_tasks db). same_cols t s" using assms(2,3) by (auto intro: rev_bexI)
  then show "t_build s \<in> b_id ` set (db_builds db) \<longrightarrow> (\<exists>t\<in>set (db_tasks db). same_cols t s)" by blast
qed (auto intro: rev_bexI)

section \<open>Changes that leave the tasks alone\<close>

lemma task_rows_same: "db_tasks db' = db_tasks db \<Longrightarrow> task_rows b i db' = task_rows b i db"
  by (simp add: task_rows_def)

lemma same_tasks_deps:
  assumes "db_tasks db' = db_tasks db" "db_deps db' = db_deps db"
  shows "fin_at db' b i = fin_at db b i" "dep_edges b i db' = dep_edges b i db"
    "uncounted E db' b i = uncounted E db b i" "dep_rows b i db' = dep_rows b i db"
    "out_edges b i db' = out_edges b i db" "deps_ok db' = deps_ok db" "edges_ok E db' = edges_ok E db"
  unfolding fin_at_def dep_edges_def uncounted_def dep_rows_def out_edges_def deps_ok_def edges_ok_def
    task_rows_same[OF assms(1)] assms(2) by (rule refl)+

lemma task_ok_same:
  assumes "db_tasks db' = db_tasks db" "db_deps db' = db_deps db" "cached_as db t \<Longrightarrow> cached_as db' t"
    and "task_ok sha m C E W db t"
  shows "task_ok sha m C E W db' t"
  using assms(3,4) unfolding task_ok_def key_ok_def work_ok_def same_tasks_deps[OF assms(1,2)] by blast

lemma build_ok_same:
  assumes "db_tasks db' = db_tasks db"
  shows "build_ok E X db' r = build_ok E X db r"
  unfolding build_ok_def assms ..

text \<open>A hit in the action cache only counts.\<close>

lemma cache_hit_simps [simp]:
  "db_tasks (cache_hit k db) = db_tasks db" "db_deps (cache_hit k db) = db_deps db"
  "db_builds (cache_hit k db) = db_builds db" "db_workers (cache_hit k db) = db_workers db"
  "db_next_uid (cache_hit k db) = db_next_uid db" "db_next_build (cache_hit k db) = db_next_build db"
  by (simp_all add: cache_hit_def)

lemma cache_hit_rows: "(\<lambda>c. (c_key c, c_output c)) ` set (db_cache (cache_hit k db)) = (\<lambda>c. (c_key c, c_output c)) ` set (db_cache db)"
  unfolding cache_hit_def by (simp add: image_upd_where)

lemma cache_hit_ex:
  "(\<exists>c\<in>set (db_cache (cache_hit k db)). P (c_key c) (c_output c)) \<longleftrightarrow> (\<exists>c\<in>set (db_cache db). P (c_key c) (c_output c))"
proof -
  have e: "(\<exists>c\<in>set cs. P (c_key c) (c_output c)) \<longleftrightarrow> (\<exists>x\<in>(\<lambda>c. (c_key c, c_output c)) ` set cs. P (fst x) (snd x))"
    for cs by simp
  show ?thesis unfolding e cache_hit_rows ..
qed

lemma cached_as_hit: "cached_as (cache_hit k db) t = cached_as db t"
  using cache_hit_ex[where P = "\<lambda>a b. t_key t = Some a \<and> (t_state t = TCached \<longrightarrow> t_output t = Some b)" and db = db]
  by (simp add: cached_as_def)

lemma consistent_cache_hit:
  assumes "consistent sha m C E X W db"
  shows "consistent sha m C E X W (cache_hit k db)"
proof (rule consistentI)
  note D = consistentD[OF assms]
  have "map c_key (db_cache (cache_hit k db)) = map c_key (db_cache db)"
    unfolding cache_hit_def by (simp add: map_upd_where_same)
  then show "keys_ok (cache_hit k db)" using D(1) by (simp add: keys_ok_def)
  show "deps_ok (cache_hit k db)" "edges_ok E (cache_hit k db)"
    using D(2,3) same_tasks_deps(6,7)[of "cache_hit k db" db] by simp_all
  show "cache_ok C (cache_hit k db)"
    using D(4) cache_hit_ex[of k db "\<lambda>a h. h \<notin> C"] by (auto simp: cache_ok_def)
  show "task_ok sha m C E W (cache_hit k db) t" if "t \<in> set (db_tasks (cache_hit k db))" for t
    using that by (intro task_ok_same[OF _ _ _ D(5)]) (simp_all add: cached_as_hit)
  show "build_ok E X (cache_hit k db) r" if "r \<in> set (db_builds (cache_hit k db))" for r
    using D(6)[of r] that build_ok_same[of "cache_hit k db" db] by simp
qed

lemma evolves_cache_hit: "evolves db (cache_hit k db)"
  unfolding evolves_def
proof (intro conjI ballI)
  fix c assume "c \<in> set (db_cache db)"
  then show "\<exists>c'\<in>set (db_cache (cache_hit k db)). c_key c' = c_key c \<and> c_output c' = c_output c"
    using cache_hit_ex[where P = "\<lambda>a b. a = c_key c \<and> b = c_output c"] by fast
qed (auto intro: rev_bexI)

section \<open>The state of a build is settled\<close>

lemma count_tasks_0: "count_tasks P b db = 0 \<longleftrightarrow> (\<forall>t\<in>set (db_tasks db). t_build t = b \<longrightarrow> \<not> P (t_state t))"
  by (auto simp: count_tasks_def filter_empty_conv)

lemma set_build_simps [simp]:
  "db_tasks (set_build now b s db) = db_tasks db" "db_deps (set_build now b s db) = db_deps db"
  "db_cache (set_build now b s db) = db_cache db" "db_workers (set_build now b s db) = db_workers db"
  "db_next_uid (set_build now b s db) = db_next_uid db" "db_next_build (set_build now b s db) = db_next_build db"
  "b_id ` set (db_builds (set_build now b s db)) = b_id ` set (db_builds db)"
  by (simp_all add: set_build_def image_upd_where)

lemma evolves_set_build: "evolves db (set_build now b s db)"
  unfolding evolves_def
proof (intro conjI ballI)
  fix r assume r: "r \<in> set (db_builds db)"
  show "\<exists>r'\<in>set (db_builds (set_build now b s db)). b_id r' = b_id r \<and> b_total r' = b_total r \<and>
      b_toolchain r' = b_toolchain r \<and> (b_state r \<noteq> BRunning \<longrightarrow> r' = r)"
    using upd_where_memI[OF r, of "\<lambda>r. b_id r = b \<and> b_state r = BRunning"
        "\<lambda>r. r\<lparr>b_state := s, b_finished_at := Some now\<rparr>"]
    by (intro bexI[of _ "if b_id r = b \<and> b_state r = BRunning then r\<lparr>b_state := s, b_finished_at := Some now\<rparr> else r"])
      (simp_all add: set_build_def)
qed (auto intro: rev_bexI)

lemma consistent_set_build:
  assumes con: "consistent sha m C E X W db"
    and new: "\<And>r. r \<in> set (db_builds db) \<Longrightarrow> b_id r = b \<Longrightarrow> b_state r = BRunning \<Longrightarrow>
      build_ok E (X - {b}) db (r\<lparr>b_state := s, b_finished_at := Some now\<rparr>)"
  shows "consistent sha m C E (X - {b}) W (set_build now b s db)"
proof (rule consistentI)
  note D = consistentD[OF con]
  have "map b_id (db_builds (set_build now b s db)) = map b_id (db_builds db)"
    unfolding set_build_def by (simp add: map_upd_where_same)
  moreover have "\<forall>r\<in>set (db_builds (set_build now b s db)). b_id r < db_next_build db"
    using D(1) by (auto simp: keys_ok_def set_build_def set_upd_where)
  ultimately show "keys_ok (set_build now b s db)" using D(1) by (simp add: keys_ok_def)
  show "deps_ok (set_build now b s db)" "edges_ok E (set_build now b s db)" "cache_ok C (set_build now b s db)"
    using D(2-4) same_tasks_deps(6,7)[of "set_build now b s db" db] by (simp_all add: cache_ok_def)
  show "task_ok sha m C E W (set_build now b s db) t" if "t \<in> set (db_tasks (set_build now b s db))" for t
    using that by (intro task_ok_same[OF _ _ _ D(5)]) (simp_all add: cached_as_def)
  show "build_ok E (X - {b}) (set_build now b s db) r" if "r \<in> set (db_builds (set_build now b s db))" for r
  proof -
    from that consider q where "q \<in> set (db_builds db)" "b_id q = b" "b_state q = BRunning"
        "r = q\<lparr>b_state := s, b_finished_at := Some now\<rparr>"
      | "r \<in> set (db_builds db)" "b_id r \<noteq> b \<or> b_state r \<noteq> BRunning"
      by (auto simp: set_build_def set_upd_where)
    then have "build_ok E (X - {b}) db r"
    proof cases
      case 1
      with new show ?thesis by simp
    next
      case 2
      with D(6)[OF 2(1)] show ?thesis by (auto simp: build_ok_def split: bstate.splits)
    qed
    then show ?thesis using build_ok_same[of "set_build now b s db" db] by simp
  qed
qed

lemma maybe_finish_ok:
  assumes con: "consistent sha m C E X W db"
  shows "consistent sha m C E (X - {b}) W (maybe_finish now b db)" "evolves db (maybe_finish now b db)"
    "db_tasks (maybe_finish now b db) = db_tasks db" "db_deps (maybe_finish now b db) = db_deps db"
    "db_cache (maybe_finish now b db) = db_cache db"
proof -
  note D = consistentD[OF con]
  let ?f = "count_tasks (\<lambda>s. s = TFailed) b db" and ?l = "count_tasks (\<lambda>s. \<not> fin s) b db"
  consider (failed) "?f > 0" | (all_done) "?f = 0" "?l = 0" | (neither) "?f = 0" "?l > 0" by linarith
  then show "consistent sha m C E (X - {b}) W (maybe_finish now b db)"
  proof cases
    case failed
    then have "\<exists>t\<in>set (db_tasks db). t_build t = b \<and> t_state t = TFailed"
      using count_tasks_0[of "\<lambda>s. s = TFailed" b db] by auto
    then have "consistent sha m C E (X - {b}) W (set_build now b BFailed db)"
      by (intro consistent_set_build[OF con]) (simp add: build_ok_def)
    with failed show ?thesis by (simp add: maybe_finish_def)
  next
    case all_done
    then have "consistent sha m C E (X - {b}) W (set_build now b BDone db)"
      by (intro consistent_set_build[OF con]) (simp add: build_ok_def count_tasks_0)
    with all_done show ?thesis by (simp add: maybe_finish_def)
  next
    case neither
    then have "maybe_finish now b db = db" by (simp add: maybe_finish_def)
    moreover have "build_ok E (X - {b}) db r" if "r \<in> set (db_builds db)" for r
      using D(6)[OF that] neither count_tasks_0[of "\<lambda>s. s = TFailed" b db] count_tasks_0[of "\<lambda>s. \<not> fin s" b db]
      by (auto simp: build_ok_def split: bstate.splits)
    ultimately show ?thesis using D by (intro consistentI) simp_all
  qed
  show "evolves db (maybe_finish now b db)"
    by (simp add: maybe_finish_def Let_def evolves_refl evolves_set_build)
  show "db_tasks (maybe_finish now b db) = db_tasks db" "db_deps (maybe_finish now b db) = db_deps db"
    "db_cache (maybe_finish now b db) = db_cache db"
    by (simp_all add: maybe_finish_def Let_def)
qed

section \<open>One dependency row is counted down\<close>

lemma distinct_dep_rows: "deps_ok db \<Longrightarrow> distinct (db_deps db)"
  by (simp add: deps_ok_def distinct_map)

lemma length_without:
  assumes "distinct xs" "x \<in> set xs"
  shows "length (filter (\<lambda>y. y \<noteq> x) xs) = length xs - 1"
proof -
  have "filter (\<lambda>y. y = x) xs = [x]" by (rule distinct_single) (use assms in auto)
  then show ?thesis using sum_length_filter_compl[of "\<lambda>y. y = x" xs] by simp
qed

lemma uncounted_without:
  assumes "deps_ok db" "edges_ok E db" "d \<in> E"
  shows "length (uncounted (E - {d}) db (d_build d) (d_task d)) = length (uncounted E db (d_build d) (d_task d)) - 1"
    and "0 < length (uncounted E db (d_build d) (d_task d))"
proof -
  let ?u = "uncounted E db (d_build d) (d_task d)"
  have d: "d \<in> set (db_deps db)" "fin_at db (d_build d) (d_dep d)" using assms(2,3) by (auto simp: edges_ok_def)
  have "uncounted (E - {d}) db (d_build d) (d_task d) = filter (\<lambda>x. x \<noteq> d) ?u"
    unfolding uncounted_def filter_filter using d(2) assms(3) by (intro filter_cong) auto
  moreover have "d \<in> set ?u" using d assms(3) by (simp add: uncounted_def dep_edges_def)
  moreover have "distinct ?u" using distinct_dep_rows[OF assms(1)] by (simp add: uncounted_def dep_edges_def)
  ultimately show "length (uncounted (E - {d}) db (d_build d) (d_task d)) = length ?u - 1" "0 < length ?u"
    using length_without by (auto simp: length_pos_if_in_set)
qed

lemma consistent_count_down:
  assumes con: "consistent sha m C E X W db" and d: "d \<in> E"
    and t: "t \<in> set (db_tasks db)" "t_build t = d_build d" "t_id t = d_task d"
    and t': "t' = t\<lparr>t_pending := t_pending t - 1\<rparr>"
    and W': "W' = (if t_pending t = 1 then insert (t_uid t) W else W)"
  shows "0 < t_pending t" "t_state t = TWaiting" "t_uid t \<notin> W"
    and "consistent sha m C (E - {d}) X W' (set_row t' db)"
proof -
  note D = consistentD[OF con]
  note k = D(1)
  have c: "same_cols t t'" by (simp add: t' same_cols_def)
  note tok = D(5)[OF t(1)]
  have len: "length (uncounted (E - {d}) db (t_build t) (t_id t)) = length (uncounted E db (t_build t) (t_id t)) - 1"
    and pos: "0 < length (uncounted E db (t_build t) (t_id t))"
    using uncounted_without[OF D(2,3) d] t(2,3) by simp_all
  show p: "0 < t_pending t" using tok pos by (simp add: task_ok_def)
  with tok show w: "t_state t = TWaiting" and nW: "t_uid t \<notin> W" by (auto simp: task_ok_def)
  have nt: "\<not> fin (t_state t)" "\<not> fin (t_state t')" using w by (simp_all add: t')
  have fa: "fin_at (set_row t' db) b i = fin_at db b i" for b i
    using fin_at_set_row[OF k t(1) c] fin_at_row[OF k t(1)] nt by auto
  have un: "uncounted F (set_row t' db) b i = uncounted F db b i" for F b i
    by (simp add: uncounted_def fa)
  show "consistent sha m C (E - {d}) X W' (set_row t' db)"
  proof (rule consistentI)
    show "keys_ok (set_row t' db)" by (rule keys_ok_set_row[OF k t(1) c])
    show "deps_ok (set_row t' db)" by (rule deps_ok_set_row[OF k t(1) c D(2)])
    show "edges_ok (E - {d}) (set_row t' db)" using D(3) by (simp add: edges_ok_def fa)
    show "cache_ok C (set_row t' db)" using D(4) by (simp add: cache_ok_def)
    show "task_ok sha m C (E - {d}) W' (set_row t' db) s" if "s \<in> set (db_tasks (set_row t' db))" for s
    proof (cases "s = t'")
      case True
      have "t_pending t' = int (length (uncounted (E - {d}) db (t_build t) (t_id t)))"
        using tok pos unfolding task_ok_def t' len by (simp add: of_nat_diff Suc_leI)
      moreover have "t_attempts t < max 1 m" "t_attempts t \<le> max 1 m" using tok w by (simp_all add: task_ok_def)
      ultimately show ?thesis using w nW p unfolding True task_ok_def un by (auto simp: t' W')
    next
      case False
      then have s: "s \<in> set (db_tasks db)" "s \<noteq> t" using that set_row_mem[OF k t(1) c] by auto
      have su: "t_uid s \<noteq> t_uid t" "t_build s = t_build t \<Longrightarrow> t_id s \<noteq> t_id t"
        using same_key_same_row[OF k s(1) t(1)] s(2) by blast+
      have "uncounted (E - {d}) db (t_build s) (t_id s) = uncounted E db (t_build s) (t_id s)"
        unfolding uncounted_def using su(2) t(2,3) by (intro filter_cong) (auto simp: dep_edges_def)
      with su(1) show ?thesis
        by (intro task_ok_other[OF k t(1) c nt(1) D(5)[OF s(1)]]) (simp_all add: un W')
    qed
    show "build_ok (E - {d}) X (set_row t' db) r" if "r \<in> set (db_builds (set_row t' db))" for r
    proof -
      have r: "build_ok E X db r" using that D(6) by simp
      have tb: "t_build t' = t_build t" "t_state t' = TWaiting" using w by (simp_all add: t')
      have mem: "s \<in> set (db_tasks (set_row t' db)) \<longleftrightarrow> s = t' \<or> s \<in> set (db_tasks db) \<and> s \<noteq> t" for s
        by (rule set_row_mem[OF k t(1) c])
      show ?thesis
      proof (cases "b_state r")
        case BDone
        with r nt t(1) show ?thesis by (auto simp: build_ok_def mem tb)
      next
        case BFailed
        with r obtain s where "s \<in> set (db_tasks db)" "t_build s = b_id r" "t_state s = TFailed"
          by (auto simp: build_ok_def)
        moreover from this w have "s \<noteq> t" by auto
        ultimately show ?thesis using BFailed mem by (auto simp: build_ok_def)
      next
        case BRunning
        show ?thesis
        proof (cases "b_id r \<in> X")
          case False
          with r BRunning have nofail: "\<forall>s\<in>set (db_tasks db). t_build s = b_id r \<longrightarrow> t_state s \<noteq> TFailed"
            and open': "(\<exists>s\<in>set (db_tasks db). t_build s = b_id r \<and> \<not> fin (t_state s)) \<or> (\<exists>d\<in>E. d_build d = b_id r)"
            by (auto simp: build_ok_def)
          have "\<forall>s\<in>set (db_tasks (set_row t' db)). t_build s = b_id r \<longrightarrow> t_state s \<noteq> TFailed"
            using nofail by (auto simp: mem tb)
          moreover have "(\<exists>s\<in>set (db_tasks (set_row t' db)). t_build s = b_id r \<and> \<not> fin (t_state s)) \<or>
              (\<exists>e\<in>E - {d}. d_build e = b_id r)"
          proof (cases "b_id r = t_build t")
            case True
            have "t' \<in> set (db_tasks (set_row t' db))" by (simp add: mem)
            with True nt(2) tb show ?thesis by (intro disjI1 bexI[of _ t']) simp_all
          next
            case False
            with open' t(2) show ?thesis by (metis DiffI mem singletonD)
          qed
          ultimately show ?thesis using BRunning by (simp add: build_ok_def)
        qed (simp add: build_ok_def BRunning)
      qed
    qed
  qed
qed

section \<open>The cascade\<close>

lemma length_filter_map_le:
  assumes "\<And>x. x \<in> set xs \<Longrightarrow> p (g x) \<le> (p x :: int)"
  shows "length (filter (\<lambda>x. 0 < p x) (map g xs)) \<le> length (filter (\<lambda>x. 0 < p x) xs)"
  using assms by (induction xs) force+

lemma length_filter_map_less:
  assumes "\<And>x. x \<in> set xs \<Longrightarrow> p (g x) \<le> (p x :: int)" "y \<in> set xs" "p (g y) \<le> 0" "0 < p y"
  shows "length (filter (\<lambda>x. 0 < p x) (map g xs)) < length (filter (\<lambda>x. 0 < p x) xs)"
  using assms
proof (induction xs)
  case (Cons x xs)
  have "length (filter (\<lambda>x. 0 < p x) (map g xs)) \<le> length (filter (\<lambda>x. 0 < p x) xs)"
    using Cons.prems(1) by (intro length_filter_map_le) simp
  moreover have "0 < p (g x) \<Longrightarrow> 0 < p x" using Cons.prems(1)[of x] by simp
  moreover have "y \<noteq> x \<Longrightarrow> length (filter (\<lambda>x. 0 < p x) (map g xs)) < length (filter (\<lambda>x. 0 < p x) xs)"
    using Cons.prems by (intro Cons.IH) simp_all
  ultimately show ?case using Cons.prems(3,4) by (cases "y = x") (auto simp del: filter_map)
qed simp

lemma open_tasks_set_row:
  assumes "keys_ok db" "t \<in> set (db_tasks db)" "t_uid t' = t_uid t" "t_pending t' \<le> t_pending t"
  shows "open_tasks (set_row t' db) \<le> open_tasks db"
    and "t_pending t' \<le> 0 \<Longrightarrow> 0 < t_pending t \<Longrightarrow> open_tasks (set_row t' db) < open_tasks db"
proof -
  have le: "t_pending (if t_uid x = t_uid t' then t' else x) \<le> t_pending x" if "x \<in> set (db_tasks db)" for x
    using same_key_same_row(2)[OF assms(1) that assms(2)] assms(3,4) by auto
  show "open_tasks (set_row t' db) \<le> open_tasks db"
    using length_filter_map_le[where p = t_pending and xs = "db_tasks db", OF le] by (simp add: open_tasks_def set_row_def)
  show "open_tasks (set_row t' db) < open_tasks db" if "t_pending t' \<le> 0" "0 < t_pending t"
    using length_filter_map_less[where p = t_pending and xs = "db_tasks db", OF le assms(2)] that assms(3) by (simp add: open_tasks_def set_row_def)
qed

lemma count_down_row:
  assumes "keys_ok db" "t \<in> set (db_tasks db)"
  shows "count_down (t_uid t) db =
    (set_row (t\<lparr>t_pending := t_pending t - 1\<rparr>) db, [(t_pending t - 1, t_id t)])"
proof -
  let ?t = "t\<lparr>t_pending := t_pending t - 1\<rparr>" and ?f = "\<lambda>t. t\<lparr>t_pending := t_pending t - 1\<rparr>"
  have c: "same_cols t ?t" by (simp add: same_cols_def)
  have u: "upd_tasks (\<lambda>s. t_uid s = t_uid t) ?f db = set_row ?t db"
    using upd_tasks_uid[OF assms, of ?f] by simp
  have "distinct (db_tasks (set_row ?t db))" using keys_ok_set_row[OF assms c] by (simp add: keys_ok_def distinct_map)
  moreover have "{s \<in> set (db_tasks (set_row ?t db)). t_uid s = t_uid t} = {?t}"
    using same_key_same_row(2)[OF assms(1) _ assms(2)] by (auto simp: set_row_mem[OF assms c])
  ultimately have "filter (\<lambda>s. t_uid s = t_uid t) (db_tasks (set_row ?t db)) = [?t]"
    by (intro distinct_single) auto
  then show ?thesis by (simp add: count_down_def Let_def u)
qed

text \<open>What a recursive call promises, for tables with fewer than \<open>n\<close> open tasks.\<close>

definition finishes_with :: "sha_fn \<Rightarrow> nat \<Rightarrow> string set \<Rightarrow> nat \<Rightarrow> (nat \<Rightarrow> nat \<Rightarrow> db \<Rightarrow> db option) \<Rightarrow> bool" where
  "finishes_with sha m C n finish \<longleftrightarrow>
     (\<forall>b i db E X. consistent sha m C E X {} db \<longrightarrow> out_edges b i db \<subseteq> E \<longrightarrow> open_tasks db < n \<longrightarrow>
       (\<exists>db'. finish b i db = Some db' \<and>
         consistent sha m C (E - out_edges b i db) (if out_edges b i db = {} then X - {b} else X) {} db' \<and>
         evolves db db' \<and> db_deps db' = db_deps db \<and> open_tasks db' \<le> open_tasks db))"

lemma finishes_withD:
  assumes "finishes_with sha m C n finish" "consistent sha m C E X {} db" "out_edges b i db \<subseteq> E" "open_tasks db < n"
  obtains db' where "finish b i db = Some db'"
    "consistent sha m C (E - out_edges b i db) (if out_edges b i db = {} then X - {b} else X) {} db'"
    "evolves db db'" "db_deps db' = db_deps db" "open_tasks db' \<le> open_tasks db"
  using assms unfolding finishes_with_def by blast

lemma make_ready_ok:
  assumes fin: "finishes_with sha m C n finish" and con: "consistent sha m C E X {t_uid t} db"
    and t: "t \<in> set (db_tasks db)" "t_kind t \<noteq> 0" and n: "open_tasks db < n"
  obtains db' where "make_ready finish sha (t_build t) (t_id t) db = Some db'"
    "consistent sha m C E X {} db'" "evolves db db'" "db_deps db' = db_deps db" "open_tasks db' \<le> open_tasks db"
proof -
  let ?b = "t_build t" and ?i = "t_id t"
  define deps where "deps = dep_rows ?b ?i db"
  define names where "names = dep_names deps"
  define digests where "digests = dep_digests deps"
  define key where "key = action_key sha (t_kind t) (t_toolchain t) (t_args t) names digests"
  define db1 where "db1 = cache_hit key db"
  have row: "task_rows ?b ?i db = [t]" by (rule task_rows_single[OF consistentD(1)[OF con] t(1)])
  have mr: "make_ready finish sha ?b ?i db =
      (case cache_rows key db of
         c # _ \<Rightarrow> finish ?b ?i (mark_cached ?b ?i key (c_output c) db1)
       | [] \<Rightarrow> Some (mark_ready ?b ?i key (join_lines digests) (join_lines names) db1))"
    unfolding make_ready_def row Let_def list.case deps_def[symmetric] names_def[symmetric]
      digests_def[symmetric] key_def[symmetric] db1_def[symmetric] ..
  have tok: "task_ok sha m C E {t_uid t} db t" by (rule consistentD(5)[OF con t(1)])
  then have w: "t_state t = TWaiting" and p: "t_pending t = 0" unfolding task_ok_def by blast+
  then have nterm: "\<not> terminal (t_state t)" by (simp add: terminal_def)
  have con1: "consistent sha m C E X {t_uid t} db1" unfolding db1_def by (rule consistent_cache_hit[OF con])
  note D = consistentD[OF con1]
  have t1: "t \<in> set (db_tasks db1)" using t(1) by (simp add: db1_def)
  have ev1: "evolves db db1" unfolding db1_def by (rule evolves_cache_hit)
  have deps1: "dep_rows ?b ?i db1 = deps" unfolding db1_def deps_def
    using same_tasks_deps(4)[of "cache_hit key db" db] by simp
  have op1: "open_tasks db1 = open_tasks db" by (simp add: open_tasks_def db1_def)
  show thesis
  proof (cases "cache_rows key db")
    case (Cons c cs)
    let ?f = "\<lambda>t. t\<lparr>t_state := TCached, t_key := Some key, t_output := Some (c_output c)\<rparr>"
    define t' where "t' = ?f t"
    have c: "same_cols t t'" by (simp add: t'_def same_cols_def)
    have "c \<in> set (filter (\<lambda>c. c_key c = key) (db_cache db))" using Cons by (simp add: cache_rows_def)
    then have cin: "c \<in> set (db_cache db)" "c_key c = key" by simp_all
    have mk: "mark_cached ?b ?i key (c_output c) db1 = set_row t' db1"
      using upd_tasks_at[OF D(1) t1, of ?f] by (simp add: mark_cached_def t'_def)
    define X' where "X' = (if out_edges ?b ?i db1 = {} then insert ?b X else X)"
    have "consistent sha m C (E \<union> out_edges ?b ?i db1) X' ({t_uid t} - {t_uid t}) (set_row t' db1)"
    proof (rule consistent_finishes[OF con1 t1 c nterm])
      show "fin (t_state t')" "t_pending t' = 0" "t_attempts t' = t_attempts t" using p by (simp_all add: t'_def)
      show "\<exists>h\<in>C. t_output t' = Some h"
        using consistentD(4)[OF con] cin(1) by (auto simp: cache_ok_def t'_def)
      show "key_ok sha db1 t'" using t(2) deps1 by (simp add: key_ok_def t'_def key_def names_def digests_def)
      have "\<exists>x\<in>set (db_cache db1). c_key x = key \<and> c_output x = c_output c"
        using ev1 cin unfolding evolves_def by metis
      then show "cached_as db1 t'" by (auto simp: cached_as_def t'_def)
    qed (auto simp: X'_def p)
    then have con2: "consistent sha m C (E \<union> out_edges ?b ?i db1) X' {} (set_row t' db1)" by simp
    have op2: "open_tasks (set_row t' db1) \<le> open_tasks db"
      using open_tasks_set_row(1)[OF D(1) t1, of t'] op1 by (simp add: t'_def)
    obtain db' where r: "finish ?b ?i (set_row t' db1) = Some db'"
      "consistent sha m C (E \<union> out_edges ?b ?i db1 - out_edges ?b ?i db1)
         (if out_edges ?b ?i db1 = {} then X' - {?b} else X') {} db'"
      "evolves (set_row t' db1) db'" "db_deps db' = db_deps (set_row t' db1)" "open_tasks db' \<le> open_tasks (set_row t' db1)"
      using finishes_withD[OF fin con2, of ?b ?i] op2 n by auto
    have "E \<inter> out_edges ?b ?i db1 = {}"
      using D(3) fin_at_row[OF D(1) t1] w by (auto simp: edges_ok_def out_edges_def)
    then have "E \<union> out_edges ?b ?i db1 - out_edges ?b ?i db1 = E" by auto
    moreover have "(if out_edges ?b ?i db1 = {} then X' - {?b} else X') \<subseteq> X" by (auto simp: X'_def)
    ultimately have "consistent sha m C E X {} db'" using r(2) consistent_mono by metis
    moreover have "evolves db db'"
      using evolves_trans[OF evolves_trans[OF ev1 evolves_set_row[OF D(1) t1 c nterm]] r(3)] by (simp add: t'_def)
    ultimately show thesis using that[of db'] r(1,4,5) op2 mr Cons mk by (simp add: db1_def)
  next
    case Nil
    let ?f = "\<lambda>t. t\<lparr>t_state := TReady, t_key := Some key, t_inputs := Some (join_lines digests),
      t_input_names := Some (join_lines names)\<rparr>"
    define t' where "t' = ?f t"
    have c: "same_cols t t'" by (simp add: t'_def same_cols_def)
    have mk: "mark_ready ?b ?i key (join_lines digests) (join_lines names) db1 = set_row t' db1"
      using upd_tasks_at[OF D(1) t1, of ?f] by (simp add: mark_ready_def t'_def)
    have "key_ok sha db1 t'" "work_ok C db1 t'"
      using t(2) deps1 by (simp_all add: key_ok_def work_ok_def t'_def key_def names_def digests_def text_of_def)
    moreover have "t_pending t = int (length (uncounted E db1 ?b ?i))" "t_attempts t < max 1 m"
      using D(5)[OF t1] w by (simp_all add: task_ok_def)
    ultimately have "task_ok sha m C E {} db1 t'"
      using p unfolding task_ok_def by (simp add: t'_def)
    then have "consistent sha m C E X {} (set_row t' db1)"
      by (intro consistent_unfinished[OF con1 t1 c nterm]) (simp_all add: t'_def)
    moreover have "evolves db (set_row t' db1)"
      using evolves_trans[OF ev1 evolves_set_row[OF D(1) t1 c nterm]] by (simp add: t'_def)
    moreover have "open_tasks (set_row t' db1) \<le> open_tasks db"
      using open_tasks_set_row(1)[OF D(1) t1, of t'] op1 by (simp add: t'_def)
    ultimately show thesis using that[of "set_row t' db1"] mr Nil mk by (simp add: db1_def)
  qed
qed

definition edge_of :: "db \<Rightarrow> nat \<Rightarrow> nat \<Rightarrow> dep_row \<Rightarrow> bool" where
  "edge_of db b u d \<longleftrightarrow>
     d_build d = b \<and> (\<exists>t\<in>set (db_tasks db). t_uid t = u \<and> t_build t = b \<and> t_id t = d_task d)"

lemma edge_of_evolves: "evolves db db' \<Longrightarrow> edge_of db b u d \<Longrightarrow> edge_of db' b u d"
  unfolding edge_of_def evolves_def same_cols_def by metis

lemma count_downs_ok:
  assumes fin: "finishes_with sha m C n finish"
    and "consistent sha m C E X {} db" "list_all2 (edge_of db b) us ds" "distinct ds" "set ds \<subseteq> E" "open_tasks db \<le> n"
  obtains db' where "count_downs finish sha b us db = Some db'" "consistent sha m C (E - set ds) X {} db'"
    "evolves db db'" "db_deps db' = db_deps db" "open_tasks db' \<le> open_tasks db"
proof -
  have "\<exists>db'. count_downs finish sha b us db = Some db' \<and> consistent sha m C (E - set ds) X {} db' \<and>
      evolves db db' \<and> db_deps db' = db_deps db \<and> open_tasks db' \<le> open_tasks db"
    using assms(2-6)
  proof (induction us arbitrary: E db ds)
    case Nil
    then show ?case by (simp add: evolves_refl)
  next
    case (Cons u us)
    then obtain d ds' where ds: "ds = d # ds'" "edge_of db b u d" "list_all2 (edge_of db b) us ds'"
      by (auto simp: list_all2_Cons1)
    then obtain t where t: "t \<in> set (db_tasks db)" "t_uid t = u" "t_build t = d_build d" "t_id t = d_task d" "d_build d = b"
      by (auto simp: edge_of_def)
    note con = Cons.prems(1)
    have d: "d \<in> E" using Cons.prems(4) ds(1) by simp
    define t' where "t' = t\<lparr>t_pending := t_pending t - 1\<rparr>"
    have c: "same_cols t t'" by (simp add: t'_def same_cols_def)
    note k = consistentD(1)[OF con]
    note cd = consistent_count_down[OF con d t(1) t(3,4) t'_def refl]
    have row: "count_down u db = (set_row t' db, [(t_pending t - 1, t_id t)])"
      using count_down_row[OF k t(1)] t(2) by (simp add: t'_def)
    have nterm: "\<not> terminal (t_state t)" using cd(2) by (simp add: terminal_def)
    have ev: "evolves db (set_row t' db)" by (rule evolves_set_row[OF k t(1) c nterm]) (simp add: t'_def)
    have op: "open_tasks (set_row t' db) \<le> open_tasks db"
      using open_tasks_set_row(1)[OF k t(1), of t'] by (simp add: t'_def)
    have "\<exists>db2. (if t_pending t - 1 = 0 then make_ready finish sha b (t_id t) (set_row t' db) else Some (set_row t' db)) = Some db2 \<and>
        consistent sha m C (E - {d}) X {} db2 \<and> evolves db db2 \<and> db_deps db2 = db_deps db \<and> open_tasks db2 \<le> open_tasks db"
    proof (cases "t_pending t = 1")
      case False
      with cd(4) ev op show ?thesis by simp
    next
      case True
      with cd(4) t(2) have con1: "consistent sha m C (E - {d}) X {t_uid t'} (set_row t' db)" by (simp add: t'_def)
      have t'in: "t' \<in> set (db_tasks (set_row t' db))" by (simp add: set_row_mem[OF k t(1) c])
      have "\<exists>s\<in>set (task_rows (d_build d) (d_task d) db). t_kind s \<noteq> 0"
        using consistentD(2,3)[OF con] d unfolding deps_ok_def edges_ok_def by blast
      then have "t_kind t \<noteq> 0" using task_rows_single[OF k t(1)] t(3,4) by simp
      then have kind: "t_kind t' \<noteq> 0" by (simp add: t'_def)
      have "open_tasks (set_row t' db) < n"
        using open_tasks_set_row(2)[OF k t(1), of t'] True Cons.prems(5) by (simp add: t'_def)
      then obtain db2 where "make_ready finish sha (t_build t') (t_id t') (set_row t' db) = Some db2"
        "consistent sha m C (E - {d}) X {} db2" "evolves (set_row t' db) db2" "db_deps db2 = db_deps (set_row t' db)"
        "open_tasks db2 \<le> open_tasks (set_row t' db)"
        using make_ready_ok[OF fin con1 t'in kind] by blast
      with True t(3,5) op evolves_trans[OF ev] show ?thesis by (simp add: t'_def)
    qed
    then obtain db2 where db2: "(if t_pending t - 1 = 0 then make_ready finish sha b (t_id t) (set_row t' db) else Some (set_row t' db)) = Some db2"
      "consistent sha m C (E - {d}) X {} db2" "evolves db db2" "db_deps db2 = db_deps db" "open_tasks db2 \<le> open_tasks db"
      by blast
    have "list_all2 (edge_of db2 b) us ds'"
      by (rule list_all2_mono[OF ds(3)]) (rule edge_of_evolves[OF db2(3)])
    moreover have "distinct ds'" "set ds' \<subseteq> E - {d}" using Cons.prems(3,4) ds(1) by auto
    ultimately obtain db' where "count_downs finish sha b us db2 = Some db'" "consistent sha m C (E - {d} - set ds') X {} db'"
      "evolves db2 db'" "db_deps db' = db_deps db2" "open_tasks db' \<le> open_tasks db2"
      using Cons.IH[OF db2(2)] db2(5) Cons.prems(5) by auto
    moreover have "E - {d} - set ds' = E - set ds" by (auto simp: ds(1))
    ultimately show ?case using db2 evolves_trans[OF db2(3)] by (auto simp: row)
  qed
  with that show thesis by blast
qed

lemma sort_key_map: "sort_key f (map g xs) = map g (sort_key (\<lambda>x. f (g x)) xs)"
proof -
  have "insort_key f (g x) (map g ys) = map g (insort_key (\<lambda>x. f (g x)) x ys)" for x ys
    by (induction ys) simp_all
  then show ?thesis by (induction xs) (simp_all add: sort_key_def)
qed

lemma dependents_edges:
  assumes "keys_ok db" "deps_ok db"
  obtains ds where "list_all2 (edge_of db b) (dependents b i db) ds" "distinct ds" "set ds = out_edges b i db"
proof -
  let ?es = "filter (\<lambda>d. d_build d = b \<and> d_dep d = i) (db_deps db)"
  define row where "row d = hd (task_rows (d_build d) (d_task d) db)" for d :: dep_row
  have row: "task_rows (d_build d) (d_task d) db = [row d] \<and> row d \<in> set (db_tasks db) \<and>
      t_build (row d) = d_build d \<and> t_id (row d) = d_task d" if "d \<in> set (db_deps db)" for d
  proof -
    have "\<exists>t\<in>set (task_rows (d_build d) (d_task d) db). t_kind t \<noteq> 0"
      using assms(2) \<open>d \<in> set (db_deps db)\<close> unfolding deps_ok_def by blast
    then obtain t where t: "t \<in> set (db_tasks db)" "t_build t = d_build d" "t_id t = d_task d"
      by (auto simp: task_rows_mem)
    with task_rows_single[OF assms(1) t(1)] show ?thesis by (simp add: row_def)
  qed
  have "concat (map (\<lambda>d. task_rows (d_build d) (d_task d) db) es) = map row es" if "set es \<subseteq> set (db_deps db)" for es
    using that row by (induction es) simp_all
  then have "concat (map (\<lambda>d. task_rows (d_build d) (d_task d) db) ?es) = map row ?es" by auto
  then have dep: "dependents b i db = map (\<lambda>d. t_uid (row d)) (sort_key (\<lambda>d. t_id (row d)) ?es)"
    by (simp add: dependents_def sort_key_map)
  show thesis
  proof (rule that)
    show "list_all2 (edge_of db b) (dependents b i db) (sort_key (\<lambda>d. t_id (row d)) ?es)"
      unfolding dep using row by (auto simp: list_all2_map1 list_all2_same edge_of_def)
    show "distinct (sort_key (\<lambda>d. t_id (row d)) ?es)" using distinct_dep_rows[OF assms(2)] by simp
    show "set (sort_key (\<lambda>d. t_id (row d)) ?es) = out_edges b i db" by (auto simp: out_edges_def)
  qed
qed

lemma finished_ok: "finishes_with sha m C n (finished n sha now)"
proof (induction n)
  case 0
  show ?case by (simp add: finishes_with_def)
next
  case (Suc n)
  show ?case
    unfolding finishes_with_def
  proof (intro allI impI)
    fix b i db E X
    assume con: "consistent sha m C E X {} db" and sub: "out_edges b i db \<subseteq> E" and n: "open_tasks db < Suc n"
    obtain ds where ds: "list_all2 (edge_of db b) (dependents b i db) ds" "distinct ds" "set ds = out_edges b i db"
      using dependents_edges[OF consistentD(1,2)[OF con]] by blast
    obtain db1 where db1: "count_downs (finished n sha now) sha b (dependents b i db) db = Some db1"
      "consistent sha m C (E - set ds) X {} db1" "evolves db db1" "db_deps db1 = db_deps db" "open_tasks db1 \<le> open_tasks db"
      using count_downs_ok[OF Suc con ds(1,2)] sub ds(3) n by auto
    have empty: "dependents b i db = [] \<longleftrightarrow> out_edges b i db = {}"
      using ds(1) by (cases ds) (auto simp flip: ds(3))
    note mf = maybe_finish_ok[OF db1(2), where b = b and now = now]
    show "\<exists>db'. finished (Suc n) sha now b i db = Some db' \<and>
      consistent sha m C (E - out_edges b i db) (if out_edges b i db = {} then X - {b} else X) {} db' \<and>
      evolves db db' \<and> db_deps db' = db_deps db \<and> open_tasks db' \<le> open_tasks db"
    proof (cases "out_edges b i db = {}")
      case True
      then show ?thesis using db1 mf ds(3) empty evolves_trans[OF db1(3) mf(2)]
        by (simp add: open_tasks_def)
    next
      case False
      then show ?thesis using db1 ds(3) empty by simp
    qed
  qed
qed

lemma finish_task_ok:
  assumes "consistent sha m C E X {} db" "out_edges b i db \<subseteq> E"
  obtains db' where "finish_task sha now b i db = Some db'"
    "consistent sha m C (E - out_edges b i db) (if out_edges b i db = {} then X - {b} else X) {} db'"
    "evolves db db'" "db_deps db' = db_deps db"
proof -
  have "open_tasks db < Suc (length (db_tasks db))" by (simp add: open_tasks_def less_Suc_eq_le)
  then show thesis
    using finishes_withD[OF finished_ok assms] that unfolding finish_task_def by metis
qed

end
