(* ===== verification/Dc_Db.thy ===== *)
theory Dc_Db
  imports Dc_Prelude
begin

text \<open>
  \<open>src/db.cpp\<close> and \<open>src/db.h\<close>: array literals, the retrying transaction wrapper and the
  connection pool. libpq and the server are not in the repository: what a statement answers, and
  whether the server can be reached, are arguments. The literals are proved reversible through the
  \<open>codec\<close> interface. The transaction keeps apart what the server rolls back (the database) and
  what the C++ lambda captured by reference (a reply under construction), which it does not. The
  pool is modelled with the reconnect in \<open>get\<close>, including the exception it can raise.
\<close>

section \<open>Array literals\<close>

definition pg_escape :: "string \<Rightarrow> string" where
  "pg_escape s = concat (map (\<lambda>c. if c = quote \<or> c = backslash then [backslash, c] else [c]) s)"

definition pg_item :: "bool \<Rightarrow> string \<Rightarrow> string" where
  "pg_item empty_is_null s =
     (if empty_is_null \<and> s = [] then ''NULL'' else quote # pg_escape s @ [quote])"

fun pg_items :: "bool \<Rightarrow> string list \<Rightarrow> string" where
  "pg_items e [] = []"
| "pg_items e [s] = pg_item e s"
| "pg_items e (s # ss) = pg_item e s @ '','' @ pg_items e ss"

definition pg_array :: "string list \<Rightarrow> bool \<Rightarrow> string" where
  "pg_array items empty_is_null = ''{'' @ pg_items empty_is_null items @ ''}''"

text \<open>
  The scanner of \<open>parse_pg_array\<close>, over the characters between the first and the last: the
  current item, whether inside quotes, whether an item has begun, and the items so far. A backslash
  only escapes when another character of the body follows it (\<open>i + 2 < lit.size()\<close>).
\<close>

fun pg_scan :: "string \<Rightarrow> string \<Rightarrow> bool \<Rightarrow> bool \<Rightarrow> string list \<Rightarrow> string list \<times> string \<times> bool" where
  "pg_scan [] cur quoted in_item out = (out, cur, in_item)"
| "pg_scan (c # cs) cur True in_item out =
     (if c = backslash \<and> cs \<noteq> [] then pg_scan (tl cs) (cur @ [hd cs]) True in_item out
      else if c = quote then pg_scan cs cur False in_item out
      else pg_scan cs (cur @ [c]) True in_item out)"
| "pg_scan (c # cs) cur False in_item out =
     (if c = quote then pg_scan cs cur True True out
      else if c = CHR '','' then pg_scan cs [] False False (out @ [cur])
      else pg_scan cs (cur @ [c]) False True out)"

definition parse_pg_array :: "string \<Rightarrow> string list" where
  "parse_pg_array lit =
     (if length lit < 2 then []
      else let (out, cur, in_item) = pg_scan (butlast (tl lit)) [] False False []
           in if in_item \<or> cur \<noteq> [] \<or> length lit > 2 then out @ [cur] else out)"

lemma pg_scan_escaped:
  "pg_scan (pg_escape s @ quote # rest) cur True it out = pg_scan rest (cur @ s) False it out"
  by (induction s arbitrary: cur) (auto simp: pg_escape_def)

lemma pg_scan_item:
  "pg_scan (pg_item False s @ rest) [] False it out = pg_scan rest s False True out"
  by (simp add: pg_item_def pg_scan_escaped)

lemma pg_scan_items:
  "ss \<noteq> [] \<Longrightarrow> pg_scan (pg_items False ss) [] False it out = (out @ butlast ss, last ss, True)"
proof (induction ss arbitrary: it out rule: induct_list012)
  case (2 s)
  show ?case using pg_scan_item[of s "[]"] by simp
next
  case (3 s v va)
  then show ?case using pg_scan_item[of s "'','' @ pg_items False (v # va)"] by simp
qed simp

lemma parse_pg_array_inverse: "parse_pg_array (pg_array items False) = items"
proof (cases "items = []")
  case True
  then show ?thesis by (simp add: parse_pg_array_def pg_array_def)
next
  case False
  then have "pg_scan (pg_items False items) [] False False [] = (butlast items, last items, True)"
    using pg_scan_items[of items False "[]"] by simp
  with False show ?thesis
    by (simp add: parse_pg_array_def pg_array_def butlast_append)
qed

interpretation array_literal: codec "\<lambda>items. pg_array items False" parse_pg_array "\<lambda>_. True"
  by unfold_locales (rule parse_pg_array_inverse)

section \<open>Transactions\<close>

text \<open>\<open>DbError\<close>: what \<open>what()\<close> answers, and the SQLSTATE (empty when the server sent none).\<close>

record db_error =
  de_message :: string
  de_state :: string

text \<open>
  One attempt of the body: it finishes with a new database and a result, or an exception leaves
  it, a \<open>DbError\<close> or another one. \<open>'r\<close> is the state the body reaches through
  captured references; the body may have changed it whichever way it ended.
\<close>

datatype ('s, 'a) body = Finished 's 'a | Throws_db db_error | Throws string

datatype 'a txn_result = Returned 'a | Raised_db db_error | Raised string

definition retryable :: "db_error \<Rightarrow> bool" where
  "retryable e \<longleftrightarrow> de_state e = ''40P01'' \<or> de_state e = ''40001''"

text \<open>
  What a COMMIT answers. After an error the caller does not know whether the server committed: when
  the connection is lost on the way back, it did (\<open>Commit_error True\<close>). A deadlock or a serialization
  failure is reported by the server, which has then rolled back (documented behaviour of PostgreSQL), so
  the flag says nothing for these.
\<close>

datatype commit_result = Committed | Commit_error bool db_error

text \<open>\<open>others k\<close> is what other sessions commit between the BEGIN of attempt \<open>k\<close> that failed and the next one.\<close>

function transaction ::
    "(nat \<Rightarrow> 's \<Rightarrow> 'r \<Rightarrow> 'r \<times> ('s, 'a) body) \<Rightarrow> (nat \<Rightarrow> commit_result) \<Rightarrow> (nat \<Rightarrow> 's \<Rightarrow> 's) \<Rightarrow> nat \<Rightarrow> 's \<Rightarrow> 'r
       \<Rightarrow> 's \<times> 'r \<times> 'a txn_result" where
  "transaction fn commit others attempt s r =
     (case fn attempt s r of
        (r', Finished s' a) \<Rightarrow>
          (case commit attempt of
             Committed \<Rightarrow> (s', r', Returned a)
           | Commit_error landed e \<Rightarrow>
               if \<not> retryable e \<or> attempt \<ge> 5 then (if landed \<and> \<not> retryable e then s' else s, r', Raised_db e)
               else transaction fn commit others (attempt + 1) (others attempt s) r')
      | (r', Throws_db e) \<Rightarrow>
          if \<not> retryable e \<or> attempt \<ge> 5 then (s, r', Raised_db e)
          else transaction fn commit others (attempt + 1) (others attempt s) r'
      | (r', Throws m) \<Rightarrow> (s, r', Raised m))"
  by pat_completeness auto
termination by (relation "measure (\<lambda>(fn, commit, others, attempt, s, r). 5 - attempt)") auto

declare transaction.simps [simp del]

text \<open>The database at the BEGIN of attempt \<open>k\<close>.\<close>

fun begins :: "(nat \<Rightarrow> 's \<Rightarrow> 's) \<Rightarrow> 's \<Rightarrow> nat \<Rightarrow> 's" where
  "begins others s 0 = s"
| "begins others s (Suc k) = others k (begins others s k)"

lemma begins_quiet [simp]: "begins (\<lambda>_ s. s) s k = s"
  by (induction k) simp_all

text \<open>
  The database at the end is what one attempt, no later than the sixth, computed from the database at its
  BEGIN, when the call returned; when an exception is reported it is the database at the last BEGIN, unless a
  COMMIT whose answer was lost took effect. A retryable error is reported only after the sixth attempt.
\<close>

definition txn_spec ::
    "(nat \<Rightarrow> 's \<Rightarrow> 'r \<Rightarrow> 'r \<times> ('s, 'a) body) \<Rightarrow> (nat \<Rightarrow> commit_result) \<Rightarrow> (nat \<Rightarrow> 's \<Rightarrow> 's) \<Rightarrow> 's \<Rightarrow> 's \<times> 'r \<times> 'a txn_result \<Rightarrow> nat \<Rightarrow> bool" where
  "txn_spec fn commit others s out j \<longleftrightarrow>
     (case out of (s', r', res) \<Rightarrow> \<exists>rj.
        (case res of
           Returned a \<Rightarrow> fn j (begins others s j) rj = (r', Finished s' a) \<and> commit j = Committed
         | Raised_db e \<Rightarrow> (retryable e \<longrightarrow> j = 5) \<and>
             (s' = begins others s j \<and> fn j (begins others s j) rj = (r', Throws_db e) \<or>
              (\<exists>s1 a landed. fn j (begins others s j) rj = (r', Finished s1 a) \<and> commit j = Commit_error landed e \<and>
                 s' = (if landed \<and> \<not> retryable e then s1 else begins others s j)))
         | Raised m \<Rightarrow> s' = begins others s j \<and> fn j (begins others s j) rj = (r', Throws m)))"

lemma txn_spec_commit_error:
  assumes "fn j (begins others s j) rj = (r', Finished s1 a)" "commit j = Commit_error landed e" "retryable e \<longrightarrow> j = 5"
    and "s' = (if landed \<and> \<not> retryable e then s1 else begins others s j)"
  shows "txn_spec fn commit others s (s', r', Raised_db e) j"
  unfolding txn_spec_def prod.case txn_result.case using assms by blast

lemma transaction_outcome:
  assumes "transaction fn commit others k (begins others s k) r = out" "k \<le> 5"
  shows "\<exists>j\<le>5. txn_spec fn commit others s out j"
  using assms
proof (induction "5 - k" arbitrary: k r)
  case less: 0
  then have k: "k = 5" by simp
  obtain r1 b where f: "fn k (begins others s k) r = (r1, b)" by fastforce
  have "txn_spec fn commit others s out 5"
  proof (cases b)
    case (Finished s1 a)
    show ?thesis
    proof (cases "commit 5")
      case Committed
      with less.prems(1) f Finished show ?thesis
        unfolding k by (auto simp: transaction.simps[of fn commit others 5] txn_spec_def)
    next
      case (Commit_error landed e)
      have "out = (if landed \<and> \<not> retryable e then s1 else begins others s 5, r1, Raised_db e)"
        using less.prems(1) f Finished Commit_error unfolding k by (simp add: transaction.simps[of fn commit others 5])
      then show ?thesis using txn_spec_commit_error[of fn 5 others s r _ _ _ commit, OF f[unfolded Finished k] Commit_error] by simp
    qed
  next
    case (Throws_db e)
    with less.prems(1) f show ?thesis
      unfolding k by (auto simp: transaction.simps[of fn commit others 5] txn_spec_def)
  next
    case (Throws m)
    with less.prems(1) f show ?thesis
      unfolding k by (auto simp: transaction.simps[of fn commit others 5] txn_spec_def)
  qed
  then show ?case by blast
next
  case (Suc n)
  then have k: "k < 5" by simp
  let ?s = "begins others s k"
  obtain r1 b where f: "fn k ?s r = (r1, b)" by fastforce
  have again: ?case if "transaction fn commit others (k + 1) (others k ?s) r1 = out"
    using Suc.hyps(1)[of "k + 1" r1] Suc.hyps(2) k that by simp
  have now: ?case if "txn_spec fn commit others s out k" using that k by (intro exI[of _ k]) simp
  show ?case
  proof (cases b)
    case (Finished s1 a)
    show ?thesis
    proof (cases "commit k")
      case Committed
      with Suc.prems(1) f Finished show ?thesis
        by (intro now) (auto simp: transaction.simps[of fn commit others k] txn_spec_def)
    next
      case (Commit_error landed e)
      show ?thesis
      proof (cases "retryable e")
        case True
        with Suc.prems(1) f Finished Commit_error k show ?thesis
          by (intro again) (simp add: transaction.simps[of fn commit others k])
      next
        case False
        with Suc.prems(1) f Finished Commit_error
        have "out = (if landed \<and> \<not> retryable e then s1 else ?s, r1, Raised_db e)"
          by (simp add: transaction.simps[of fn commit others k])
        then show ?thesis using txn_spec_commit_error[of fn k others s r _ _ _ commit, OF f[unfolded Finished] Commit_error] False by (intro now) simp
      qed
    qed
  next
    case (Throws_db e)
    show ?thesis
    proof (cases "retryable e")
      case True
      with Suc.prems(1) f Throws_db k show ?thesis
        by (intro again) (simp add: transaction.simps[of fn commit others k])
    next
      case False
      with Suc.prems(1) f Throws_db show ?thesis
        by (intro now) (auto simp: transaction.simps[of fn commit others k] txn_spec_def)
    qed
  next
    case (Throws m)
    with Suc.prems(1) f show ?thesis
      by (intro now) (auto simp: transaction.simps[of fn commit others k] txn_spec_def)
  qed
qed

text \<open>So a transaction during which others change the database is, for the database and the caller, its last
  attempt alone, after those changes.\<close>

lemma transaction_last_attempt:
  assumes "transaction fn commit others 0 s r = (s', r', res)"
  shows "\<exists>j\<le>5. \<exists>rj. transaction (\<lambda>_. fn j) (\<lambda>_. commit j) (\<lambda>_ s. s) 5 (begins others s j) rj = (s', r', res)"
proof -
  obtain j where j: "j \<le> 5" "txn_spec fn commit others s (s', r', res) j"
    using transaction_outcome[of fn commit others 0 s r] assms by auto
  note one = transaction.simps[of "\<lambda>_. fn j" _ _ 5]
  have "\<exists>rj. transaction (\<lambda>_. fn j) (\<lambda>_. commit j) (\<lambda>_ s. s) 5 (begins others s j) rj = (s', r', res)"
  proof (cases res)
    case (Returned a)
    with j(2) obtain rj where "fn j (begins others s j) rj = (r', Finished s' a)" "commit j = Committed"
      by (auto simp: txn_spec_def)
    with Returned show ?thesis by (intro exI[of _ rj]) (simp add: one)
  next
    case (Raised m)
    with j(2) obtain rj where "fn j (begins others s j) rj = (r', Throws m)" "s' = begins others s j"
      by (auto simp: txn_spec_def)
    with Raised show ?thesis by (intro exI[of _ rj]) (simp add: one)
  next
    case (Raised_db e)
    with j(2) consider
        rj where "fn j (begins others s j) rj = (r', Throws_db e)" "s' = begins others s j"
      | rj s1 a landed where "fn j (begins others s j) rj = (r', Finished s1 a)" "commit j = Commit_error landed e"
          "s' = (if landed \<and> \<not> retryable e then s1 else begins others s j)"
      unfolding txn_spec_def prod.case by auto
    then show ?thesis
    proof cases
      case (1 rj)
      with Raised_db show ?thesis by (intro exI[of _ rj]) (simp add: one)
    next
      case (2 rj)
      with Raised_db show ?thesis by (intro exI[of _ rj]) (simp add: one)
    qed
  qed
  with j(1) show ?thesis by blast
qed

section \<open>The connection pool\<close>

text \<open>
  A connection is its status: whether libpq considers it usable. \<open>idle\<close> is the vector of idle
  connections (the last is taken first), \<open>leased\<close> how many are out. \<open>get\<close> waits when none is
  idle; a broken connection is replaced by a new one, whose constructor throws when the server
  cannot be reached: the old connection was already taken from \<open>idle\<close> and is destroyed.
\<close>

record pool =
  idle :: "bool list"
  leased :: nat

datatype pool_get_result = Blocked | Get_throws pool | Got bool pool

definition pool_get :: "bool \<Rightarrow> pool \<Rightarrow> pool_get_result" where
  "pool_get server_up p =
     (if idle p = [] then Blocked
      else let c = last (idle p); p1 = p\<lparr>idle := butlast (idle p)\<rparr>
           in if \<not> c then if server_up then Got True (p1\<lparr>leased := leased p1 + 1\<rparr>) else Get_throws p1
              else Got c (p1\<lparr>leased := leased p1 + 1\<rparr>))"

definition give_back :: "bool \<Rightarrow> pool \<Rightarrow> pool" where
  "give_back c p = p\<lparr>idle := idle p @ [c], leased := leased p - 1\<rparr>"

definition pool_size :: "pool \<Rightarrow> nat" where
  "pool_size p = length (idle p) + leased p"

lemma pool_get_size:
  "case pool_get up p of
     Blocked \<Rightarrow> idle p = []
   | Got c p' \<Rightarrow> pool_size p' = pool_size p \<and> c
   | Get_throws p' \<Rightarrow> \<not> up \<and> pool_size p = pool_size p' + 1"
  by (cases "idle p" rule: rev_cases) (auto simp: pool_get_def pool_size_def Let_def)

lemma give_back_size: "0 < leased p \<Longrightarrow> pool_size (give_back c p) = pool_size p"
  by (simp add: give_back_def pool_size_def)

text \<open>Calls of \<open>get\<close>, one after the other, while the server is away.\<close>

fun gets_while_down :: "nat \<Rightarrow> pool \<Rightarrow> pool" where
  "gets_while_down 0 p = p"
| "gets_while_down (Suc n) p =
     (case pool_get False p of Blocked \<Rightarrow> p | Get_throws p' \<Rightarrow> gets_while_down n p' | Got c p' \<Rightarrow> gets_while_down n p')"

lemma gets_while_down_leak:
  "list_all Not (idle p) \<Longrightarrow> n \<le> length (idle p) \<Longrightarrow>
   idle (gets_while_down n p) = take (length (idle p) - n) (idle p) \<and> leased (gets_while_down n p) = leased p"
proof (induction n arbitrary: p)
  case (Suc n)
  then obtain xs x where x: "idle p = xs @ [x]" by (cases "idle p" rule: rev_cases) auto
  with Suc.prems have "pool_get False p = Get_throws (p\<lparr>idle := xs\<rparr>)" by (simp add: pool_get_def)
  with Suc.IH[of "p\<lparr>idle := xs\<rparr>"] Suc.prems x show ?case by simp
qed simp

end
