(* ===== verification/Dc_Rpc.thy ===== *)
theory Dc_Rpc
  imports Dc_Db
begin

text \<open>
  What the remote calls share: the status of a call, \<open>guarded\<close> (\<open>src/coordinator.cpp:92-99\<close>),
  which turns every exception of a handler into UNAVAILABLE, the transaction of a handler with the
  faults of the database as an argument, and the client side's \<open>with_retry\<close> (\<open>src/rpc.h:26-46\<close>).
\<close>

datatype rpc_code = Unavailable | Deadline_exceeded | Invalid_argument | Failed_precondition | Not_found | Other_code

datatype rpc_status = Status_ok | Status_error rpc_code string

definition guarded :: "string \<Rightarrow> rpc_status txn_result \<Rightarrow> rpc_status" where
  "guarded rpc res =
     (case res of
        Returned st \<Rightarrow> st
      | Raised_db e \<Rightarrow> Status_error Unavailable (rpc @ '': '' @ de_message e)
      | Raised e \<Rightarrow> Status_error Unavailable (rpc @ '': '' @ e))"

section \<open>Transactions with faults\<close>

text \<open>
  The faults a transaction meets: in attempt \<open>k\<close> a statement may raise an error (\<open>aborts\<close>), with
  the number of steps the body had made by then, and COMMIT may answer one (\<open>commits\<close>); \<open>refuses\<close> is the error the
  server answers to rows that break a primary key, \<open>partial\<close> what the body had done by then to the
  state it captured by reference. What others commit between two attempts are steps of their own that come
  before: only the last attempt of a transaction has an effect (\<open>transaction_last_attempt\<close>).
\<close>

record txn_env =
  aborts :: "nat \<Rightarrow> (nat \<times> db_error) option"
  commits :: "nat \<Rightarrow> commit_result"
  refuses :: db_error

definition calm :: txn_env where
  "calm = \<lparr>aborts = \<lambda>_. None, commits = \<lambda>_. Committed, refuses = \<lparr>de_message = ''insert_deps: ERROR:  duplicate key value'', de_state = ''23505''\<rparr>\<rparr>"

definition run_txn ::
    "txn_env \<Rightarrow> (nat \<Rightarrow> 's \<Rightarrow> 'r \<Rightarrow> 'r) \<Rightarrow> ('s \<Rightarrow> 'r \<Rightarrow> 'r \<times> ('s, 'a) body) \<Rightarrow> 's \<Rightarrow> 'r \<Rightarrow> 's \<times> 'r \<times> 'a txn_result" where
  "run_txn env partial fn s r =
     transaction (\<lambda>k s r. case aborts env k of Some (n, e) \<Rightarrow> (partial n s r, Throws_db e) | None \<Rightarrow> fn s r)
       (commits env) (\<lambda>_ s. s) 0 s r"

lemma run_txn_calm: "fn s r = (r', Finished s' a) \<Longrightarrow> run_txn calm partial fn s r = (s', r', Returned a)"
  by (simp add: run_txn_def calm_def transaction.simps)

text \<open>All or nothing: the body's effect on the database is there when it returned, and otherwise only when the
  answer of a COMMIT was lost.\<close>

lemma run_txn_cases:
  assumes "run_txn env partial fn s r = (s', r', res)"
  obtains (returned) a rj where "res = Returned a" "fn s rj = (r', Finished s' a)"
    | (raised) "s' = s" "\<And>a. res \<noteq> Returned a"
    | (landed) a rj e j where "res = Raised_db e" "fn s rj = (r', Finished s' a)" "commits env j = Commit_error True e"
proof -
  let ?fn = "\<lambda>k s r. case aborts env k of Some (n, e) \<Rightarrow> (partial n s r, Throws_db e) | None \<Rightarrow> fn s r"
  have body: "fn s rj = (r', Finished s1 a)" if "?fn j s rj = (r', Finished s1 a)" for j rj s1 a
    using that by (cases "aborts env j") auto
  have "transaction ?fn (commits env) (\<lambda>_ s. s) 0 (begins (\<lambda>_ s. s) s 0) r = (s', r', res)"
    using assms by (simp add: run_txn_def)
  from transaction_outcome[OF this] obtain j where j: "txn_spec ?fn (commits env) (\<lambda>_ s. s) s (s', r', res) j" by auto
  note j = j[unfolded txn_spec_def prod.case begins_quiet]
  show thesis
  proof (cases res)
    case (Returned a)
    with j obtain rj where "?fn j s rj = (r', Finished s' a)" by auto
    from returned[OF Returned body[OF this]] show thesis .
  next
    case (Raised_db e)
    with j consider "s' = s" | rj a where "?fn j s rj = (r', Finished s' a)" "commits env j = Commit_error True e"
      by (auto split: if_splits)
    then show thesis
    proof cases
      case 1
      with raised Raised_db show thesis by simp
    next
      case 2
      from landed[OF Raised_db body[OF 2(1)] 2(2)] show thesis .
    qed
  next
    case (Raised e)
    with j raised show thesis by auto
  qed
qed

section \<open>Calls with retries\<close>

definition transient :: "rpc_status \<Rightarrow> bool" where
  "transient st \<longleftrightarrow> (case st of Status_ok \<Rightarrow> False | Status_error c _ \<Rightarrow> c = Unavailable \<or> c = Deadline_exceeded)"

text \<open>The call as a function of the attempt's number and the state it acts on; the result also has
  the pauses taken between attempts. Without attempts left the last status is the answer; before
  the first one it is the default \<open>grpc::Status\<close>, which is OK.\<close>

fun retry_loop :: "(nat \<Rightarrow> 's \<Rightarrow> rpc_status \<times> 's) \<Rightarrow> nat \<Rightarrow> nat \<Rightarrow> nat \<Rightarrow> rpc_status \<Rightarrow> nat list \<Rightarrow> 's \<Rightarrow> rpc_status \<times> nat list \<times> 's" where
  "retry_loop fn i 0 backoff st pauses s = (st, pauses, s)"
| "retry_loop fn i (Suc left) backoff st pauses s =
     (let (st, s) = fn i s
      in if \<not> transient st then (st, pauses, s)
         else retry_loop fn (i + 1) left (min (backoff * 2) 3000) st (pauses @ [backoff]) s)"

definition with_retry :: "(nat \<Rightarrow> 's \<Rightarrow> rpc_status \<times> 's) \<Rightarrow> nat \<Rightarrow> 's \<Rightarrow> rpc_status \<times> nat list \<times> 's" where
  "with_retry fn attempts s = retry_loop fn 0 attempts 100 Status_ok [] s"

text \<open>The states before each attempt, when every attempt up to there was transient.\<close>

fun state_at :: "(nat \<Rightarrow> 's \<Rightarrow> rpc_status \<times> 's) \<Rightarrow> nat \<Rightarrow> 's \<Rightarrow> 's" where
  "state_at fn 0 s = s"
| "state_at fn (Suc k) s = snd (fn k (state_at fn k s))"

definition backoff_at :: "nat \<Rightarrow> nat" where
  "backoff_at k = min (100 * 2 ^ k) 3000"

lemma backoff_step: "min (backoff_at k * 2) 3000 = backoff_at (Suc k)"
  by (auto simp: backoff_at_def min_def)

lemma retry_loop_spec:
  assumes "\<And>k. k < i \<Longrightarrow> transient (fst (fn k (state_at fn k s)))"
    and "retry_loop fn i left (backoff_at i) st0 (map backoff_at [0..<i]) (state_at fn i s) = (st, pauses, s')"
    and "0 < left \<or> 0 < i" "0 < i \<Longrightarrow> st0 = fst (fn (i - 1) (state_at fn (i - 1) s))"
  shows "\<exists>k. k < i + left \<and> (st, s') = fn k (state_at fn k s) \<and>
    (\<forall>j<k. transient (fst (fn j (state_at fn j s)))) \<and>
    (if transient st then k = i + left - 1 \<and> pauses = map backoff_at [0..<i + left] else pauses = map backoff_at [0..<k])"
  using assms
proof (induction left arbitrary: i st0)
  case 0
  then have i: "0 < i" "st = st0" "s' = state_at fn i s" "pauses = map backoff_at [0..<i]" by auto
  obtain j where j: "i = Suc j" using i(1) by (cases i) auto
  then have "(st, s') = fn j (state_at fn j s)" using i 0 by simp
  then have "transient st" using 0(1)[of j] j by (metis fst_conv lessI)
  with \<open>(st, s') = _\<close> i j 0(1) show ?case by (intro exI[of _ j]) simp
next
  case (Suc left)
  obtain st1 s1 where f: "fn i (state_at fn i s) = (st1, s1)" by fastforce
  show ?case
  proof (cases "transient st1")
    case False
    with Suc.prems(2) f have "(st, s') = fn i (state_at fn i s)" "st = st1" "pauses = map backoff_at [0..<i]" by auto
    with False Suc.prems(1) show ?thesis by (intro exI[of _ i]) simp
  next
    case True
    have "\<exists>k. k < Suc i + left \<and> (st, s') = fn k (state_at fn k s) \<and>
        (\<forall>j<k. transient (fst (fn j (state_at fn j s)))) \<and>
        (if transient st then k = Suc i + left - 1 \<and> pauses = map backoff_at [0..<Suc i + left]
         else pauses = map backoff_at [0..<k])"
    proof (rule Suc.IH[of "Suc i" st1])
      show "transient (fst (fn k (state_at fn k s)))" if "k < Suc i" for k
        using that Suc.prems(1) True f by (cases "k = i") auto
      show "retry_loop fn (Suc i) left (backoff_at (Suc i)) st1 (map backoff_at [0..<Suc i]) (state_at fn (Suc i) s) =
          (st, pauses, s')"
        using Suc.prems(2) True f by (simp add: backoff_step)
    qed (simp_all add: f)
    then show ?thesis by (simp only: add_Suc add_Suc_right)
  qed
qed

section \<open>Calls over a network\<close>

text \<open>
  What can happen to one attempt of a call: it goes through; or the client gets an error status
  though the handler never ran, or though it ran and only its reply was lost. The reply message is
  filled in only by an OK status that arrives. \<open>f k\<close> is the handler at attempt \<open>k\<close>, on the
  server's state.
\<close>

datatype link = Delivered | Request_lost rpc_code | Reply_lost rpc_code

definition net_call :: "(nat \<Rightarrow> link) \<Rightarrow> (nat \<Rightarrow> 'sv \<Rightarrow> rpc_status \<times> 'r \<times> 'sv) \<Rightarrow> nat \<Rightarrow> 'r \<times> 'sv \<Rightarrow> rpc_status \<times> 'r \<times> 'sv" where
  "net_call net f k rs =
     (let (r0, sv) = rs
      in case net k of
           Request_lost c \<Rightarrow> (Status_error c [], r0, sv)
         | Reply_lost c \<Rightarrow> (case f k sv of (st, r, sv') \<Rightarrow> (Status_error c [], r0, sv'))
         | Delivered \<Rightarrow> (case f k sv of (st, r, sv') \<Rightarrow> (st, if st = Status_ok then r else r0, sv')))"

definition remote :: "(nat \<Rightarrow> link) \<Rightarrow> (nat \<Rightarrow> 'sv \<Rightarrow> rpc_status \<times> 'r \<times> 'sv) \<Rightarrow> nat \<Rightarrow> 'r \<Rightarrow> 'sv \<Rightarrow> rpc_status \<times> 'r \<times> 'sv" where
  "remote net f attempts r0 sv = (case with_retry (net_call net f) attempts (r0, sv) of (st, pauses, r, sv') \<Rightarrow> (st, r, sv'))"

lemma net_call_keeps:
  assumes "\<And>k s. I s \<Longrightarrow> I (snd (snd (f k s)))" "I s"
  shows "I (snd (snd (net_call net f k (r, s))))"
  using assms(1)[OF assms(2), of k] assms(2) by (auto simp: net_call_def split: link.splits prod.splits)

lemma state_at_net:
  assumes "\<And>k s. I s \<Longrightarrow> I (snd (snd (f k s)))" "I sv"
  shows "I (snd (state_at (net_call net f) k (r0, sv)))"
proof (induction k)
  case (Suc k)
  obtain r s where "state_at (net_call net f) k (r0, sv) = (r, s)" by fastforce
  with Suc net_call_keeps[of I f s net k r] assms(1) show ?case by simp
qed (use assms(2) in simp)

text \<open>What the handler keeps invariant is kept by the retried call, and an OK answer is the answer of
  one run of the handler, the last one.\<close>

lemma remote_spec:
  assumes "\<And>k s. I s \<Longrightarrow> I (snd (snd (f k s)))" "I sv" "remote net f attempts r0 sv = (st, r, sv')" "0 < attempts"
  shows "I sv'" "st = Status_ok \<Longrightarrow> \<exists>k s. I s \<and> f k s = (Status_ok, r, sv')"
proof -
  from assms(3) obtain ps where w: "with_retry (net_call net f) attempts (r0, sv) = (st, ps, r, sv')"
    by (auto simp: remote_def split: prod.splits)
  have "retry_loop (net_call net f) 0 attempts (backoff_at 0) Status_ok (map backoff_at [0..<0]) (state_at (net_call net f) 0 (r0, sv)) = (st, ps, r, sv')"
    using w by (simp add: with_retry_def backoff_at_def)
  from retry_loop_spec[OF _ this] assms(4) obtain k where
    k: "(st, r, sv') = net_call net f k (state_at (net_call net f) k (r0, sv))" by auto
  obtain r1 s1 where s1: "state_at (net_call net f) k (r0, sv) = (r1, s1)" by fastforce
  have I1: "I s1" using state_at_net[of I f sv net k r0] assms(1,2) s1 by simp
  obtain st2 r2 s2 where f: "f k s1 = (st2, r2, s2)" by (metis prod_cases3)
  show "I sv'" using net_call_keeps[of I f s1 net k r1] assms(1) I1 k s1 by (metis snd_conv)
  show "\<exists>k s. I s \<and> f k s = (Status_ok, r, sv')" if "st = Status_ok"
    using k s1 f I1 that by (auto simp: net_call_def split: link.splits if_splits)
qed

end
