(* ===== verification/Dc_Complete.thy ===== *)
theory Dc_Complete
  imports Dc_Cascade Dc_Rpc
begin

text \<open>
  The end of an attempt: \<open>CompleteTask\<close> with its three ways (done, retry, failed) and
  \<open>retry_copy\<close>, and one round of the reaper, which takes back the tasks whose lease ran out
  (\<open>src/coordinator.cpp:277-337, 554-576\<close>). A completion is one transaction; the reaper's statements
  are not one, so a round may stop between them. The lemmas show that each keeps the tables
  consistent and what it answers.
\<close>

section \<open>Statements\<close>

record task_result =
  r_uid :: nat
  r_attempt :: int
  r_worker :: string
  r_ok :: bool
  r_retryable :: bool
  r_output :: string
  r_log :: string
  r_exec_ms :: int

definition retry_copy :: "task_result \<Rightarrow> string \<Rightarrow> task_result" where
  "retry_copy r why = r\<lparr>r_ok := False, r_retryable := True, r_log := why\<rparr>"

definition live_row :: "nat \<Rightarrow> task_row \<Rightarrow> bool" where
  "live_row u t \<longleftrightarrow> t_uid t = u \<and> (t_state t = TReady \<or> t_state t = TRunning)"

definition cache_put :: "string \<Rightarrow> string \<Rightarrow> int \<Rightarrow> db \<Rightarrow> db" where
  "cache_put k h n db =
     (if cache_rows k db \<noteq> [] then db
      else db\<lparr>db_cache := db_cache db @ [\<lparr>c_key = k, c_output = h, c_size = n, c_hits = 0\<rparr>]\<rparr>)"

definition mark_done :: "task_result \<Rightarrow> task_row \<Rightarrow> task_row" where
  "mark_done r t = t\<lparr>t_state := TDone, t_output := Some (r_output r), t_exec_ms := Some (r_exec_ms r),
     t_lease_owner := Some (r_worker r)\<rparr>"

definition mark_retry :: "nat \<Rightarrow> int \<Rightarrow> string \<Rightarrow> task_row \<Rightarrow> task_row" where
  "mark_retry m now lg t = t\<lparr>t_state := if t_attempts t \<ge> m then TFailed else TReady, t_lease_owner := None,
     t_last_failed_by := t_lease_owner t, t_ready_at := Some now, t_log := Some lg\<rparr>"

definition mark_failed :: "task_result \<Rightarrow> task_row \<Rightarrow> task_row" where
  "mark_failed r t = t\<lparr>t_state := TFailed, t_log := Some (r_log r), t_exec_ms := Some (r_exec_ms r)\<rparr>"

section \<open>CompleteTask\<close>

definition complete_done :: "sha_fn \<Rightarrow> cas \<Rightarrow> int \<Rightarrow> task_result \<Rightarrow> db \<Rightarrow> (bool \<times> db) option" where
  "complete_done sha cas now r db =
     (case filter (live_row (r_uid r)) (db_tasks db) of
        [] \<Rightarrow> Some (False, db)
      | t # _ \<Rightarrow>
          let db1 = upd_tasks (live_row (r_uid r)) (mark_done r) db;
              db2 = cache_put (text_of (t_key t)) (r_output r) (cas_size_of cas (r_output r)) db1
          in map_option (Pair True) (finish_task sha now (t_build t) (t_id t) db2))"

definition attempt_row :: "task_result \<Rightarrow> task_row \<Rightarrow> bool" where
  "attempt_row r t \<longleftrightarrow> t_uid t = r_uid r \<and> t_state t = TRunning \<and> int (t_attempts t) = r_attempt r"

definition complete_retry :: "nat \<Rightarrow> int \<Rightarrow> task_result \<Rightarrow> db \<Rightarrow> bool \<times> db" where
  "complete_retry m now r db =
     (case filter (attempt_row r) (db_tasks db) of
        [] \<Rightarrow> (False, db)
      | t # _ \<Rightarrow>
          let db1 = upd_tasks (attempt_row r) (mark_retry m now (r_log r)) db
          in (True, if t_state (mark_retry m now (r_log r) t) = TFailed then maybe_finish now (t_build t) db1 else db1))"

definition complete_failed :: "int \<Rightarrow> task_result \<Rightarrow> db \<Rightarrow> bool \<times> db" where
  "complete_failed now r db =
     (case filter (live_row (r_uid r)) (db_tasks db) of
        [] \<Rightarrow> (False, db)
      | t # _ \<Rightarrow> (True, maybe_finish now (t_build t) (upd_tasks (live_row (r_uid r)) (mark_failed r) db)))"

definition complete_body :: "sha_fn \<Rightarrow> nat \<Rightarrow> cas \<Rightarrow> int \<Rightarrow> task_result \<Rightarrow> db \<Rightarrow> (bool \<times> db) option" where
  "complete_body sha m cas now r db =
     (if r_ok r then complete_done sha cas now r db
      else if r_retryable r then Some (complete_retry m now r db)
      else Some (complete_failed now r db))"

text \<open>The whole call: the answer's \<open>accepted\<close> is set only when the transaction returned.\<close>

definition complete_txn :: "sha_fn \<Rightarrow> nat \<Rightarrow> cas \<Rightarrow> txn_env \<Rightarrow> int \<Rightarrow> task_result \<Rightarrow> db \<Rightarrow> rpc_status \<times> bool option \<times> db" where
  "complete_txn sha m cas env now r db =
     (case run_txn env (\<lambda>_ _ u. u)
             (\<lambda>db u. (u, case complete_body sha m cas now r db of
                           None \<Rightarrow> Throws ''undefined row'' | Some (a, db') \<Rightarrow> Finished db' a)) db () of
        (db', _, Returned a) \<Rightarrow> (Status_ok, Some a, db')
      | (db', _, Raised_db e) \<Rightarrow> (Status_error Unavailable (de_message e), None, db')
      | (db', _, Raised e) \<Rightarrow> (Status_error Unavailable e, None, db'))"

definition complete_task :: "sha_fn \<Rightarrow> nat \<Rightarrow> cas \<Rightarrow> txn_env \<Rightarrow> int \<Rightarrow> task_result \<Rightarrow> db \<Rightarrow> rpc_status \<times> bool option \<times> db" where
  "complete_task sha m cas env now r db =
     (if r_ok r \<and> \<not> cas_has cas (r_output r)
      then complete_txn sha m cas env now (retry_copy r ''output blob missing'') db
      else complete_txn sha m cas env now r db)"

section \<open>The reaper\<close>

definition expired :: "int \<Rightarrow> task_row \<Rightarrow> bool" where
  "expired now t \<longleftrightarrow> t_state t = TRunning \<and> (case t_lease_until t of None \<Rightarrow> False | Some u \<Rightarrow> u < now)"

definition mark_reaped :: "nat \<Rightarrow> int \<Rightarrow> task_row \<Rightarrow> task_row" where
  "mark_reaped m now t =
     t\<lparr>t_state := if t_attempts t \<ge> m then TFailed else TReady, t_lease_owner := None,
       t_last_failed_by := t_lease_owner t, t_ready_at := Some now,
       t_log := if t_attempts t \<ge> m
                then Some (''gave up: lease expired '' @ to_string_nat (t_attempts t) @ '' times'') else t_log t\<rparr>"

definition reaped :: "nat \<Rightarrow> int \<Rightarrow> db \<Rightarrow> task_row list" where
  "reaped m now db = map (mark_reaped m now) (filter (expired now) (db_tasks db))"

text \<open>One round; \<open>stop\<close> is how many of the \<open>maybe_finish\<close> statements after the UPDATE succeed
  before one raises (the loop's \<open>catch\<close> ends the round then), \<open>None\<close> when none does.\<close>

definition reap :: "nat \<Rightarrow> nat option \<Rightarrow> int \<Rightarrow> db \<Rightarrow> db" where
  "reap m stop now db =
     (let bs = map t_build (filter (\<lambda>t. t_state t = TFailed) (reaped m now db));
          db1 = upd_tasks (expired now) (mark_reaped m now) db
      in fold (maybe_finish now) (case stop of None \<Rightarrow> bs | Some k \<Rightarrow> take k bs) db1)"

section \<open>Updates of several rows\<close>

lemma upd_tasks_mem:
  assumes "keys_ok db" "t \<in> set (db_tasks db)"
  shows "\<not> (P t \<and> t_uid t \<in> U) \<Longrightarrow> t \<in> set (db_tasks (upd_tasks (\<lambda>t. P t \<and> t_uid t \<in> U) f db))"
  using assms(2) by (auto simp: upd_tasks_def set_upd_where)

lemma upd_tasks_insert:
  assumes k: "keys_ok db" and t: "t \<in> set (db_tasks db)" and P: "P t" and u: "t_uid t \<notin> U"
    and same: "\<And>s. s \<in> set (db_tasks db) \<Longrightarrow> P s \<Longrightarrow> t_uid (f s) = t_uid s"
  shows "upd_tasks (\<lambda>s. P s \<and> t_uid s \<in> insert (t_uid t) U) f db = set_row (f t) (upd_tasks (\<lambda>s. P s \<and> t_uid s \<in> U) f db)"
proof -
  have "(if P s \<and> t_uid s \<in> insert (t_uid t) U then f s else s) =
      (if t_uid (if P s \<and> t_uid s \<in> U then f s else s) = t_uid (f t) then f t else if P s \<and> t_uid s \<in> U then f s else s)"
    if s: "s \<in> set (db_tasks db)" for s
    using same_key_same_row(2)[OF k s t] same[OF s] same[OF t P] P u by auto
  then show ?thesis by (simp add: upd_tasks_def set_row_def upd_where_def)
qed

text \<open>A statement that changes several unfinished rows, none of them to a finished one.\<close>

lemma consistent_upd_tasks:
  assumes con: "consistent sha m C E X W db"
    and f: "\<And>t. t \<in> set (db_tasks db) \<Longrightarrow> P t \<Longrightarrow> same_cols t (f t) \<and> \<not> terminal (t_state t) \<and> \<not> fin (t_state (f t)) \<and>
      t_attempts t \<le> t_attempts (f t) \<and> (t_state (f t) = TFailed \<longrightarrow> t_build t \<in> X)"
    and ok: "\<And>t db'. t \<in> set (db_tasks db) \<Longrightarrow> P t \<Longrightarrow> task_ok sha m C E W db' t \<Longrightarrow> task_ok sha m C E W db' (f t)"
  shows "consistent sha m C E X W (upd_tasks P f db)" "evolves db (upd_tasks P f db)"
    "db_deps (upd_tasks P f db) = db_deps db"
proof -
  define part where "part U = upd_tasks (\<lambda>t. P t \<and> t_uid t \<in> U) f db" for U
  note k = consistentD(1)[OF con]
  have steps: "consistent sha m C E X W (part U) \<and> evolves db (part U)" if "finite U" for U
    using that
  proof (induction U)
    case empty
    have "part {} = db" by (simp add: part_def upd_tasks_def upd_where_none)
    with con evolves_refl show ?case by simp
  next
    case (insert u U)
    show ?case
    proof (cases "\<exists>t\<in>set (db_tasks db). P t \<and> t_uid t = u")
      case True
      then obtain t where t: "t \<in> set (db_tasks db)" "P t" "t_uid t = u" by blast
      note ft = f[OF t(1,2)]
      have c: "same_cols t (f t)" and nterm: "\<not> terminal (t_state t)" using ft by auto
      have eq: "part (insert u U) = set_row (f t) (part U)"
        using upd_tasks_insert[OF k t(1), of P U f] t insert(2) f unfolding part_def by (auto simp: same_cols_def)
      have tp: "t \<in> set (db_tasks (part U))" unfolding part_def
        using upd_tasks_mem[OF k t(1)] t(3) insert(2) by simp
      have cp: "consistent sha m C E X W (part U)" and ep: "evolves db (part U)" using insert(3) by auto
      have "consistent sha m C E X W (set_row (f t) (part U))"
        by (rule consistent_unfinished[OF cp tp c nterm]) (use ft ok[OF t(1,2) consistentD(5)[OF cp tp]] in auto)
      moreover have "evolves db (set_row (f t) (part U))"
        using evolves_trans[OF ep evolves_set_row[OF consistentD(1)[OF cp] tp c nterm]] ft by blast
      ultimately show ?thesis by (simp add: eq)
    next
      case False
      then have "upd_where (\<lambda>t. P t \<and> t_uid t \<in> insert u U) f (db_tasks db) = upd_where (\<lambda>t. P t \<and> t_uid t \<in> U) f (db_tasks db)"
        by (intro upd_where_cong_set) auto
      then have "part (insert u U) = part U" by (simp add: part_def upd_tasks_def)
      with insert(3) show ?thesis by simp
    qed
  qed
  have "part (t_uid ` set (db_tasks db)) = upd_tasks P f db"
    unfolding part_def upd_tasks_def
    using upd_where_cong_set[of "db_tasks db" "\<lambda>t. P t \<and> t_uid t \<in> t_uid ` set (db_tasks db)" P f] by simp
  with steps[of "t_uid ` set (db_tasks db)"] show "consistent sha m C E X W (upd_tasks P f db)" "evolves db (upd_tasks P f db)"
    by simp_all
  show "db_deps (upd_tasks P f db) = db_deps db" by (simp add: upd_tasks_def)
qed

lemma filter_uid_row:
  assumes "keys_ok db" "t \<in> set (db_tasks db)" "P t" "\<And>s. P s \<Longrightarrow> t_uid s = t_uid t"
  shows "filter P (db_tasks db) = [t]"
proof (rule distinct_single)
  show "distinct (filter P (db_tasks db))" using assms(1) by (simp add: keys_ok_def distinct_map)
  show "set (filter P (db_tasks db)) = {t}"
  proof (intro set_eqI iffI)
    fix s assume "s \<in> set (filter P (db_tasks db))"
    then have "s \<in> set (db_tasks db)" "t_uid s = t_uid t" using assms(4) by auto
    then show "s \<in> {t}" using same_key_same_row(2)[OF assms(1) _ assms(2)] by blast
  qed (use assms(2,3) in simp)
qed

section \<open>A finished attempt\<close>

lemma cache_put_simps [simp]:
  "db_tasks (cache_put k h n db) = db_tasks db" "db_deps (cache_put k h n db) = db_deps db"
  "db_builds (cache_put k h n db) = db_builds db" "db_workers (cache_put k h n db) = db_workers db"
  "db_next_uid (cache_put k h n db) = db_next_uid db" "db_next_build (cache_put k h n db) = db_next_build db"
  by (simp_all add: cache_put_def)

lemma cache_put_mem:
  "set (db_cache db) \<subseteq> set (db_cache (cache_put k h n db))" "\<exists>c\<in>set (db_cache (cache_put k h n db)). c_key c = k"
  by (auto simp: cache_put_def cache_rows_def filter_empty_conv)

lemma consistent_cache_put:
  assumes con: "consistent sha m C E X W db" and h: "h \<in> C"
  shows "consistent sha m C E X W (cache_put k h n db)" "evolves db (cache_put k h n db)"
proof -
  note D = consistentD[OF con]
  have "distinct (map c_key (db_cache (cache_put k h n db)))"
    using D(1) by (auto simp: keys_ok_def cache_put_def cache_rows_def filter_empty_conv)
  then have "keys_ok (cache_put k h n db)" using D(1) by (simp add: keys_ok_def)
  moreover have "cache_ok C (cache_put k h n db)" using D(4) h by (auto simp: cache_ok_def cache_put_def)
  moreover have "task_ok sha m C E W (cache_put k h n db) t" if "t \<in> set (db_tasks db)" for t
    using that cache_put_mem(1)[of db k h n]
    by (intro task_ok_same[OF _ _ _ D(5)]) (auto simp: cached_as_def)
  ultimately show "consistent sha m C E X W (cache_put k h n db)"
    using D(2,3,6) same_tasks_deps(6,7)[of "cache_put k h n db" db] build_ok_same[of "cache_put k h n db" db]
    by (intro consistentI) simp_all
  show "evolves db (cache_put k h n db)"
    unfolding evolves_def using cache_put_mem(1)[of db k h n]
    by (intro conjI ballI) (auto intro: rev_bexI)
qed

text \<open>The tables after the first two statements, before the dependents are counted down.\<close>

definition done_rows :: "cas \<Rightarrow> task_result \<Rightarrow> task_row \<Rightarrow> db \<Rightarrow> db" where
  "done_rows cas r t db = set_row (mark_done r t) (cache_put (text_of (t_key t)) (r_output r) (cas_size_of cas (r_output r)) db)"

lemma complete_done_rows:
  assumes k: "keys_ok db" and t: "t \<in> set (db_tasks db)" and live: "live_row (r_uid r) t"
  shows "complete_done sha cas now r db = map_option (Pair True) (finish_task sha now (t_build t) (t_id t) (done_rows cas r t db))"
proof -
  have u: "t_uid t = r_uid r" using live by (simp add: live_row_def)
  have row: "filter (live_row (r_uid r)) (db_tasks db) = [t]"
    by (rule filter_uid_row[of db t "live_row (r_uid r)", OF k t live]) (simp add: live_row_def u)
  have "upd_tasks (live_row (r_uid r)) (mark_done r) db = set_row (mark_done r t) db"
    using same_key_same_row(2)[OF k _ t] live u
    by (intro upd_tasks_row[OF k t]) (auto simp: live_row_def mark_done_def)
  then have "cache_put (text_of (t_key t)) (r_output r) n (upd_tasks (live_row (r_uid r)) (mark_done r) db) =
      set_row (mark_done r t) (cache_put (text_of (t_key t)) (r_output r) n db)" for n
    by (simp add: cache_put_def set_row_def cache_rows_def)
  then show ?thesis by (simp add: complete_done_def row Let_def done_rows_def)
qed

lemma done_rows_ok:
  assumes con: "consistent sha m C {} X {} db" and out: "r_output r \<in> C"
    and t: "t \<in> set (db_tasks db)" and live: "live_row (r_uid r) t"
  shows "consistent sha m C (out_edges (t_build t) (t_id t) db)
      (if out_edges (t_build t) (t_id t) db = {} then insert (t_build t) X else X) {} (done_rows cas r t db)"
    and "evolves db (done_rows cas r t db)" "mark_done r t \<in> set (db_tasks (done_rows cas r t db))"
    and "db_deps (done_rows cas r t db) = db_deps db" "db_builds (done_rows cas r t db) = db_builds db"
proof -
  let ?t = "mark_done r t" and ?out = "out_edges (t_build t) (t_id t)"
  define X' where "X' = (if ?out db = {} then insert (t_build t) X else X)"
  define db1 where "db1 = cache_put (text_of (t_key t)) (r_output r) (cas_size_of cas (r_output r)) db"
  have c: "same_cols t ?t" by (simp add: same_cols_def mark_done_def)
  have nterm: "\<not> terminal (t_state t)" and nw: "t_state t \<noteq> TWaiting" "t_state t \<noteq> TFailed"
    using live by (auto simp: live_row_def terminal_def)
  have con1: "consistent sha m C {} X {} db1" and ev1: "evolves db db1"
    unfolding db1_def using consistent_cache_put[OF con out] by auto
  have t1: "t \<in> set (db_tasks db1)" using t by (simp add: db1_def)
  note k1 = consistentD(1)[OF con1]
  have tok: "task_ok sha m C {} {} db1 t" by (rule consistentD(5)[OF con1 t1])
  then have key: "key_ok sha db1 t" and p: "t_pending t = 0"
    using nw not_waiting_pending[OF tok] by (auto simp: task_ok_def)
  have od: "?out db1 = ?out db" by (simp add: db1_def out_edges_def)
  have "consistent sha m C ({} \<union> ?out db1) X' ({} - {t_uid t}) (set_row ?t db1)"
  proof (rule consistent_finishes[OF con1 t1 c nterm])
    show "fin (t_state ?t)" "t_pending ?t = 0" "t_attempts ?t = t_attempts t" "\<exists>h\<in>C. t_output ?t = Some h"
      using p out by (simp_all add: mark_done_def)
    show "key_ok sha db1 ?t" using key by (simp add: key_ok_def mark_done_def)
    have "\<exists>c\<in>set (db_cache db1). c_key c = text_of (t_key t)" unfolding db1_def by (rule cache_put_mem(2))
    moreover have "t_key t = Some (text_of (t_key t))"
      using key by (auto simp: key_ok_def text_of_def Let_def split: if_splits option.splits)
    ultimately have "\<exists>c\<in>set (db_cache db1). t_key t = Some (c_key c)" by metis
    then show "cached_as db1 ?t" by (simp add: cached_as_def mark_done_def)
  qed (auto simp: X'_def p od)
  then show "consistent sha m C (?out db) (if ?out db = {} then insert (t_build t) X else X) {} (done_rows cas r t db)"
    by (simp add: done_rows_def db1_def[symmetric] X'_def od)
  have "evolves db1 (set_row ?t db1)" by (rule evolves_set_row[OF k1 t1 c nterm]) (simp add: mark_done_def)
  then show "evolves db (done_rows cas r t db)" using evolves_trans[OF ev1] by (simp add: done_rows_def db1_def[symmetric])
  show "?t \<in> set (db_tasks (done_rows cas r t db))"
    unfolding done_rows_def db1_def[symmetric] by (simp add: set_row_mem[OF k1 t1 c])
qed (simp_all add: done_rows_def)

lemma complete_done_ok:
  assumes con: "consistent sha m C {} X {} db" and out: "r_output r \<in> C"
  obtains (stale) "\<not> (\<exists>t\<in>set (db_tasks db). live_row (r_uid r) t)" "complete_done sha cas now r db = Some (False, db)"
    | (accepted) t db' where "t \<in> set (db_tasks db)" "live_row (r_uid r) t"
        "complete_done sha cas now r db = Some (True, db')" "consistent sha m C {} X {} db'" "evolves db db'"
        "db_deps db' = db_deps db" "mark_done r t \<in> set (db_tasks db')"
proof (cases "\<exists>t\<in>set (db_tasks db). live_row (r_uid r) t")
  case False
  then have "filter (live_row (r_uid r)) (db_tasks db) = []" by (auto simp: filter_empty_conv)
  with False stale show thesis by (simp add: complete_done_def)
next
  case True
  then obtain t where t: "t \<in> set (db_tasks db)" and live: "live_row (r_uid r) t" by blast
  let ?d = "done_rows cas r t db" and ?out = "out_edges (t_build t) (t_id t)"
  define X' where "X' = (if ?out db = {} then insert (t_build t) X else X)"
  note d = done_rows_ok[OF con out t live, where cas = cas]
  have od: "?out ?d = ?out db" by (simp add: out_edges_def d(4))
  have con2: "consistent sha m C (?out ?d) X' {} ?d" using d(1) by (simp add: X'_def od)
  have mem: "mark_done r t \<in> set (db_tasks ?d)" "t_build (mark_done r t) = t_build t" "t_id (mark_done r t) = t_id t" "fin (t_state (mark_done r t))"
    using d(3) by (simp_all add: mark_done_def)
  obtain db' where f: "finish_task sha now (t_build t) (t_id t) ?d = Some db'"
    "consistent sha m C (?out ?d - ?out ?d) (if ?out ?d = {} then X' - {t_build t} else X') {} db'"
    "evolves ?d db'" "db_deps db' = db_deps ?d"
    using finish_task_ok[OF con2, of "t_build t" "t_id t"] by auto
  have "(if ?out ?d = {} then X' - {t_build t} else X') \<subseteq> X" by (auto simp: X'_def od)
  with f(2) have "consistent sha m C {} X {} db'" using consistent_mono by (metis Diff_cancel)
  moreover have "evolves db db'" by (rule evolves_trans[OF d(2) f(3)])
  moreover have "mark_done r t \<in> set (db_tasks db')" using f(3) mem unfolding evolves_def by (force simp: terminal_def fin_def)
  moreover have "complete_done sha cas now r db = Some (True, db')"
    by (simp add: complete_done_rows[OF consistentD(1)[OF con] t live] f(1))
  moreover have "db_deps db' = db_deps db" using f(4) d(4) by simp
  ultimately show thesis using accepted[OF t live] by blast
qed

text \<open>A failed attempt: the task is queued again while it has attempts left, else the build fails.\<close>

lemma complete_retry_ok:
  assumes con: "consistent sha m C {} X {} db"
  obtains (stale) "\<not> (\<exists>t\<in>set (db_tasks db). attempt_row r t)" "complete_retry m now r db = (False, db)"
    | (requeued) t where "t \<in> set (db_tasks db)" "attempt_row r t" "t_attempts t < m"
        "complete_retry m now r db = (True, set_row (mark_retry m now (r_log r) t) db)"
        "consistent sha m C {} X {} (set_row (mark_retry m now (r_log r) t) db)"
        "evolves db (set_row (mark_retry m now (r_log r) t) db)"
    | (gave_up) t db' where "t \<in> set (db_tasks db)" "attempt_row r t" "m \<le> t_attempts t"
        "complete_retry m now r db = (True, db')" "consistent sha m C {} X {} db'" "evolves db db'"
        "db_deps db' = db_deps db" "mark_retry m now (r_log r) t \<in> set (db_tasks db')"
        "db' = maybe_finish now (t_build t) (set_row (mark_retry m now (r_log r) t) db)"
proof (cases "\<exists>t\<in>set (db_tasks db). attempt_row r t")
  case False
  then have "filter (attempt_row r) (db_tasks db) = []" by (auto simp: filter_empty_conv)
  with False stale show thesis by (simp add: complete_retry_def attempt_row_def)
next
  case True
  then obtain t where t: "t \<in> set (db_tasks db)" and P: "attempt_row r t" by blast
  note k = consistentD(1)[OF con]
  let ?f = "mark_retry m now (r_log r)"
  let ?t = "?f t"
  have row: "filter (attempt_row r) (db_tasks db) = [t]"
    by (rule filter_uid_row[of db t "attempt_row r", OF k t P]) (use P in \<open>simp add: attempt_row_def\<close>)
  have c: "same_cols t ?t" by (simp add: same_cols_def mark_retry_def)
  have run: "t_state t = TRunning" using P by (simp add: attempt_row_def)
  then have nterm: "\<not> terminal (t_state t)" by (simp add: terminal_def)
  have upd: "upd_tasks (attempt_row r) ?f db = set_row ?t db"
    by (rule upd_tasks_row[OF k t]) (use same_key_same_row(2)[OF k _ t] P in \<open>auto simp: attempt_row_def mark_retry_def\<close>)
  have ev: "evolves db (set_row ?t db)" by (rule evolves_set_row[OF k t c nterm]) (simp add: mark_retry_def)
  have tok: "task_ok sha m C {} {} db t" by (rule consistentD(5)[OF con t])
  then have tok': "task_ok sha m C {} {} db ?t"
    using run unfolding task_ok_def by (elim conjE) (simp add: mark_retry_def key_ok_def work_ok_def)
  have res: "complete_retry m now r db =
      (True, if t_state ?t = TFailed then maybe_finish now (t_build t) (set_row ?t db) else set_row ?t db)"
    by (simp add: complete_retry_def row upd Let_def)
  show thesis
  proof (cases "t_attempts t < m")
    case True
    then have st: "t_state ?t = TReady" by (simp add: mark_retry_def)
    have "consistent sha m C {} X {} (set_row ?t db)"
      by (rule consistent_unfinished[OF con t c nterm _ tok']) (simp_all add: st)
    with requeued[OF t P True] res ev st show thesis by simp
  next
    case False
    then have st: "t_state ?t = TFailed" and am: "m \<le> t_attempts t"
      by (simp_all add: mark_retry_def)
    have con1: "consistent sha m C {} (insert (t_build t) X) {} (set_row ?t db)"
      by (rule consistent_unfinished[OF con t c nterm _ tok']) (auto simp: st)
    note mf = maybe_finish_ok[OF con1, where b = "t_build t" and now = now]
    have "consistent sha m C {} X {} (maybe_finish now (t_build t) (set_row ?t db))"
      by (rule consistent_mono[OF mf(1)]) auto
    moreover have "?t \<in> set (db_tasks (set_row ?t db))" by (simp add: set_row_mem[OF k t c])
    ultimately show thesis
      using gave_up[OF t P am _ _ _ _ _ refl] res st mf(3,4) evolves_trans[OF ev mf(2)] by simp
  qed
qed

lemma complete_failed_ok:
  assumes con: "consistent sha m C {} X {} db"
  obtains (stale) "\<not> (\<exists>t\<in>set (db_tasks db). live_row (r_uid r) t)" "complete_failed now r db = (False, db)"
    | (failed) t db' where "t \<in> set (db_tasks db)" "live_row (r_uid r) t"
        "complete_failed now r db = (True, db')" "consistent sha m C {} X {} db'" "evolves db db'"
        "db_deps db' = db_deps db" "mark_failed r t \<in> set (db_tasks db')"
proof (cases "\<exists>t\<in>set (db_tasks db). live_row (r_uid r) t")
  case False
  then have "filter (live_row (r_uid r)) (db_tasks db) = []" by (auto simp: filter_empty_conv)
  with False stale show thesis by (simp add: complete_failed_def)
next
  case True
  then obtain t where t: "t \<in> set (db_tasks db)" and live: "live_row (r_uid r) t" by blast
  note k = consistentD(1)[OF con]
  let ?t = "mark_failed r t"
  have u: "t_uid t = r_uid r" using live by (simp add: live_row_def)
  have row: "filter (live_row (r_uid r)) (db_tasks db) = [t]"
    by (rule filter_uid_row[of db t "live_row (r_uid r)", OF k t live]) (simp add: live_row_def u)
  have c: "same_cols t ?t" by (simp add: same_cols_def mark_failed_def)
  have nterm: "\<not> terminal (t_state t)" and nw: "t_state t \<noteq> TWaiting" using live by (auto simp: live_row_def terminal_def)
  have upd: "upd_tasks (live_row (r_uid r)) (mark_failed r) db = set_row ?t db"
    by (rule upd_tasks_row[OF k t]) (use same_key_same_row(2)[OF k _ t] live u in \<open>auto simp: live_row_def mark_failed_def\<close>)
  have ev: "evolves db (set_row ?t db)" by (rule evolves_set_row[OF k t c nterm]) (simp add: mark_failed_def)
  have tok: "task_ok sha m C {} {} db t" by (rule consistentD(5)[OF con t])
  then have tok': "task_ok sha m C {} {} db ?t" using nw unfolding task_ok_def by (elim conjE) (simp add: mark_failed_def)
  have con1: "consistent sha m C {} (insert (t_build t) X) {} (set_row ?t db)"
    by (rule consistent_unfinished[OF con t c nterm _ tok']) (auto simp: mark_failed_def)
  note mf = maybe_finish_ok[OF con1, where b = "t_build t" and now = now]
  have "consistent sha m C {} X {} (maybe_finish now (t_build t) (set_row ?t db))"
    by (rule consistent_mono[OF mf(1)]) auto
  moreover have "?t \<in> set (db_tasks (set_row ?t db))" by (simp add: set_row_mem[OF k t c])
  moreover have "complete_failed now r db = (True, maybe_finish now (t_build t) (set_row ?t db))"
    by (simp add: complete_failed_def row upd)
  ultimately show thesis using failed[OF t live] mf(3,4) evolves_trans[OF ev mf(2)] by simp
qed

text \<open>Whatever the report and the faults: the tables stay consistent, a refused call changes nothing, a failed one
  only when the answer of its COMMIT was lost, and the call never reads a row that is not there.\<close>

lemma complete_body_ok:
  assumes con: "consistent sha m C {} X {} db" and out: "r_ok r \<Longrightarrow> r_output r \<in> C"
  obtains a db' where "complete_body sha m cas now r db = Some (a, db')" "consistent sha m C {} X {} db'"
    "evolves db db'" "\<not> a \<Longrightarrow> db' = db" "db_deps db' = db_deps db"
proof -
  consider (ok) "r_ok r" | (again) "\<not> r_ok r" "r_retryable r" | (bad) "\<not> r_ok r" "\<not> r_retryable r" by blast
  then show thesis
  proof cases
    case ok
    then have b: "complete_body sha m cas now r db = complete_done sha cas now r db" by (simp add: complete_body_def)
    show thesis
      by (rule complete_done_ok[OF con out[OF ok], of cas now]) (use that[unfolded b] con evolves_refl in blast)+
  next
    case again
    then have b: "complete_body sha m cas now r db = Some (complete_retry m now r db)" by (simp add: complete_body_def)
    show thesis
      by (rule complete_retry_ok[OF con, of r now]) (use that[unfolded b] con evolves_refl set_row_simps(2) in metis)+
  next
    case bad
    then have b: "complete_body sha m cas now r db = Some (complete_failed now r db)" by (simp add: complete_body_def)
    show thesis
      by (rule complete_failed_ok[OF con, of r now]) (use that[unfolded b] con evolves_refl in metis)+
  qed
qed

lemma complete_txn_ok:
  assumes con: "consistent sha m C {} X {} db" and out: "r_ok r \<Longrightarrow> r_output r \<in> C"
    and "complete_txn sha m cas env now r db = (st, acc, db')"
  shows "consistent sha m C {} X {} db'" "evolves db db'" "db_deps db' = db_deps db"
    and "case acc of None \<Rightarrow> (\<exists>e. st = Status_error Unavailable e) \<and>
             (db' = db \<or> (\<exists>a. complete_body sha m cas now r db = Some (a, db') \<and> (\<exists>j e. commits env j = Commit_error True e)))
         | Some a \<Rightarrow> st = Status_ok \<and> complete_body sha m cas now r db = Some (a, db')"
proof -
  obtain a db1 where b: "complete_body sha m cas now r db = Some (a, db1)" "consistent sha m C {} X {} db1"
    "evolves db db1" "db_deps db1 = db_deps db"
    using complete_body_ok[OF con out] by blast
  let ?fn = "\<lambda>db u. (u, case complete_body sha m cas now r db of
    None \<Rightarrow> Throws ''undefined row'' | Some (a, db') \<Rightarrow> Finished db' a)"
  obtain s u res where t: "run_txn env (\<lambda>_ _ u. u) ?fn db () = (s, u, res)" by (metis prod_cases3)
  note eq = assms(3)[unfolded complete_txn_def t]
  let ?ok = "\<lambda>d. consistent sha m C {} X {} d \<and> evolves db d \<and> db_deps d = db_deps db"
  have "?ok db' \<and> (case acc of None \<Rightarrow> (\<exists>e. st = Status_error Unavailable e) \<and>
      (db' = db \<or> (\<exists>a. complete_body sha m cas now r db = Some (a, db') \<and> (\<exists>j e. commits env j = Commit_error True e)))
    | Some a \<Rightarrow> st = Status_ok \<and> complete_body sha m cas now r db = Some (a, db'))"
    using t
  proof (cases rule: run_txn_cases)
    case (returned c rj)
    with b eq show ?thesis by auto
  next
    case raised
    with con eq evolves_refl show ?thesis by (auto split: txn_result.splits)
  next
    case (landed c rj e j)
    with b eq show ?thesis by auto
  qed
  then show "consistent sha m C {} X {} db'" "evolves db db'" "db_deps db' = db_deps db"
    "case acc of None \<Rightarrow> (\<exists>e. st = Status_error Unavailable e) \<and>
      (db' = db \<or> (\<exists>a. complete_body sha m cas now r db = Some (a, db') \<and> (\<exists>j e. commits env j = Commit_error True e)))
    | Some a \<Rightarrow> st = Status_ok \<and> complete_body sha m cas now r db = Some (a, db')" by blast+
qed

section \<open>What reporting a success does\<close>

text \<open>
  The change of a report that was accepted, or not (\<open>a\<close>). When the output is in the store (\<open>here\<close>) the row
  becomes done under its key in the action cache. When it is not, the report is a failed attempt: the running
  row of just that attempt is requeued, and failed together with its build when no attempt is left.
\<close>

definition success_report :: "nat \<Rightarrow> int \<Rightarrow> bool \<Rightarrow> task_result \<Rightarrow> db \<Rightarrow> bool \<Rightarrow> db \<Rightarrow> bool" where
  "success_report m now here r db a db' \<longleftrightarrow>
     (if \<not> a then db' = db \<and> (\<forall>t\<in>set (db_tasks db). \<not> (if here then live_row (r_uid r) t else attempt_row r t))
      else if here then
        \<exists>t\<in>set (db_tasks db). live_row (r_uid r) t \<and> mark_done r t \<in> set (db_tasks db') \<and>
          (\<exists>c\<in>set (db_cache db'). t_key t = Some (c_key c))
      else
        \<exists>t\<in>set (db_tasks db). attempt_row r t \<and>
          (let t' = mark_retry m now ''output blob missing'' t
           in db' = (if t_attempts t < m then set_row t' db else maybe_finish now (t_build t) (set_row t' db))))"

lemma success_report_ok:
  assumes con: "consistent sha m C {} X {} db" and C: "cas_has cas (r_output r) \<Longrightarrow> r_output r \<in> C"
    and "complete_task sha m cas env now r db = (st, acc, db')" "r_ok r"
  shows "case acc of
      None \<Rightarrow> (\<exists>e. st = Status_error Unavailable e) \<and>
        (db' = db \<or> (\<exists>a. success_report m now (cas_has cas (r_output r)) r db a db') \<and> (\<exists>j e. commits env j = Commit_error True e))
    | Some a \<Rightarrow> st = Status_ok \<and> success_report m now (cas_has cas (r_output r)) r db a db'"
proof (cases "cas_has cas (r_output r)")
  case True
  note out = C[OF True]
  have change: "success_report m now True r db a d" if "complete_body sha m cas now r db = Some (a, d)" for a d
  proof -
    from that have don: "complete_done sha cas now r db = Some (a, d)" using assms(4) by (simp add: complete_body_def)
    show ?thesis
    proof (cases rule: complete_done_ok[OF con out, of cas now, case_names stale accepted])
      case stale
      with don show ?thesis by (auto simp: success_report_def)
    next
      case (accepted t db1)
      then have eq: "a" "d = db1" using don by simp_all
      have "task_ok sha m C {} {} d (mark_done r t)" using consistentD(5)[OF accepted(4,7)] eq by simp
      then have "cached_as d (mark_done r t)" by (simp add: task_ok_def mark_done_def)
      then have "\<exists>c\<in>set (db_cache d). t_key t = Some (c_key c)" by (auto simp: cached_as_def mark_done_def)
      with eq accepted show ?thesis by (auto simp: success_report_def)
    qed
  qed
  have "complete_txn sha m cas env now r db = (st, acc, db')" using assms(3) True by (simp add: complete_task_def)
  from complete_txn_ok(4)[OF con out this] change True show ?thesis by (auto split: option.splits)
next
  case False
  let ?r = "retry_copy r ''output blob missing''"
  have r: "\<not> r_ok ?r" "r_retryable ?r" "r_log ?r = ''output blob missing''" "attempt_row ?r = attempt_row r"
    by (simp_all add: retry_copy_def attempt_row_def fun_eq_iff)
  have change: "success_report m now False r db a d" if "complete_body sha m cas now ?r db = Some (a, d)" for a d
  proof -
    from that have ret: "complete_retry m now ?r db = (a, d)" using r(1,2) by (simp add: complete_body_def)
    show ?thesis
    proof (cases rule: complete_retry_ok[OF con, of ?r now, case_names stale requeued gave_up])
      case stale
      with ret r(4) show ?thesis by (auto simp: success_report_def)
    next
      case (requeued t)
      with ret r(3,4) show ?thesis by (auto simp: success_report_def intro!: bexI[of _ t])
    next
      case (gave_up t d1)
      with ret r(3,4) show ?thesis by (auto simp: success_report_def intro!: bexI[of _ t])
    qed
  qed
  have "complete_txn sha m cas env now ?r db = (st, acc, db')" using assms(3,4) False by (simp add: complete_task_def)
  from complete_txn_ok(4)[OF con _ this] r(1) change False show ?thesis by (auto split: option.splits)
qed

section \<open>A round of the reaper\<close>

lemma fold_maybe_finish:
  assumes "consistent sha m C E X W db"
  shows "consistent sha m C E (X - set bs) W (fold (maybe_finish now) bs db)" "evolves db (fold (maybe_finish now) bs db)"
    "db_tasks (fold (maybe_finish now) bs db) = db_tasks db" "db_deps (fold (maybe_finish now) bs db) = db_deps db"
proof -
  have "consistent sha m C E (X - set bs) W (fold (maybe_finish now) bs db) \<and> evolves db (fold (maybe_finish now) bs db) \<and>
    db_tasks (fold (maybe_finish now) bs db) = db_tasks db \<and> db_deps (fold (maybe_finish now) bs db) = db_deps db"
    using assms
  proof (induction bs arbitrary: X db)
    case (Cons b bs)
    note mf = maybe_finish_ok[OF Cons.prems, where b = b and now = now]
    have "X - {b} - set bs = X - set (b # bs)" by auto
    with Cons.IH[OF mf(1)] mf(2-4) evolves_trans[OF mf(2)] show ?case by simp
  qed (simp add: evolves_refl)
  then show "consistent sha m C E (X - set bs) W (fold (maybe_finish now) bs db)" "evolves db (fold (maybe_finish now) bs db)"
    "db_tasks (fold (maybe_finish now) bs db) = db_tasks db" "db_deps (fold (maybe_finish now) bs db) = db_deps db"
    by blast+
qed

lemma mark_reaped_ok:
  assumes "task_ok sha m C E W db t" "expired now t"
  shows "task_ok sha m C E W db (mark_reaped m now t)"
proof -
  have "t_state t = TRunning" using assms(2) by (simp add: expired_def)
  with assms(1) show ?thesis
    unfolding task_ok_def by (elim conjE) (simp add: mark_reaped_def key_ok_def work_ok_def)
qed

text \<open>A round that is not cut short leaves the tables consistent. One that is leaves the builds
  whose \<open>maybe_finish\<close> was not reached unsettled; each of them has a failed task.\<close>

lemma reap_ok:
  assumes con: "consistent sha m C {} X {} db"
  obtains Y where "consistent sha m C {} (X \<union> Y) {} (reap m stop now db)" "evolves db (reap m stop now db)"
    "db_deps (reap m stop now db) = db_deps db" "stop = None \<Longrightarrow> Y = {}"
    "\<And>b. b \<in> Y \<Longrightarrow> \<exists>t\<in>set (db_tasks (reap m stop now db)). t_build t = b \<and> t_state t = TFailed"
    "db_tasks (reap m stop now db) = upd_where (expired now) (mark_reaped m now) (db_tasks db)"
proof -
  define bs where "bs = map t_build (filter (\<lambda>t. t_state t = TFailed) (reaped m now db))"
  define reached where "reached = (case stop of None \<Rightarrow> bs | Some k \<Rightarrow> take k bs)"
  let ?db = "upd_tasks (expired now) (mark_reaped m now) db"
  have r: "reap m stop now db = fold (maybe_finish now) reached ?db" 
    unfolding reap_def Let_def bs_def reached_def ..
  have con0: "consistent sha m C {} (X \<union> set bs) {} db" by (rule consistent_mono[OF con]) simp
  have upd: "consistent sha m C {} (X \<union> set bs) {} ?db" "evolves db ?db" "db_deps ?db = db_deps db"
  proof (atomize (full), intro conjI)
    have f: "same_cols t (mark_reaped m now t) \<and> \<not> terminal (t_state t) \<and> \<not> fin (t_state (mark_reaped m now t)) \<and>
        t_attempts t \<le> t_attempts (mark_reaped m now t) \<and>
        (t_state (mark_reaped m now t) = TFailed \<longrightarrow> t_build t \<in> X \<union> set bs)"
      if "t \<in> set (db_tasks db)" "expired now t" for t
    proof -
      have run: "t_state t = TRunning" using that(2) by (simp add: expired_def)
      have "t_build t \<in> set bs" if "t_state (mark_reaped m now t) = TFailed"
      proof -
        have "mark_reaped m now t \<in> set (filter (\<lambda>t. t_state t = TFailed) (reaped m now db))"
          using that \<open>t \<in> set (db_tasks db)\<close> \<open>expired now t\<close> by (simp add: reaped_def)
        then have "t_build (mark_reaped m now t) \<in> set bs" unfolding bs_def by force
        then show ?thesis by (simp add: mark_reaped_def)
      qed
      with run show ?thesis by (simp add: mark_reaped_def same_cols_def terminal_def)
    qed
    note upd = consistent_upd_tasks[OF con0, of "expired now" "mark_reaped m now", OF f mark_reaped_ok]
    from upd(1) show "consistent sha m C {} (X \<union> set bs) {} ?db" by blast
    from upd(2) show "evolves db ?db" by blast
    show "db_deps ?db = db_deps db" by (simp add: upd_tasks_def)
  qed
  note fm = fold_maybe_finish[OF upd(1), where bs = reached and now = now]
  show thesis
  proof (rule that[of "set bs - set reached"])
    show "consistent sha m C {} (X \<union> (set bs - set reached)) {} (reap m stop now db)"
      unfolding r by (rule consistent_mono[OF fm(1)]) auto
    show "evolves db (reap m stop now db)" unfolding r by (rule evolves_trans[OF upd(2) fm(2)])
    show "db_deps (reap m stop now db) = db_deps db" unfolding r by (simp add: fm(4) upd(3))
    show "set bs - set reached = {}" if "stop = None" using that by (simp add: reached_def)
    show tasks: "db_tasks (reap m stop now db) = upd_where (expired now) (mark_reaped m now) (db_tasks db)"
      unfolding r fm(3) by (simp add: upd_tasks_def)
    show "\<exists>t\<in>set (db_tasks (reap m stop now db)). t_build t = b \<and> t_state t = TFailed" if b: "b \<in> set bs - set reached" for b
    proof -
      from b obtain t where t: "t \<in> set (db_tasks db)" "expired now t" "t_state (mark_reaped m now t) = TFailed"
        "t_build (mark_reaped m now t) = b" by (auto simp: bs_def reaped_def)
      then have "mark_reaped m now t \<in> set (db_tasks (reap m stop now db))"
        unfolding tasks using upd_where_memI[OF t(1), of "expired now" "mark_reaped m now"] by simp
      with t show ?thesis by blast
    qed
  qed
qed

end
