(* ===== verification/Dc_Claim.thy ===== *)
theory Dc_Claim
  imports Dc_Complete
begin

text \<open>
  The worker-facing calls other than completion: \<open>RegisterWorker\<close>, \<open>Heartbeat\<close>, \<open>ClaimTask\<close> with
  its two claim statements and its long poll, and the partition look-ups
  (\<open>src/coordinator.cpp:231-275, 507-552, 578-600\<close>). Times are in milliseconds. The row a claim
  takes among those of equal priority is PostgreSQL's choice (\<open>pick\<close>), as are the rows that other
  transactions hold locked (\<open>locked\<close>), which SKIP LOCKED passes over.
\<close>

section \<open>Workers\<close>

definition worker_rows :: "string \<Rightarrow> db \<Rightarrow> worker_row list" where
  "worker_rows w db = filter (\<lambda>r. wk_id r = w) (db_workers db)"

definition register_worker :: "int \<Rightarrow> string \<Rightarrow> string \<Rightarrow> int \<Rightarrow> db \<Rightarrow> int \<times> db" where
  "register_worker now w tc slots db =
     (case worker_rows w db of
        r # _ \<Rightarrow> (wk_part r, db\<lparr>db_workers := upd_where (\<lambda>r. wk_id r = w)
                   (\<lambda>r. r\<lparr>wk_toolchain := tc, wk_slots := slots, wk_last_seen := now\<rparr>) (db_workers db)\<rparr>)
      | [] \<Rightarrow> let part = int (length (db_workers db))
             in (part, db\<lparr>db_workers := db_workers db @
                  [\<lparr>wk_id = w, wk_toolchain = tc, wk_slots = slots, wk_part = part, wk_last_seen = now\<rparr>]\<rparr>))"

definition heartbeat_leases :: "int \<Rightarrow> int \<Rightarrow> string \<Rightarrow> db \<Rightarrow> db" where
  "heartbeat_leases lease now w db =
     upd_tasks (\<lambda>t. t_lease_owner t = Some w \<and> t_state t = TRunning) (\<lambda>t. t\<lparr>t_lease_until := Some (now + lease)\<rparr>) db"

definition heartbeat_seen :: "int \<Rightarrow> string \<Rightarrow> db \<Rightarrow> db" where
  "heartbeat_seen now w db =
     db\<lparr>db_workers := upd_where (\<lambda>r. wk_id r = w) (\<lambda>r. r\<lparr>wk_last_seen := now\<rparr>) (db_workers db)\<rparr>"

definition heartbeat :: "int \<Rightarrow> int \<Rightarrow> string \<Rightarrow> db \<Rightarrow> db" where
  "heartbeat lease now w db = heartbeat_seen now w (heartbeat_leases lease now w db)"

definition live_partitions :: "int \<Rightarrow> db \<Rightarrow> int" where
  "live_partitions now db =
     max 1 (case map wk_part (filter (\<lambda>r. wk_last_seen r > now - 30000) (db_workers db)) of
              [] \<Rightarrow> 1 | p # ps \<Rightarrow> fold max ps p + 1)"

text \<open>The partition of a worker, with the map the coordinator keeps in memory.\<close>

definition partition_of :: "string \<Rightarrow> (string \<rightharpoonup> int) \<Rightarrow> db \<Rightarrow> int \<times> (string \<rightharpoonup> int)" where
  "partition_of w parts db =
     (case parts w of
        Some p \<Rightarrow> (p, parts)
      | None \<Rightarrow> let p = (case worker_rows w db of r # _ \<Rightarrow> wk_part r | [] \<Rightarrow> -1) in (p, parts(w \<mapsto> p)))"

section \<open>Claims\<close>

record assignment =
  a_uid :: nat
  a_attempt :: nat
  a_kind :: int
  a_name :: string
  a_inputs :: "string list"
  a_input_names :: "string list"
  a_args :: "string list"

definition eligible :: "int \<Rightarrow> string \<Rightarrow> string \<Rightarrow> int option \<Rightarrow> nat set \<Rightarrow> task_row \<Rightarrow> bool" where
  "eligible now w tc part locked t \<longleftrightarrow>
     t_state t = TReady \<and> t_toolchain t = tc \<and> (case part of None \<Rightarrow> True | Some p \<Rightarrow> t_part t = p) \<and>
     (t_last_failed_by t \<noteq> Some w \<or> (case t_ready_at t of None \<Rightarrow> False | Some a \<Rightarrow> a < now - 3000)) \<and>
     t_uid t \<notin> locked"

text \<open>\<open>ORDER BY priority DESC LIMIT 1\<close>\<close>

definition best_tasks :: "task_row list \<Rightarrow> task_row list" where
  "best_tasks ts = filter (\<lambda>t. \<forall>s\<in>set ts. t_priority s \<le> t_priority t) ts"

definition pick_task :: "nat \<Rightarrow> task_row list \<Rightarrow> task_row option" where
  "pick_task pick ts = (let bs = best_tasks ts in if bs = [] then None else Some (bs ! (pick mod length bs)))"

definition mark_claimed :: "int \<Rightarrow> int \<Rightarrow> string \<Rightarrow> task_row \<Rightarrow> task_row" where
  "mark_claimed lease now w t = t\<lparr>t_state := TRunning, t_lease_owner := Some w, t_attempts := t_attempts t + 1,
     t_lease_until := Some (now + lease)\<rparr>"

definition assignment_of :: "task_row \<Rightarrow> assignment" where
  "assignment_of t = \<lparr>a_uid = t_uid t, a_attempt = t_attempts t, a_kind = t_kind t, a_name = t_name t,
     a_inputs = split_lines (case t_inputs t of Some s \<Rightarrow> s | None \<Rightarrow> text_of (t_input t)),
     a_input_names = split_lines (case t_input_names t of Some s \<Rightarrow> s | None \<Rightarrow> ''in.i''),
     a_args = split_lines (t_args t)\<rparr>"

text \<open>One of the two UPDATE statements: \<open>part\<close> is \<open>None\<close> for the one that steals.\<close>

definition claim_stmt ::
    "int \<Rightarrow> int \<Rightarrow> string \<Rightarrow> string \<Rightarrow> int option \<Rightarrow> nat set \<Rightarrow> nat \<Rightarrow> db \<Rightarrow> assignment option \<times> db" where
  "claim_stmt lease now w tc part locked pick db =
     (case pick_task pick (filter (eligible now w tc part locked) (db_tasks db)) of
        None \<Rightarrow> (None, db)
      | Some t \<Rightarrow> (Some (assignment_of (mark_claimed lease now w t)),
                  upd_tasks (\<lambda>s. t_uid s = t_uid t) (mark_claimed lease now w) db))"

definition try_claim ::
    "int \<Rightarrow> int \<Rightarrow> string \<Rightarrow> string \<Rightarrow> int \<Rightarrow> nat set \<Rightarrow> nat \<Rightarrow> db \<Rightarrow> assignment option \<times> db" where
  "try_claim lease now w tc part locked pick db =
     (case claim_stmt lease now w tc (Some part) locked pick db of
        (Some a, db') \<Rightarrow> (Some a, db')
      | (None, db') \<Rightarrow> claim_stmt lease now w tc None locked pick db')"

text \<open>
  The long poll. A round is the time it starts at, whether the client has gone away, the rows that
  are locked and PostgreSQL's choice, and what the other calls do to the tables before the next
  round. \<open>None\<close> when the rounds given end before the call answers.
\<close>

record poll_round =
  p_now :: int
  p_cancelled :: bool
  p_locked :: "nat set"
  p_pick :: nat
  p_others :: "db \<Rightarrow> db"

fun claim_loop :: "int \<Rightarrow> int \<Rightarrow> string \<Rightarrow> string \<Rightarrow> int \<Rightarrow> poll_round list \<Rightarrow> db \<Rightarrow> (assignment option \<times> db) option" where
  "claim_loop lease deadline w tc part [] db = None"
| "claim_loop lease deadline w tc part (p # ps) db =
     (case try_claim lease (p_now p) w tc part (p_locked p) (p_pick p) db of
        (Some a, db') \<Rightarrow> Some (Some a, db')
      | (None, db') \<Rightarrow>
          if deadline - p_now p \<le> 0 \<or> p_cancelled p then Some (None, db')
          else claim_loop lease deadline w tc part ps (p_others p db'))"

definition claim_task ::
    "int \<Rightarrow> int \<Rightarrow> string \<Rightarrow> string \<Rightarrow> int \<Rightarrow> (string \<rightharpoonup> int) \<Rightarrow> poll_round list \<Rightarrow> db
      \<Rightarrow> (assignment option \<times> db) option \<times> (string \<rightharpoonup> int)" where
  "claim_task lease now w tc wait parts rounds db =
     (let deadline = now + min (max wait 0) 10000; (part, parts') = partition_of w parts db
      in (claim_loop lease deadline w tc part rounds db, parts'))"

section \<open>What a claim gives\<close>

lemma best_tasks_Nil: "best_tasks ts = [] \<longleftrightarrow> ts = []"
proof
  assume b: "best_tasks ts = []"
  show "ts = []"
  proof (rule ccontr)
    assume "ts \<noteq> []"
    then have "Max (t_priority ` set ts) \<in> t_priority ` set ts" by (intro Max_in) auto
    then obtain t where "t \<in> set ts" "t_priority t = Max (t_priority ` set ts)" by auto
    then have "t \<in> set (best_tasks ts)" by (simp add: best_tasks_def)
    with b show False by simp
  qed
qed (simp add: best_tasks_def)

lemma pick_task_None: "pick_task pick ts = None \<longleftrightarrow> ts = []"
  by (simp add: pick_task_def Let_def best_tasks_Nil)

lemma pick_task_Some:
  assumes "pick_task pick ts = Some t"
  shows "t \<in> set ts" "\<And>s. s \<in> set ts \<Longrightarrow> t_priority s \<le> t_priority t"
proof -
  from assms have "best_tasks ts \<noteq> []" "t = best_tasks ts ! (pick mod length (best_tasks ts))"
    by (auto simp: pick_task_def Let_def split: if_splits)
  then have "t \<in> set (best_tasks ts)" by (simp add: nth_mem)
  then show "t \<in> set ts" "\<And>s. s \<in> set ts \<Longrightarrow> t_priority s \<le> t_priority t"
    by (auto simp: best_tasks_def)
qed

text \<open>What a worker is told to run: the digests in \<open>C\<close>, in the order of the dependencies.\<close>

definition assignment_ok :: "string set \<Rightarrow> db \<Rightarrow> task_row \<Rightarrow> assignment \<Rightarrow> bool" where
  "assignment_ok C db t a \<longleftrightarrow>
     a_uid a = t_uid t \<and> a_kind a = t_kind t \<and> a_name a = t_name t \<and> a_args a = split_lines (t_args t) \<and>
     (if t_kind t = 0 then \<exists>h\<in>C. t_input t = Some h \<and> a_inputs a = [h] \<and> a_input_names a = [''in.i'']
      else let deps = dep_rows (t_build t) (t_id t) db
           in deps \<noteq> [] \<and> column (dep_names deps) \<longrightarrow>
              a_inputs a = dep_digests deps \<and> a_input_names a = dep_names deps \<and> set (a_inputs a) \<subseteq> C)"

lemma dep_rows_fin:
  assumes con: "consistent sha m C E X W db" and t: "t \<in> set (db_tasks db)" "t_pending t = 0"
    and d: "d \<in> set (dep_rows (t_build t) (t_id t) db)"
  shows "d \<in> set (db_tasks db)" "fin (t_state d)" "\<exists>h\<in>C. t_output d = Some h" "t_build d = t_build t"
proof -
  from d obtain e where e: "e \<in> set (dep_edges (t_build t) (t_id t) db)" "d \<in> set (task_rows (t_build t) (d_dep e) db)"
    by (auto simp: dep_rows_def dep_edges_def)
  then have dt: "d \<in> set (db_tasks db)" "t_build d = t_build t" "t_id d = d_dep e" by (auto simp: task_rows_mem)
  then show "d \<in> set (db_tasks db)" "t_build d = t_build t" by simp_all
  have "fin_at db (t_build t) (d_dep e)"
    by (rule pending_zero(1)[OF consistentD(5)[OF con t(1)] t(2) e(1)])
  then show f: "fin (t_state d)" using fin_at_row[OF consistentD(1)[OF con] dt(1)] dt(2,3) by simp
  show "\<exists>h\<in>C. t_output d = Some h" using consistentD(5)[OF con dt(1)] f by (simp add: task_ok_def)
qed

lemma dep_digests_in:
  assumes "consistent sha m C E X W db" "t \<in> set (db_tasks db)" "t_pending t = 0"
  shows "set (dep_digests (dep_rows (t_build t) (t_id t) db)) \<subseteq> C"
  using dep_rows_fin[OF assms] by (fastforce simp: dep_digests_def text_of_def)

lemma column_digests:
  assumes "cache_ok C db" "set hs \<subseteq> C"
  shows "column hs"
  using assms by (auto simp: cache_ok_def column_def)

lemma assignment_of_ok:
  assumes con: "consistent sha m C E X W db" and t: "t \<in> set (db_tasks db)" "t_state t = TReady"
  shows "assignment_ok C db t (assignment_of (mark_claimed lease now w t))"
proof -
  have tok: "task_ok sha m C E W db t" by (rule consistentD(5)[OF con t(1)])
  then have w: "work_ok C db t" using t(2) by (simp add: task_ok_def)
  have p: "t_pending t = 0" using not_waiting_pending[OF tok] t(2) by simp
  note ck = consistentD(4)[OF con]
  show ?thesis
  proof (cases "t_kind t = 0")
    case True
    with w obtain h where h: "h \<in> C" "t_input t = Some h" "t_inputs t = Some h" "t_input_names t = Some ''in.i''"
      by (auto simp: work_ok_def)
    have "column [h]" "column [''in.i'']" using ck h(1) by (auto simp: column_def cache_ok_def)
    from split_join_lines[OF this(1)] split_join_lines[OF this(2)] True h show ?thesis
      by (simp add: assignment_ok_def assignment_of_def mark_claimed_def)
  next
    case False
    define deps where "deps = dep_rows (t_build t) (t_id t) db"
    have ins: "text_of (t_inputs t) = join_lines (dep_digests deps)"
      and nms: "text_of (t_input_names t) = join_lines (dep_names deps)"
      using w False by (simp_all add: work_ok_def deps_def Let_def)
    have sub: "set (dep_digests deps) \<subseteq> C" unfolding deps_def by (rule dep_digests_in[OF con t(1) p])
    have c: "column (dep_digests deps)" by (rule column_digests[OF ck sub])
    have "a_inputs (assignment_of (mark_claimed lease now w t)) = dep_digests deps \<and>
          a_input_names (assignment_of (mark_claimed lease now w t)) = dep_names deps"
      if ne: "deps \<noteq> []" "column (dep_names deps)"
    proof -
      have "join_lines (dep_digests deps) \<noteq> []" "join_lines (dep_names deps) \<noteq> []"
        using join_lines_Nil_iff[OF c] join_lines_Nil_iff[OF ne(2)] ne(1)
        by (simp_all add: dep_digests_def dep_names_def)
      then have "t_inputs t = Some (join_lines (dep_digests deps))" "t_input_names t = Some (join_lines (dep_names deps))"
        using ins nms by (auto simp: text_of_def split: option.splits)
      then show ?thesis
        using split_join_lines[OF c] split_join_lines[OF ne(2)]
        by (simp add: assignment_of_def mark_claimed_def)
    qed
    with False sub show ?thesis
      by (auto simp: assignment_ok_def assignment_of_def mark_claimed_def deps_def Let_def)
  qed
qed

lemma claim_stmt_ok:
  assumes con: "consistent sha m C {} X {} db"
  obtains (none) "claim_stmt lease now w tc part locked pick db = (None, db)"
      "\<And>t. t \<in> set (db_tasks db) \<Longrightarrow> \<not> eligible now w tc part locked t"
    | (claimed) t where "t \<in> set (db_tasks db)" "eligible now w tc part locked t"
      "\<And>s. s \<in> set (db_tasks db) \<Longrightarrow> eligible now w tc part locked s \<Longrightarrow> t_priority s \<le> t_priority t"
      "claim_stmt lease now w tc part locked pick db =
         (Some (assignment_of (mark_claimed lease now w t)), set_row (mark_claimed lease now w t) db)"
      "consistent sha m C {} X {} (set_row (mark_claimed lease now w t) db)"
      "evolves db (set_row (mark_claimed lease now w t) db)"
proof (cases "pick_task pick (filter (eligible now w tc part locked) (db_tasks db))")
  case None
  then have "filter (eligible now w tc part locked) (db_tasks db) = []" by (simp add: pick_task_None)
  then show thesis using none None by (simp add: claim_stmt_def filter_empty_conv)
next
  case (Some t)
  note pk = pick_task_Some[OF Some]
  then have t: "t \<in> set (db_tasks db)" and e: "eligible now w tc part locked t" by simp_all
  note k = consistentD(1)[OF con]
  let ?t = "mark_claimed lease now w t"
  have c: "same_cols t ?t" by (simp add: same_cols_def mark_claimed_def)
  have st: "t_state t = TReady" using e by (simp add: eligible_def)
  then have nterm: "\<not> terminal (t_state t)" by (simp add: terminal_def)
  have "task_ok sha m C {} {} db t" by (rule consistentD(5)[OF con t])
  then have "task_ok sha m C {} {} db ?t"
    using st unfolding task_ok_def by (elim conjE) (simp add: mark_claimed_def key_ok_def work_ok_def)
  then have "consistent sha m C {} X {} (set_row ?t db)"
    by (intro consistent_unfinished[OF con t c nterm]) (simp_all add: mark_claimed_def)
  moreover have "evolves db (set_row ?t db)"
    by (rule evolves_set_row[OF k t c nterm]) (simp add: mark_claimed_def)
  moreover have "upd_tasks (\<lambda>s. t_uid s = t_uid t) (mark_claimed lease now w) db = set_row ?t db"
    by (rule upd_tasks_uid[OF k t]) (simp add: mark_claimed_def)
  ultimately show thesis using claimed[OF t e] pk(2) Some by (simp add: claim_stmt_def)
qed

section \<open>Workers and leases\<close>

lemma consistent_workers:
  assumes "consistent sha m C E X W db"
  shows "consistent sha m C E X W (db\<lparr>db_workers := ws\<rparr>)" "evolves db (db\<lparr>db_workers := ws\<rparr>)"
proof -
  note D = consistentD[OF assms]
  show "consistent sha m C E X W (db\<lparr>db_workers := ws\<rparr>)"
  proof (rule consistentI)
    show "keys_ok (db\<lparr>db_workers := ws\<rparr>)" "cache_ok C (db\<lparr>db_workers := ws\<rparr>)"
      using D(1,4) by (simp_all add: keys_ok_def cache_ok_def)
    show "deps_ok (db\<lparr>db_workers := ws\<rparr>)" "edges_ok E (db\<lparr>db_workers := ws\<rparr>)"
      using D(2,3) same_tasks_deps(6,7)[of "db\<lparr>db_workers := ws\<rparr>" db] by simp_all
    show "task_ok sha m C E W (db\<lparr>db_workers := ws\<rparr>) t" if "t \<in> set (db_tasks (db\<lparr>db_workers := ws\<rparr>))" for t
      using that by (intro task_ok_same[OF _ _ _ D(5)]) (simp_all add: cached_as_def)
    show "build_ok E X (db\<lparr>db_workers := ws\<rparr>) r" if "r \<in> set (db_builds (db\<lparr>db_workers := ws\<rparr>))" for r
      using D(6)[of r] that build_ok_same[of "db\<lparr>db_workers := ws\<rparr>" db] by simp
  qed
  show "evolves db (db\<lparr>db_workers := ws\<rparr>)"
    unfolding evolves_def by (intro conjI ballI) (auto intro: rev_bexI)
qed

lemma register_worker_ok:
  assumes "consistent sha m C E X W db"
  shows "consistent sha m C E X W (snd (register_worker now w tc slots db))"
    "evolves db (snd (register_worker now w tc slots db))"
  using consistent_workers[OF assms] by (auto simp: register_worker_def Let_def split: list.splits)

lemma heartbeat_seen_ok:
  assumes "consistent sha m C E X W db"
  shows "consistent sha m C E X W (heartbeat_seen now w db)" "evolves db (heartbeat_seen now w db)"
  using consistent_workers[OF assms] by (auto simp: heartbeat_seen_def)

lemma heartbeat_leases_ok:
  assumes con: "consistent sha m C E X W db"
  shows "consistent sha m C E X W (heartbeat_leases lease now w db)" "evolves db (heartbeat_leases lease now w db)"
proof -
  let ?P = "\<lambda>t. t_lease_owner t = Some w \<and> t_state t = TRunning" and ?f = "\<lambda>t. t\<lparr>t_lease_until := Some (now + lease)\<rparr>"
  have f: "same_cols t (?f t) \<and> \<not> terminal (t_state t) \<and> \<not> fin (t_state (?f t)) \<and> t_attempts t \<le> t_attempts (?f t) \<and>
      (t_state (?f t) = TFailed \<longrightarrow> t_build t \<in> X)" if "t \<in> set (db_tasks db)" "?P t" for t
    using that by (simp add: same_cols_def terminal_def)
  have ok: "task_ok sha m C E W db' (?f t)" if "t \<in> set (db_tasks db)" "?P t" "task_ok sha m C E W db' t" for t db'
    using that(2,3) unfolding task_ok_def by (elim conjE) (simp add: key_ok_def work_ok_def)
  note upd = consistent_upd_tasks[OF con, of ?P ?f, OF f ok]
  from upd(1) show "consistent sha m C E X W (heartbeat_leases lease now w db)"
    unfolding heartbeat_leases_def by blast
  from upd(2) show "evolves db (heartbeat_leases lease now w db)"
    unfolding heartbeat_leases_def by blast
qed

text \<open>A heartbeat extends the leases of exactly the tasks this worker runs.\<close>

lemma heartbeat_rows:
  "db_tasks (heartbeat lease now w db) =
     map (\<lambda>t. if t_lease_owner t = Some w \<and> t_state t = TRunning then t\<lparr>t_lease_until := Some (now + lease)\<rparr> else t) (db_tasks db)"
  by (simp add: heartbeat_def heartbeat_seen_def heartbeat_leases_def upd_tasks_def upd_where_def)

text \<open>Partitions are numbered in the order of registration, and a worker keeps its own.\<close>

definition partitions_ok :: "db \<Rightarrow> bool" where
  "partitions_ok db \<longleftrightarrow> map wk_part (db_workers db) = map int [0..<length (db_workers db)] \<and>
     distinct (map wk_id (db_workers db))"

lemma register_partitions:
  assumes "partitions_ok db"
  shows "partitions_ok (snd (register_worker now w tc slots db))"
proof (cases "worker_rows w db")
  case Nil
  then have "w \<notin> wk_id ` set (db_workers db)" by (auto simp: worker_rows_def filter_empty_conv)
  with Nil assms show ?thesis by (simp add: register_worker_def Let_def partitions_ok_def)
next
  case (Cons r rs)
  with assms show ?thesis by (simp add: register_worker_def partitions_ok_def map_upd_where_same)
qed

lemma register_part:
  assumes "partitions_ok db" "register_worker now w tc slots db = (p, db')"
  shows "0 \<le> p" "p < int (length (db_workers db'))" "fst (partition_of w Map.empty db') = p"
proof -
  have wrow: "worker_rows w db' \<noteq> [] \<and> wk_part (hd (worker_rows w db')) = p"
  proof (cases "worker_rows w db")
    case Nil
    with assms(2) show ?thesis by (auto simp: register_worker_def Let_def worker_rows_def)
  next
    case (Cons r rs)
    have "filter (\<lambda>r. wk_id r = w) (upd_where (\<lambda>r. wk_id r = w) (\<lambda>r. r\<lparr>wk_toolchain := tc, wk_slots := slots, wk_last_seen := now\<rparr>) ws)
        = map (\<lambda>r. r\<lparr>wk_toolchain := tc, wk_slots := slots, wk_last_seen := now\<rparr>) (filter (\<lambda>r. wk_id r = w) ws)"
      for ws :: "worker_row list" by (induction ws) (simp_all add: tab_simps)
    with Cons assms(2) show ?thesis by (auto simp: register_worker_def worker_rows_def)
  qed
  then show "fst (partition_of w Map.empty db') = p"
    by (cases "worker_rows w db'") (simp_all add: partition_of_def)
  have "partitions_ok db'" using register_partitions[OF assms(1), of now w tc slots] assms(2) by simp
  moreover have "p \<in> set (map wk_part (db_workers db'))"
    using wrow hd_in_set[of "worker_rows w db'"] by (auto simp: worker_rows_def)
  ultimately show "0 \<le> p" "p < int (length (db_workers db'))" by (auto simp: partitions_ok_def)
qed

text \<open>The partitions counted at submission cover every worker seen in the last half minute.\<close>

lemma live_partitions_cover:
  assumes "r \<in> set (db_workers db)" "wk_last_seen r > now - 30000"
  shows "wk_part r < live_partitions now db"
proof -
  have "p \<le> fold max ps p \<and> (\<forall>x\<in>set ps. x \<le> fold max ps p)" for ps and p :: int
  proof (induction ps arbitrary: p)
    case (Cons a ps)
    from Cons[of "max a p"] show ?case by auto
  qed simp
  then have mx: "x \<le> fold max ps p" if "x = p \<or> x \<in> set ps" for x ps and p :: int
    using that by blast
  let ?ps = "map wk_part (filter (\<lambda>r. wk_last_seen r > now - 30000) (db_workers db))"
  have "wk_part r \<in> set ?ps" using assms by simp
  then obtain p ps where ps: "?ps = p # ps" "wk_part r = p \<or> wk_part r \<in> set ps" by (cases ?ps) auto
  with mx[OF ps(2)] show ?thesis unfolding live_partitions_def ps(1) list.case by linarith
qed

lemma live_partitions_pos: "1 \<le> live_partitions now db"
  by (simp add: live_partitions_def)

lemma register_live:
  assumes "register_worker now w tc slots db = (p, db')"
  shows "p < live_partitions now db'"
proof -
  have "\<exists>r\<in>set (db_workers db'). wk_part r = p \<and> wk_last_seen r = now"
  proof (cases "worker_rows w db")
    case Nil
    with assms show ?thesis by (auto simp: register_worker_def Let_def)
  next
    case (Cons r rs)
    then have "r \<in> set (worker_rows w db)" by simp
    then have "r \<in> set (db_workers db)" "wk_id r = w" by (simp_all add: worker_rows_def)
    with upd_where_memI[of r "db_workers db" "\<lambda>r. wk_id r = w" "\<lambda>r. r\<lparr>wk_toolchain := tc, wk_slots := slots, wk_last_seen := now\<rparr>"]
      assms Cons show ?thesis
      by (auto simp: register_worker_def intro!: bexI[of _ "r\<lparr>wk_toolchain := tc, wk_slots := slots, wk_last_seen := now\<rparr>"])
  qed
  then obtain r where "r \<in> set (db_workers db')" "wk_part r = p" "wk_last_seen r = now" by blast
  with live_partitions_cover[of r db' now] show ?thesis by simp
qed

end
