(* ===== verification/Dc_Graph.thy ===== *)
theory Dc_Graph
  imports Dc_Prelude
begin

text \<open>
  \<open>src/graph.cpp\<close>: the topological order (Kahn's algorithm), the upward rank that orders the
  claims, and the partition of the graph over the workers. Vectors are lists updated by index;
  \<open>int64_t\<close> sums (costs come from the request) wrap at 64 bits, \<open>int\<close> values are integers. Kahn's loop over the growing \<open>order\<close> vector carries fuel; one more unit than
  there are tasks is enough (\<open>kahn_loop_finish\<close>), so \<open>OutOfFuel\<close> never comes out.
\<close>

section \<open>Graphs\<close>

definition kCompile :: int where "kCompile = 0"
definition kArchive :: int where "kArchive = 1"
definition kLink :: int where "kLink = 2"

record graph_task =
  g_id :: int
  g_kind :: int
  g_cost :: int
  g_deps :: "int list"

datatype topo_error = BadIds | BadDep nat int | DependencyCycle | OutOfFuel

fun topo_msg :: "topo_error \<Rightarrow> string" where
  "topo_msg BadIds = ''task ids must be 0..n-1''"
| "topo_msg (BadDep i d) = ''task '' @ to_string (int i) @ '' has a bad dependency '' @ to_string d"
| "topo_msg DependencyCycle = ''dependency cycle''"
| "topo_msg OutOfFuel = ''''"

section \<open>The code\<close>

subsection \<open>Topological order\<close>

text \<open>State of the first loop: successor lists and in-degrees.\<close>

fun scan_deps :: "nat \<Rightarrow> nat \<Rightarrow> int list \<Rightarrow> nat list list \<times> int list \<Rightarrow> topo_error + nat list list \<times> int list" where
  "scan_deps n i [] st = Inr st"
| "scan_deps n i (d # ds) (succ, indeg) =
     (if d < 0 \<or> d \<ge> int n \<or> d = int i then Inl (BadDep i d)
      else scan_deps n i ds (succ[nat d := succ ! nat d @ [i]], indeg[i := indeg ! i + 1]))"

fun scan_tasks :: "nat \<Rightarrow> nat \<Rightarrow> graph_task list \<Rightarrow> nat list list \<times> int list \<Rightarrow> topo_error + nat list list \<times> int list" where
  "scan_tasks n i [] st = Inr st"
| "scan_tasks n i (t # ts) st =
     (if g_id t \<noteq> int i then Inl BadIds
      else case scan_deps n i (g_deps t) st of
             Inl e \<Rightarrow> Inl e
           | Inr st' \<Rightarrow> scan_tasks n (Suc i) ts st')"

fun relax :: "nat list \<Rightarrow> int list \<times> nat list \<Rightarrow> int list \<times> nat list" where
  "relax [] st = st"
| "relax (s # ss) (indeg, order) =
     (let indeg' = indeg[s := indeg ! s - 1]
      in relax ss (indeg', if indeg' ! s = 0 then order @ [s] else order))"

fun kahn_loop :: "nat \<Rightarrow> nat list list \<Rightarrow> nat \<Rightarrow> int list \<times> nat list \<Rightarrow> nat list option" where
  "kahn_loop 0 succ k st = None"
| "kahn_loop (Suc fuel) succ k (indeg, order) =
     (if k < length order then kahn_loop fuel succ (Suc k) (relax (succ ! (order ! k)) (indeg, order))
      else Some order)"

definition topo_order :: "graph_task list \<Rightarrow> topo_error + nat list" where
  "topo_order t =
     (let n = length t
      in case scan_tasks n 0 t (replicate n [], replicate n 0) of
           Inl e \<Rightarrow> Inl e
         | Inr (succ, indeg) \<Rightarrow>
             (case kahn_loop (Suc n) succ 0 (indeg, filter (\<lambda>i. indeg ! i = 0) [0..<n]) of
                None \<Rightarrow> Inl OutOfFuel
              | Some order \<Rightarrow> if length order \<noteq> n then Inl DependencyCycle else Inr order))"

subsection \<open>Upward rank\<close>

definition succ_lists :: "graph_task list \<Rightarrow> nat list list" where
  "succ_lists t =
     foldl (\<lambda>succ x. foldl (\<lambda>succ d. succ[nat d := succ ! nat d @ [nat (g_id x)]]) succ (g_deps x))
       (replicate (length t) []) t"

definition best_of :: "int list \<Rightarrow> nat list \<Rightarrow> int" where
  "best_of rank ss = foldl (\<lambda>best s. max best (rank ! s)) 0 ss"

definition upward_rank :: "graph_task list \<Rightarrow> int list" where
  "upward_rank t =
     (let order = (case topo_order t of Inl _ \<Rightarrow> [] | Inr order \<Rightarrow> order);
          succ = succ_lists t
      in foldl (\<lambda>rank i. rank[i := i64 (g_cost (t ! i) + best_of rank (succ ! i))])
           (replicate (length t) 0) (rev order))"

subsection \<open>Partition\<close>

fun claim_deps :: "graph_task list \<Rightarrow> int \<Rightarrow> int list \<Rightarrow> int list \<Rightarrow> int list" where
  "claim_deps t units [] unit = unit"
| "claim_deps t units (d # ds) unit =
     claim_deps t units ds
       (if g_kind (t ! nat d) = kCompile \<and> unit ! nat d < 0 then unit[nat d := units] else unit)"

fun claim_from :: "graph_task list \<Rightarrow> int \<Rightarrow> nat list \<Rightarrow> int list \<times> int \<Rightarrow> int list \<times> int" where
  "claim_from t kind [] st = st"
| "claim_from t kind (i # is) (unit, units) =
     (if g_kind (t ! i) \<noteq> kind \<or> unit ! i \<ge> 0 then claim_from t kind is (unit, units)
      else claim_from t kind is (claim_deps t units (g_deps (t ! i)) (unit[i := units]), units + 1))"

fun claim_rest :: "nat list \<Rightarrow> int list \<times> int \<Rightarrow> int list \<times> int" where
  "claim_rest [] st = st"
| "claim_rest (i # is) (unit, units) =
     (if unit ! i < 0 then claim_rest is (unit[i := units], units + 1) else claim_rest is (unit, units))"

definition assign_units :: "graph_task list \<Rightarrow> int list \<times> int" where
  "assign_units t =
     (let ix = [0..<length t];
          st0 = (replicate (length t) (- 1), 0);
          st1 = claim_from t kArchive ix st0;
          st2 = claim_from t kLink ix st1
      in claim_rest ix st2)"

definition unit_costs :: "graph_task list \<Rightarrow> int list \<Rightarrow> int \<Rightarrow> int list" where
  "unit_costs t unit units =
     foldl (\<lambda>cost i. cost[nat (unit ! i) := i64 (cost ! nat (unit ! i) + max 1 (g_cost (t ! i)))])
       (replicate (nat units) 0) [0..<length t]"

text \<open>\<open>std::min_element\<close>: the first of the smallest.\<close>

definition min_index :: "int list \<Rightarrow> nat" where
  "min_index xs = foldl (\<lambda>b i. if xs ! i < xs ! b then i else b) 0 [1..<length xs]"

fun lpt :: "int list \<Rightarrow> nat list \<Rightarrow> int list \<times> nat list \<Rightarrow> int list \<times> nat list" where
  "lpt cost [] st = st"
| "lpt cost (u # us) (load, unit_part) =
     (let p = min_index load
      in lpt cost us (load[p := i64 (load ! p + cost ! u)], unit_part[u := p]))"

definition partition_graph :: "graph_task list \<Rightarrow> int \<Rightarrow> nat list" where
  "partition_graph t parts =
     (if parts \<le> 1 \<or> t = [] then replicate (length t) 0
      else let (unit, units) = assign_units t;
               cost = unit_costs t unit units;
               by_cost = sort_key (\<lambda>u. - (cost ! u)) [0..<nat units];
               (load, unit_part) = lpt cost by_cost (replicate (nat parts) 0, replicate (nat units) 0)
           in map (\<lambda>i. unit_part ! nat (unit ! i)) [0..<length t])"

section \<open>What a graph is\<close>

definition deps_of :: "graph_task list \<Rightarrow> nat \<Rightarrow> nat list" where
  "deps_of t i = map nat (g_deps (t ! i))"

definition valid_graph :: "graph_task list \<Rightarrow> bool" where
  "valid_graph t \<longleftrightarrow>
     (\<forall>i<length t. g_id (t ! i) = int i \<and>
        (\<forall>d\<in>set (g_deps (t ! i)). 0 \<le> d \<and> d < int (length t) \<and> d \<noteq> int i))"

definition dep_rel :: "graph_task list \<Rightarrow> (nat \<times> nat) set" where
  "dep_rel t = {(d, i). i < length t \<and> d \<in> set (deps_of t i)}"

definition topo_sorted :: "graph_task list \<Rightarrow> nat list \<Rightarrow> bool" where
  "topo_sorted t order \<longleftrightarrow>
     distinct order \<and> set order = {..<length t} \<and>
     (\<forall>j<length order. set (deps_of t (order ! j)) \<subseteq> set (take j order))"

lemma deps_of_range: "valid_graph t \<Longrightarrow> i < length t \<Longrightarrow> d \<in> set (deps_of t i) \<Longrightarrow> d < length t"
  by (force simp: valid_graph_def deps_of_def)

lemma finite_dep_rel: "valid_graph t \<Longrightarrow> finite (dep_rel t)"
  by (rule finite_subset[of _ "{..<length t} \<times> {..<length t}"]) (auto simp: dep_rel_def deps_of_range)

section \<open>The scan\<close>

text \<open>After scanning tasks \<open>0..<i\<close>: successor lists hold each edge as often as it is declared.\<close>

definition scanned :: "graph_task list \<Rightarrow> nat \<Rightarrow> nat list list \<times> int list \<Rightarrow> bool" where
  "scanned t i st \<longleftrightarrow>
     length (fst st) = length t \<and> length (snd st) = length t \<and>
     (\<forall>d<length t. \<forall>j. count_list (fst st ! d) j = (if j < i then count_list (deps_of t j) d else 0)) \<and>
     (\<forall>j<length t. snd st ! j = (if j < i then int (length (deps_of t j)) else 0))"

lemma scan_deps_Inr:
  assumes "scan_deps n i ds (succ, indeg) = Inr (succ', indeg')" "length succ = n" "length indeg = n" "i < n"
  shows "length succ' = n \<and> length indeg' = n \<and> (\<forall>d\<in>set ds. 0 \<le> d \<and> d < int n \<and> d \<noteq> int i) \<and>
    (\<forall>d<n. succ' ! d = succ ! d @ replicate (count_list (map nat ds) d) i) \<and>
    indeg' = indeg[i := indeg ! i + int (length ds)]"
  using assms
proof (induction n i ds "(succ, indeg)" arbitrary: succ indeg rule: scan_deps.induct)
  case (2 n i d ds succ indeg)
  then have d: "0 \<le> d" "d < int n" "d \<noteq> int i" by (auto split: if_splits)
  let ?s = "succ[nat d := succ ! nat d @ [i]]" and ?g = "indeg[i := indeg ! i + 1]"
  have IH: "length succ' = n \<and> length indeg' = n \<and> (\<forall>d\<in>set ds. 0 \<le> d \<and> d < int n \<and> d \<noteq> int i) \<and>
    (\<forall>d<n. succ' ! d = ?s ! d @ replicate (count_list (map nat ds) d) i) \<and>
    indeg' = ?g[i := ?g ! i + int (length ds)]"
    using 2 d by (intro 2(1)) (auto split: if_splits)
  have "?s ! e @ replicate (count_list (map nat ds) e) i
      = succ ! e @ replicate (count_list (map nat (d # ds)) e) i" if "e < n" for e
    using that d 2(3) by (cases "e = nat d") (simp_all add: replicate_app_Cons_same)
  with IH d 2(4,5) show ?case by (auto simp: algebra_simps)
qed (simp add: list_update_same_conv)

lemma scan_deps_Inl:
  assumes "scan_deps n i ds st = Inl e"
  obtains d where "e = BadDep i d" "d \<in> set ds" "d < 0 \<or> d \<ge> int n \<or> d = int i"
  using assms by (induction n i ds st rule: scan_deps.induct) (fastforce split: if_splits)+

lemma count_list_replicate: "count_list (replicate k x) y = (if x = y then k else 0)"
  by (induction k) auto

lemma scan_task_step:
  assumes "scanned t i st" "i < length t" "scan_deps (length t) i (g_deps (t ! i)) st = Inr st'"
  shows "scanned t (Suc i) st' \<and> (\<forall>d\<in>set (g_deps (t ! i)). 0 \<le> d \<and> d < int (length t) \<and> d \<noteq> int i)"
proof -
  obtain succ indeg succ' indeg' where st: "st = (succ, indeg)" "st' = (succ', indeg')"
    by (cases st, cases st') auto
  have l: "length succ = length t" "length indeg = length t" using assms(1) st by (auto simp: scanned_def)
  note r = scan_deps_Inr[OF assms(3)[unfolded st] l assms(2)]
  have "count_list (succ' ! d) j = (if j < Suc i then count_list (deps_of t j) d else 0)"
    if "d < length t" for d j
  proof -
    have "count_list (succ' ! d) j = count_list (succ ! d) j + (if i = j then count_list (deps_of t i) d else 0)"
      using r that by (simp add: count_list_replicate deps_of_def)
    moreover have "count_list (succ ! d) j = (if j < i then count_list (deps_of t j) d else 0)"
      using assms(1) that st by (simp add: scanned_def)
    ultimately show ?thesis by (auto simp: less_Suc_eq)
  qed
  moreover have "indeg' ! j = (if j < Suc i then int (length (deps_of t j)) else 0)" if "j < length t" for j
    using r assms(1,2) that st by (auto simp: scanned_def deps_of_def nth_list_update less_Suc_eq)
  ultimately show ?thesis using r st by (auto simp: scanned_def)
qed

lemma scan_tasks_Inr:
  assumes "scan_tasks (length t) i (drop i t) st = Inr st'" "scanned t i st" "i \<le> length t"
  shows "scanned t (length t) st' \<and>
    (\<forall>j. i \<le> j \<longrightarrow> j < length t \<longrightarrow> g_id (t ! j) = int j \<and>
       (\<forall>d\<in>set (g_deps (t ! j)). 0 \<le> d \<and> d < int (length t) \<and> d \<noteq> int j))"
  using assms
proof (induction "length t - i" arbitrary: i st)
  case 0
  then show ?case by simp
next
  case (Suc k)
  then have i: "i < length t" by simp
  then have dr: "drop i t = t ! i # drop (Suc i) t" by (simp add: Cons_nth_drop_Suc)
  from Suc.prems(1) dr obtain st1 where id: "g_id (t ! i) = int i"
    and s1: "scan_deps (length t) i (g_deps (t ! i)) st = Inr st1"
    and rest: "scan_tasks (length t) (Suc i) (drop (Suc i) t) st1 = Inr st'"
    by (auto split: if_splits sum.splits)
  note one = scan_task_step[OF Suc.prems(2) i s1]
  have "scanned t (length t) st' \<and> (\<forall>j. Suc i \<le> j \<longrightarrow> j < length t \<longrightarrow> g_id (t ! j) = int j \<and>
       (\<forall>d\<in>set (g_deps (t ! j)). 0 \<le> d \<and> d < int (length t) \<and> d \<noteq> int j))"
    using Suc.hyps(2) i one by (intro Suc.hyps(1)[OF _ rest]) auto
  with id one show ?case by (metis le_antisym not_less_eq_eq)
qed

lemma scan_tasks_Inl:
  assumes "scan_tasks (length t) i (drop i t) st = Inl e" "i \<le> length t"
  shows "(e = BadIds \<and> (\<exists>j<length t. g_id (t ! j) \<noteq> int j)) \<or>
    (\<exists>j d. e = BadDep j d \<and> j < length t \<and> d \<in> set (g_deps (t ! j)) \<and> (d < 0 \<or> d \<ge> int (length t) \<or> d = int j))"
  using assms
proof (induction "length t - i" arbitrary: i st)
  case 0
  then show ?case by simp
next
  case (Suc k)
  then have i: "i < length t" by simp
  then have dr: "drop i t = t ! i # drop (Suc i) t" by (simp add: Cons_nth_drop_Suc)
  show ?case
  proof (cases "g_id (t ! i) \<noteq> int i")
    case True
    with Suc.prems dr i show ?thesis by auto
  next
    case False
    show ?thesis
    proof (cases "scan_deps (length t) i (g_deps (t ! i)) st")
      case (Inl e')
      with Suc.prems dr False have "e = e'" by simp
      with Inl i show ?thesis by (auto elim: scan_deps_Inl)
    next
      case (Inr st1)
      with Suc.prems dr False have "scan_tasks (length t) (Suc i) (drop (Suc i) t) st1 = Inl e" by simp
      then show ?thesis using Suc.hyps(2) i by (intro Suc.hyps(1)) auto
    qed
  qed
qed

lemma scan_start: "scanned t 0 (replicate (length t) [], replicate (length t) 0)"
  by (simp add: scanned_def)

section \<open>Kahn's loop\<close>

lemma relax_result:
  assumes "relax ss (indeg, order) = (indeg', order')"
    and "\<forall>s\<in>set ss. s < length indeg \<and> int (count_list ss s) \<le> indeg ! s"
  shows "length indeg' = length indeg \<and>
    (\<forall>s<length indeg. indeg' ! s = indeg ! s - int (count_list ss s)) \<and>
    (\<exists>new. order' = order @ new \<and> distinct new \<and> set new = {s \<in> set ss. indeg ! s = int (count_list ss s)})"
  using assms
proof (induction ss "(indeg, order)" arbitrary: indeg order rule: relax.induct)
  case (2 s ss indeg order)
  let ?g = "indeg[s := indeg ! s - 1]"
  let ?o = "if ?g ! s = 0 then order @ [s] else order"
  have s: "s < length indeg" "int (count_list ss s) + 1 \<le> indeg ! s" using 2(3) by auto
  have pre: "\<forall>u\<in>set ss. u < length ?g \<and> int (count_list ss u) \<le> ?g ! u"
    using 2(3) s by (auto simp: nth_list_update)
  have "relax ss (?g, ?o) = (indeg', order')" using 2(2) by (simp add: Let_def)
  from 2(1)[OF refl this pre]
  obtain new where IH: "length indeg' = length ?g" "\<forall>u<length ?g. indeg' ! u = ?g ! u - int (count_list ss u)"
    "order' = ?o @ new" "distinct new" "set new = {u \<in> set ss. ?g ! u = int (count_list ss u)}" by auto
  have deg: "\<forall>u<length indeg. indeg' ! u = indeg ! u - int (count_list (s # ss) u)"
    using IH(1,2) s by (auto simp: nth_list_update)
  have same: "?g ! u = int (count_list ss u) \<longleftrightarrow> indeg ! u = int (count_list (s # ss) u)" if "u \<in> set ss" for u
    using pre that s by (auto simp: nth_list_update)
  show ?case
  proof (cases "?g ! s = 0")
    case True
    with s have c0: "count_list ss s = 0" by simp
    then have "s \<notin> set ss" by (simp add: count_list_0_iff)
    with True s c0 have "set (s # new) = {u \<in> set (s # ss). indeg ! u = int (count_list (s # ss) u)}"
      using IH(5) same by auto
    moreover have "distinct (s # new)" using IH(4,5) \<open>s \<notin> set ss\<close> by simp
    moreover have "order' = order @ (s # new)" using IH(3) True by simp
    ultimately show ?thesis using IH(1) deg by (metis length_list_update)
  next
    case False
    have "s \<in> set ss" if "indeg ! s = int (count_list (s # ss) s)"
    proof (rule ccontr)
      assume "s \<notin> set ss"
      then have "count_list ss s = 0" by (simp add: count_list_0_iff)
      with that False s show False by simp
    qed
    then have "set new = {u \<in> set (s # ss). indeg ! u = int (count_list (s # ss) u)}"
      using IH(5) same by auto
    moreover have "order' = order @ new" using IH(3) False by simp
    ultimately show ?thesis using IH(1,4) deg by (metis length_list_update)
  qed
qed simp

text \<open>The loop invariant: \<open>k\<close> tasks of \<open>order\<close> have been processed.\<close>

definition kahn_inv :: "graph_task list \<Rightarrow> nat \<Rightarrow> int list \<Rightarrow> nat list \<Rightarrow> bool" where
  "kahn_inv t k indeg order \<longleftrightarrow>
     length indeg = length t \<and> k \<le> length order \<and> distinct order \<and> set order \<subseteq> {..<length t} \<and>
     (\<forall>i<length t. indeg ! i = int (length (filter (\<lambda>d. d \<notin> set (take k order)) (deps_of t i)))) \<and>
     (\<forall>i<length t. i \<in> set order \<longleftrightarrow> indeg ! i = 0) \<and>
     (\<forall>j<length order. set (deps_of t (order ! j)) \<subseteq> set (take (min j k) order))"

lemma length_filter_insert:
  "u \<notin> A \<Longrightarrow> int (length (filter (\<lambda>d. d \<notin> insert u A) xs))
     = int (length (filter (\<lambda>d. d \<notin> A) xs)) - int (count_list xs u)"
  by (induction xs) auto

lemma length_filter_ge_count:
  "u \<notin> A \<Longrightarrow> count_list xs u \<le> length (filter (\<lambda>d. d \<notin> A) xs)"
  by (induction xs) auto

lemma kahn_inv_step:
  assumes inv: "kahn_inv t k indeg order" and k: "k < length order"
    and sc: "scanned t (length t) (succ, indeg0)" and "valid_graph t"
    and r: "relax (succ ! (order ! k)) (indeg, order) = (indeg', order')"
  shows "kahn_inv t (Suc k) indeg' order'"
proof -
  let ?u = "order ! k" and ?A = "set (take k order)"
  have len: "length indeg = length t" and dist: "distinct order" and sub: "set order \<subseteq> {..<length t}"
    and deg: "\<And>i. i < length t \<Longrightarrow> indeg ! i = int (length (filter (\<lambda>d. d \<notin> ?A) (deps_of t i)))"
    and zero: "\<And>i. i < length t \<Longrightarrow> i \<in> set order \<longleftrightarrow> indeg ! i = 0"
    and bef: "\<And>j. j < length order \<Longrightarrow> set (deps_of t (order ! j)) \<subseteq> set (take (min j k) order)"
    using inv by (auto simp: kahn_inv_def)
  have u: "?u < length t" "?u \<in> set order" using sub k nth_mem by auto
  have uA: "?u \<notin> ?A" using dist k by (simp add: in_set_conv_nth nth_eq_iff_index_eq)
  have cnt: "count_list (succ ! ?u) i = (if i < length t then count_list (deps_of t i) ?u else 0)" for i
    using sc u by (simp add: scanned_def)
  have rng: "i < length t" if "i \<in> set (succ ! ?u)" for i
    using that cnt[of i] by (cases "i < length t") (auto simp: count_list_0_iff)
  have pre: "\<forall>i\<in>set (succ ! ?u). i < length indeg \<and> int (count_list (succ ! ?u) i) \<le> indeg ! i"
    using rng len deg cnt length_filter_ge_count[OF uA] by simp
  from relax_result[OF r pre] obtain new where
    len': "length indeg' = length t"
    and deg': "\<And>i. i < length t \<Longrightarrow> indeg' ! i = indeg ! i - int (count_list (succ ! ?u) i)"
    and ord': "order' = order @ new" "distinct new"
    and new: "set new = {i \<in> set (succ ! ?u). indeg ! i = int (count_list (succ ! ?u) i)}"
    using len by auto
  have tk: "take (Suc k) order' = take k order @ [?u]" "set (take (Suc k) order') = insert ?u ?A"
    using k ord' by (simp_all add: take_Suc_conv_app_nth)
  have d': "indeg' ! i = int (length (filter (\<lambda>d. d \<notin> insert ?u ?A) (deps_of t i)))" if "i < length t" for i
    using that deg deg' cnt length_filter_insert[OF uA] by simp
  have newz: "i \<in> set new \<longleftrightarrow> i \<notin> set order \<and> indeg' ! i = 0" if i: "i < length t" for i
  proof
    assume n: "i \<in> set new"
    with new i deg' have "indeg' ! i = 0" by simp
    moreover have "indeg ! i \<noteq> 0" using n new by (auto simp: count_list_0_iff)
    ultimately show "i \<notin> set order \<and> indeg' ! i = 0" using zero i by blast
  next
    assume n: "i \<notin> set order \<and> indeg' ! i = 0"
    with zero i have "indeg ! i \<noteq> 0" by blast
    with n i deg' have "indeg ! i = int (count_list (succ ! ?u) i)" "count_list (succ ! ?u) i \<noteq> 0" by auto
    with new show "i \<in> set new" by (auto simp: count_list_0_iff)
  qed
  have stay: "indeg' ! i = 0" if "i \<in> set order" for i
  proof -
    from that sub have i: "i < length t" by auto
    with that zero deg have "filter (\<lambda>d. d \<notin> ?A) (deps_of t i) = []" by simp
    then have "filter (\<lambda>d. d \<notin> insert ?u ?A) (deps_of t i) = []" by (auto simp: filter_empty_conv)
    with d' i show ?thesis by simp
  qed
  have newsub: "set new \<subseteq> {..<length t}" using new rng by auto
  have zero': "i \<in> set order' \<longleftrightarrow> indeg' ! i = 0" if "i < length t" for i
    using newz[OF that] stay ord' by auto
  have bef': "set (deps_of t (order' ! j)) \<subseteq> set (take (min j (Suc k)) order')" if j: "j < length order'" for j
  proof (cases "j < length order")
    case True
    have "set (take (min j k) order) \<subseteq> set (take (min j (Suc k)) order)" by (rule set_take_subset_set_take) simp
    also have "\<dots> \<subseteq> set (take (min j (Suc k)) order')" using ord' by (simp add: take_append)
    finally show ?thesis using bef[OF True] ord' True by (simp add: nth_append)
  next
    case False
    then have m: "min j (Suc k) = Suc k" using k by simp
    have "order' ! j \<in> set new" using False j ord' by (simp add: nth_append)
    then have "order' ! j < length t" "indeg' ! (order' ! j) = 0" using newsub newz by auto
    then have "filter (\<lambda>d. d \<notin> insert ?u ?A) (deps_of t (order' ! j)) = []" using d' by simp
    then have "set (deps_of t (order' ! j)) \<subseteq> insert ?u ?A" by (auto simp: filter_empty_conv)
    then show ?thesis unfolding m tk(2) .
  qed
  have "distinct order'" using dist ord' newz newsub by auto
  moreover have "set order' \<subseteq> {..<length t}" using sub newsub ord' by auto
  moreover have "Suc k \<le> length order'" using k ord' by simp
  ultimately show ?thesis
    unfolding kahn_inv_def tk(2) using len' d' zero' bef' by blast
qed

lemma kahn_inv_start:
  assumes "scanned t (length t) (succ, indeg)"
  shows "kahn_inv t 0 indeg (filter (\<lambda>i. indeg ! i = 0) [0..<length t])"
proof -
  let ?o = "filter (\<lambda>i. indeg ! i = 0) [0..<length t]"
  have "deps_of t i = []" if "i \<in> set ?o" for i
    using that assms by (auto simp: scanned_def)
  then have "deps_of t (?o ! j) = []" if "j < length ?o" for j
    using that nth_mem by blast
  then show ?thesis using assms by (auto simp: kahn_inv_def scanned_def)
qed

text \<open>Enough fuel: the loop runs once per element of \<open>order\<close>, and those are distinct task numbers.\<close>

lemma kahn_loop_finish:
  assumes "kahn_inv t k indeg order" "scanned t (length t) (succ, indeg0)" "valid_graph t"
    and "length t < fuel + k"
  shows "\<exists>order' indeg'. kahn_loop fuel succ k (indeg, order) = Some order' \<and>
    kahn_inv t (length order') indeg' order'"
  using assms
proof (induction fuel arbitrary: k indeg order)
  case 0
  have "length order \<le> length t"
    using 0(1) card_mono[of "{..<length t}" "set order"] by (auto simp: kahn_inv_def distinct_card)
  with 0 show ?case by (simp add: kahn_inv_def)
next
  case (Suc fuel)
  show ?case
  proof (cases "k < length order")
    case True
    obtain indeg' order' where r: "relax (succ ! (order ! k)) (indeg, order) = (indeg', order')" by fastforce
    from kahn_inv_step[OF Suc(2) True Suc(3,4) r] have "kahn_inv t (Suc k) indeg' order'" .
    with Suc(1)[OF this Suc(3,4)] Suc(5) True r show ?thesis by simp
  next
    case False
    with Suc(2) have "k = length order" by (simp add: kahn_inv_def)
    with Suc(2) show ?thesis by auto
  qed
qed

lemma kahn_final:
  assumes "kahn_inv t (length order) indeg order" "valid_graph t"
  shows "length order = length t \<longleftrightarrow> acyclic (dep_rel t)"
    and "length order = length t \<Longrightarrow> topo_sorted t order"
proof -
  have inv: "distinct order" "set order \<subseteq> {..<length t}"
    "\<And>i. i < length t \<Longrightarrow> indeg ! i = int (length (filter (\<lambda>d. d \<notin> set order) (deps_of t i)))"
    "\<And>i. i < length t \<Longrightarrow> i \<in> set order \<longleftrightarrow> indeg ! i = 0"
    "\<And>j. j < length order \<Longrightarrow> set (deps_of t (order ! j)) \<subseteq> set (take j order)"
    using assms(1) by (auto simp: kahn_inv_def)
  show full: "topo_sorted t order" if "length order = length t"
  proof -
    have "card (set order) = card {..<length t}" using that inv(1) by (simp add: distinct_card)
    with inv(2) have "set order = {..<length t}" by (simp add: card_subset_eq)
    with inv show ?thesis by (simp add: topo_sorted_def)
  qed
  show "length order = length t \<longleftrightarrow> acyclic (dep_rel t)"
  proof
    assume "length order = length t"
    with full have ts: "topo_sorted t order" .
    define pos where "pos i = (LEAST j. j < length order \<and> order ! j = i)" for i
    have pos: "pos (order ! j) = j" if "j < length order" for j
      unfolding pos_def using that inv(1)
      by (intro Least_equality) (auto simp: nth_eq_iff_index_eq)
    have "dep_rel t \<subseteq> measure pos"
    proof
      fix e assume "e \<in> dep_rel t"
      then obtain d i where e: "e = (d, i)" "i < length t" "d \<in> set (deps_of t i)" by (auto simp: dep_rel_def)
      then obtain j where j: "j < length order" "order ! j = i"
        using ts by (metis in_set_conv_nth lessThan_iff topo_sorted_def)
      with inv(5) e have "d \<in> set (take j order)" by blast
      then obtain m where "m < j" "order ! m = d" using j by (auto simp: in_set_conv_nth)
      with j pos e show "e \<in> measure pos" by auto
    qed
    then show "acyclic (dep_rel t)" by (meson acyclic_subset wf_acyclic wf_measure)
  next
    assume ac: "acyclic (dep_rel t)"
    show "length order = length t"
    proof (rule ccontr)
      assume ne: "length order \<noteq> length t"
      have "set order \<noteq> {..<length t}"
      proof
        assume "set order = {..<length t}"
        then have "card (set order) = length t" by simp
        with ne inv(1) show False by (simp add: distinct_card)
      qed
      with inv(2) obtain i0 where "i0 \<in> {i. i < length t \<and> i \<notin> set order}" by blast
      moreover have "wf (dep_rel t)" using finite_acyclic_wf[OF finite_dep_rel[OF assms(2)] ac] .
      ultimately obtain i where i: "i < length t" "i \<notin> set order"
        and min: "\<And>d. (d, i) \<in> dep_rel t \<Longrightarrow> d \<notin> {i. i < length t \<and> i \<notin> set order}"
        using wfE_min[of "dep_rel t" i0 "{i. i < length t \<and> i \<notin> set order}"] by blast
      from i inv(3,4) have "filter (\<lambda>d. d \<notin> set order) (deps_of t i) \<noteq> []" by auto
      then obtain d where "d \<in> set (deps_of t i)" "d \<notin> set order" by (auto simp: filter_empty_conv)
      with i min[of d] deps_of_range[OF assms(2) i(1)] show False by (auto simp: dep_rel_def)
    qed
  qed
qed

section \<open>Topological order: every outcome\<close>

lemma scan_all:
  "case scan_tasks (length t) 0 t (replicate (length t) [], replicate (length t) 0) of
     Inl e \<Rightarrow> \<not> valid_graph t \<and>
       ((e = BadIds \<and> (\<exists>j<length t. g_id (t ! j) \<noteq> int j)) \<or>
        (\<exists>j d. e = BadDep j d \<and> j < length t \<and> d \<in> set (g_deps (t ! j)) \<and>
           (d < 0 \<or> d \<ge> int (length t) \<or> d = int j)))
   | Inr st \<Rightarrow> valid_graph t \<and> scanned t (length t) st"
proof (cases "scan_tasks (length t) 0 t (replicate (length t) [], replicate (length t) 0)")
  case (Inl e)
  from scan_tasks_Inl[of t 0 _ e] Inl
  have r: "(e = BadIds \<and> (\<exists>j<length t. g_id (t ! j) \<noteq> int j)) \<or>
        (\<exists>j d. e = BadDep j d \<and> j < length t \<and> d \<in> set (g_deps (t ! j)) \<and>
           (d < 0 \<or> d \<ge> int (length t) \<or> d = int j))" by simp
  then have "\<not> valid_graph t" by (metis linorder_not_less valid_graph_def)
  with r Inl show ?thesis by simp
next
  case (Inr st)
  from scan_tasks_Inr[of t 0 _ st] Inr scan_start show ?thesis by (simp add: valid_graph_def)
qed

lemma topo_order_outcome:
  "case topo_order t of
     Inr order \<Rightarrow> valid_graph t \<and> acyclic (dep_rel t) \<and> topo_sorted t order
   | Inl DependencyCycle \<Rightarrow> valid_graph t \<and> \<not> acyclic (dep_rel t)
   | Inl BadIds \<Rightarrow> \<exists>j<length t. g_id (t ! j) \<noteq> int j
   | Inl (BadDep j d) \<Rightarrow> j < length t \<and> d \<in> set (g_deps (t ! j)) \<and> (d < 0 \<or> d \<ge> int (length t) \<or> d = int j)
   | Inl OutOfFuel \<Rightarrow> False"
proof (cases "scan_tasks (length t) 0 t (replicate (length t) [], replicate (length t) 0)")
  case (Inl e)
  with scan_all[of t] show ?thesis by (auto simp: topo_order_def Let_def)
next
  case (Inr st)
  obtain succ indeg where st: "st = (succ, indeg)" by fastforce
  from Inr scan_all[of t] st have v: "valid_graph t" "scanned t (length t) (succ, indeg)" by simp_all
  from kahn_loop_finish[OF kahn_inv_start[OF v(2)] v(2,1), of "Suc (length t)"]
  obtain order indeg' where k: "kahn_loop (Suc (length t)) succ 0 (indeg, filter (\<lambda>i. indeg ! i = 0) [0..<length t]) = Some order"
    "kahn_inv t (length order) indeg' order" by auto
  have "topo_order t = (if length order \<noteq> length t then Inl DependencyCycle else Inr order)"
    using Inr st k(1) by (simp add: topo_order_def del: kahn_loop.simps)
  then show ?thesis using v(1) kahn_final[OF k(2) v(1)] by (simp split: if_splits)
qed

lemma topo_order_Inr:
  "topo_order t = Inr order \<Longrightarrow> valid_graph t \<and> acyclic (dep_rel t) \<and> topo_sorted t order"
  using topo_order_outcome[of t] by simp

lemma topo_order_total:
  assumes "valid_graph t" "acyclic (dep_rel t)"
  shows "\<exists>order. topo_order t = Inr order"
proof (cases "topo_order t")
  case (Inl e)
  then show ?thesis using assms topo_order_outcome[of t]
    by (cases e) (auto simp: valid_graph_def linorder_not_less[symmetric])
qed simp

section \<open>Upward rank\<close>

definition succs_of :: "graph_task list \<Rightarrow> nat \<Rightarrow> nat set" where
  "succs_of t i = {j. j < length t \<and> i \<in> set (deps_of t j)}"

lemma succ_fold_inner:
  assumes "\<forall>d\<in>set ds. 0 \<le> d \<and> d < int (length succ)"
  shows "length (foldl (\<lambda>succ d. succ[nat d := succ ! nat d @ [x]]) succ ds) = length succ \<and>
    (\<forall>i<length succ. set (foldl (\<lambda>succ d. succ[nat d := succ ! nat d @ [x]]) succ ds ! i)
       = set (succ ! i) \<union> (if i \<in> set (map nat ds) then {x} else {}))"
  using assms
proof (induction ds arbitrary: succ)
  case (Cons d ds)
  let ?f = "\<lambda>succ d. succ[nat d := succ ! nat d @ [x]]"
  let ?s = "?f succ d"
  have d: "nat d < length succ" using Cons.prems by auto
  from Cons.IH[of ?s] Cons.prems
  have IH: "length (foldl ?f ?s ds) = length succ"
    "\<And>i. i < length succ \<Longrightarrow> set (foldl ?f ?s ds ! i) = set (?s ! i) \<union> (if i \<in> set (map nat ds) then {x} else {})"
    by auto
  have "set (?s ! i) = set (succ ! i) \<union> (if i = nat d then {x} else {})" if "i < length succ" for i
    using that by (simp add: nth_list_update)
  with IH show ?case by auto
qed simp

lemma succ_lists_sets:
  assumes "valid_graph t"
  shows "length (succ_lists t) = length t \<and> (\<forall>i<length t. set (succ_lists t ! i) = succs_of t i)"
proof -
  let ?f = "\<lambda>succ x. foldl (\<lambda>succ d. succ[nat d := succ ! nat d @ [nat (g_id x)]]) succ (g_deps x)"
  have "length (foldl ?f (replicate (length t) []) (take k t)) = length t \<and>
    (\<forall>i<length t. set (foldl ?f (replicate (length t) []) (take k t) ! i) = {j. j < k \<and> i \<in> set (deps_of t j)})"
    if "k \<le> length t" for k
    using that
  proof (induction k)
    case (Suc k)
    let ?s = "foldl ?f (replicate (length t) []) (take k t)"
    have k: "k < length t" "nat (g_id (t ! k)) = k" using Suc.prems assms by (auto simp: valid_graph_def)
    have IH: "length ?s = length t" "\<forall>i<length t. set (?s ! i) = {j. j < k \<and> i \<in> set (deps_of t j)}"
      using Suc by auto
    have "foldl ?f (replicate (length t) []) (take (Suc k) t)
        = foldl (\<lambda>succ d. succ[nat d := succ ! nat d @ [k]]) ?s (g_deps (t ! k))"
      using k by (simp add: take_Suc_conv_app_nth)
    moreover have "\<forall>d\<in>set (g_deps (t ! k)). 0 \<le> d \<and> d < int (length ?s)"
      using assms k IH(1) by (auto simp: valid_graph_def)
    note succ_fold_inner[OF this, of k]
    ultimately show ?case using IH by (auto simp: less_Suc_eq deps_of_def)
  qed simp
  from this[of "length t"] show ?thesis by (simp add: succ_lists_def succs_of_def)
qed

lemma best_of_ge: "0 \<le> best_of rank ss" "s \<in> set ss \<Longrightarrow> rank ! s \<le> best_of rank ss"
proof -
  have mono: "b \<le> foldl (\<lambda>best s. max best (rank ! s)) b ss" for b ss
  proof (induction ss arbitrary: b)
    case (Cons x xs)
    have "b \<le> max b (rank ! x)" by simp
    also have "\<dots> \<le> foldl (\<lambda>best s. max best (rank ! s)) (max b (rank ! x)) xs" by (rule Cons.IH)
    finally show ?case by simp
  qed simp
  show "0 \<le> best_of rank ss" unfolding best_of_def by (rule mono)
  show "s \<in> set ss \<Longrightarrow> rank ! s \<le> best_of rank ss"
  proof -
    have "s \<in> set ss \<Longrightarrow> rank ! s \<le> foldl (\<lambda>best s. max best (rank ! s)) b ss" for b
    proof (induction ss arbitrary: b)
      case (Cons x xs)
      show ?case
      proof (cases "s = x")
        case True
        then show ?thesis using mono[of "max b (rank ! x)" xs] by simp
      qed (use Cons in simp)
    qed simp
    then show "s \<in> set ss \<Longrightarrow> rank ! s \<le> best_of rank ss" unfolding best_of_def .
  qed
qed

lemma best_of_attained: "best_of rank ss = 0 \<or> (\<exists>s\<in>set ss. best_of rank ss = rank ! s)"
proof -
  have "foldl (\<lambda>best s. max best (rank ! s)) b ss = b \<or>
    (\<exists>s\<in>set ss. foldl (\<lambda>best s. max best (rank ! s)) b ss = rank ! s)" for b
  proof (induction ss arbitrary: b)
    case (Cons x xs)
    from Cons.IH[of "max b (rank ! x)"] show ?case by (auto simp: max_def split: if_splits)
  qed simp
  then show ?thesis by (simp add: best_of_def)
qed

lemma best_of_cong: "(\<And>s. s \<in> set ss \<Longrightarrow> r ! s = r' ! s) \<Longrightarrow> best_of r ss = best_of r' ss"
proof -
  assume h: "\<And>s. s \<in> set ss \<Longrightarrow> r ! s = r' ! s"
  have "foldl (\<lambda>best s. max best (r ! s)) b ss = foldl (\<lambda>best s. max best (r' ! s)) b ss" for b
    using h by (induction ss arbitrary: b) auto
  then show ?thesis by (simp add: best_of_def)
qed

lemma rank_fold:
  assumes "distinct xs" "set xs \<subseteq> {..<length t}" "length r = length t"
    and "\<forall>j<length xs. set (succ ! (xs ! j)) \<subseteq> set (take j xs)"
  shows "let R = foldl (\<lambda>rank i. rank[i := i64 (g_cost (t ! i) + best_of rank (succ ! i))]) r xs in
    length R = length t \<and> (\<forall>i\<in>set xs. R ! i = i64 (g_cost (t ! i) + best_of R (succ ! i)))"
  using assms
proof (induction xs rule: rev_induct)
  case (snoc x xs)
  let ?F = "foldl (\<lambda>rank i. rank[i := i64 (g_cost (t ! i) + best_of rank (succ ! i))]) r"
  have closed: "set (succ ! i) \<subseteq> set xs" if "i \<in> set (xs @ [x])" for i
  proof -
    from that obtain j where j: "j < length (xs @ [x])" "(xs @ [x]) ! j = i" by (metis in_set_conv_nth)
    then have "set (succ ! i) \<subseteq> set (take j (xs @ [x]))" using snoc.prems(4) by blast
    also have "\<dots> \<subseteq> set xs" using j by (auto dest: in_set_takeD)
    finally show ?thesis .
  qed
  have "\<forall>j<length xs. set (succ ! (xs ! j)) \<subseteq> set (take j xs)"
  proof (intro allI impI)
    fix j assume "j < length xs"
    with snoc.prems(4)[rule_format, of j] show "set (succ ! (xs ! j)) \<subseteq> set (take j xs)"
      by (simp add: nth_append)
  qed
  with snoc.IH snoc.prems have IH: "length (?F xs) = length t"
    "\<And>i. i \<in> set xs \<Longrightarrow> ?F xs ! i = i64 (g_cost (t ! i) + best_of (?F xs) (succ ! i))"
    by (auto simp: Let_def)
  let ?R = "?F xs" and ?R' = "?F (xs @ [x])"
  have x: "x < length t" "x \<notin> set xs" using snoc.prems by auto
  have R': "?R' = ?R[x := i64 (g_cost (t ! x) + best_of ?R (succ ! x))]" by simp
  have same: "best_of ?R' (succ ! i) = best_of ?R (succ ! i)" if "i \<in> set (xs @ [x])" for i
  proof (rule best_of_cong)
    fix s assume "s \<in> set (succ ! i)"
    with closed[OF that] x have "s \<noteq> x" by blast
    then show "?R' ! s = ?R ! s" by (simp add: R')
  qed
  have "?R' ! i = i64 (g_cost (t ! i) + best_of ?R' (succ ! i))" if i: "i \<in> set (xs @ [x])" for i
    unfolding same[OF i] using i x IH by (auto simp: R' nth_list_update)
  then show ?case using IH(1) unfolding Let_def R' by simp
qed (simp add: Let_def)

lemma take_rev_topo:
  assumes "topo_sorted t order" "i \<in> succs_of t (rev order ! j)" "j < length order"
  shows "i \<in> set (take j (rev order))"
proof -
  have d: "distinct order" "set order = {..<length t}" using assms(1) by (auto simp: topo_sorted_def)
  from assms(2) d obtain m where m: "m < length order" "order ! m = i"
    by (metis (lifting) in_set_conv_nth lessThan_iff mem_Collect_eq succs_of_def)
  have "rev order ! j \<in> set (take m order)"
    using assms(1,2) m by (auto simp: topo_sorted_def succs_of_def)
  then obtain l where l: "l < m" "order ! l = rev order ! j" using m by (auto simp: in_set_conv_nth)
  then have "l = length order - 1 - j"
    using d(1) assms(3) m by (simp add: rev_nth nth_eq_iff_index_eq)
  with l m assms(3) have "length order - 1 - m < j" "rev order ! (length order - 1 - m) = i"
    by (auto simp: rev_nth)
  then have "take j (rev order) ! (length order - 1 - m) = i" "length order - 1 - m < length (take j (rev order))"
    using assms(3) by simp_all
  then show ?thesis by (metis nth_mem)
qed

text \<open>The defining equation: own cost plus the highest rank among the tasks that wait on it, in 64 bits.\<close>

lemma upward_rank_wraps:
  assumes "valid_graph t" "acyclic (dep_rel t)"
  shows "length (upward_rank t) = length t \<and>
    (\<forall>i<length t. upward_rank t ! i = i64 (g_cost (t ! i) + Max (insert 0 ((!) (upward_rank t) ` succs_of t i))))"
proof -
  obtain order where o: "topo_order t = Inr order" using topo_order_total[OF assms] by blast
  then have ts: "topo_sorted t order" using topo_order_Inr by blast
  note sl = succ_lists_sets[OF assms(1)]
  have ord: "distinct (rev order)" "set (rev order) = {..<length t}" using ts by (auto simp: topo_sorted_def)
  have "\<forall>j<length (rev order). set (succ_lists t ! (rev order ! j)) \<subseteq> set (take j (rev order))"
  proof (intro allI impI subsetI)
    fix j i assume j: "j < length (rev order)" "i \<in> set (succ_lists t ! (rev order ! j))"
    then have "rev order ! j < length t" using ord(2) nth_mem by blast
    with j sl have "i \<in> succs_of t (rev order ! j)" by simp
    with ts j(1) show "i \<in> set (take j (rev order))" using take_rev_topo by simp
  qed
  from rank_fold[OF ord(1) _ _ this, of t "replicate (length t) 0"] ord(2) o
  have R: "length (upward_rank t) = length t"
    "\<And>i. i < length t \<Longrightarrow> upward_rank t ! i = i64 (g_cost (t ! i) + best_of (upward_rank t) (succ_lists t ! i))"
    by (auto simp: upward_rank_def Let_def)
  have "best_of (upward_rank t) (succ_lists t ! i) = Max (insert 0 ((!) (upward_rank t) ` succs_of t i))"
    if "i < length t" for i
  proof (rule Max_eqI[symmetric])
    show "finite (insert 0 ((!) (upward_rank t) ` succs_of t i))" by (simp add: succs_of_def)
    show "y \<le> best_of (upward_rank t) (succ_lists t ! i)"
      if "y \<in> insert 0 ((!) (upward_rank t) ` succs_of t i)" for y
      using that sl \<open>i < length t\<close> best_of_ge by auto
    show "best_of (upward_rank t) (succ_lists t ! i) \<in> insert 0 ((!) (upward_rank t) ` succs_of t i)"
      using best_of_attained[of "upward_rank t" "succ_lists t ! i"] sl that by auto
  qed
  with R show ?thesis by simp
qed

subsection \<open>The rank is the length of the longest chain\<close>

fun chain :: "graph_task list \<Rightarrow> nat list \<Rightarrow> bool" where
  "chain t [] = False"
| "chain t [i] = (i < length t)"
| "chain t (i # j # p) = (i < length t \<and> i \<in> set (deps_of t j) \<and> chain t (j # p))"

definition chain_cost :: "graph_task list \<Rightarrow> nat list \<Rightarrow> int" where
  "chain_cost t p = sum_list (map (\<lambda>i. g_cost (t ! i)) p)"

lemma chain_hd: "chain t (i # p) \<Longrightarrow> i < length t"
  by (cases p) auto

lemma chain_set: "chain t p \<Longrightarrow> set p \<subseteq> {..<length t}"
  by (induction t p rule: chain.induct) auto

lemma chain_trancl: "chain t (i # p) \<Longrightarrow> x \<in> set p \<Longrightarrow> (i, x) \<in> (dep_rel t)\<^sup>+"
proof (induction p arbitrary: i)
  case (Cons j p)
  then have e: "(i, j) \<in> dep_rel t" using chain_hd by (auto simp: dep_rel_def)
  show ?case
  proof (cases "x = j")
    case False
    with Cons have "(j, x) \<in> (dep_rel t)\<^sup>+" by simp
    with e show ?thesis by (rule trancl_into_trancl2)
  qed (use e in auto)
qed simp

lemma chain_distinct: "acyclic (dep_rel t) \<Longrightarrow> chain t p \<Longrightarrow> distinct p"
proof (induction t p rule: chain.induct)
  case (3 t i j p)
  then have "i \<notin> set (j # p)" using chain_trancl[of t i "j # p"] by (auto simp: acyclic_def)
  with 3 show ?case by simp
qed auto

text \<open>Costs whose magnitudes sum up within 64 bits: no chain leaves the type.\<close>

definition costs_fit :: "graph_task list \<Rightarrow> bool" where
  "costs_fit t \<longleftrightarrow> sum_list (map (\<lambda>x. \<bar>g_cost x\<bar>) t) \<le> 9223372036854775807"

lemma chain_cost_fits:
  assumes "acyclic (dep_rel t)" "costs_fit t" "chain t p"
  shows "i64 (chain_cost t p) = chain_cost t p"
proof -
  have "\<bar>chain_cost t p\<bar> \<le> sum_list (map (\<lambda>i. \<bar>g_cost (t ! i)\<bar>) p)"
    unfolding chain_cost_def by (induction p) (auto intro: order_trans[OF abs_triangle_ineq])
  also have "\<dots> = (\<Sum>j\<in>set p. \<bar>g_cost (t ! j)\<bar>)"
    using chain_distinct[OF assms(1,3)] by (rule sum_list_distinct_conv_sum_set)
  also have "\<dots> \<le> (\<Sum>j\<in>{..<length t}. \<bar>g_cost (t ! j)\<bar>)"
    by (rule sum_mono2) (use chain_set[OF assms(3)] in auto)
  also have "\<dots> = sum_list (map (\<lambda>x. \<bar>g_cost x\<bar>) t)"
    by (simp add: sum_list_sum_nth lessThan_atLeast0)
  also have "\<dots> \<le> 9223372036854775807" using assms(2) by (simp add: costs_fit_def)
  finally show ?thesis by (intro i64_id) auto
qed

lemma rank_attained:
  assumes "valid_graph t" "acyclic (dep_rel t)" "costs_fit t" "i < length t"
  shows "\<exists>p. chain t (i # p) \<and> chain_cost t (i # p) = upward_rank t ! i \<and>
    upward_rank t ! i = g_cost (t ! i) + Max (insert 0 ((!) (upward_rank t) ` succs_of t i))"
proof -
  have "wf ((dep_rel t)\<inverse>)"
    using finite_acyclic_wf_converse[OF finite_dep_rel[OF assms(1)] assms(2)] .
  then show ?thesis using assms(4)
  proof (induction i rule: wf_induct_rule)
    case (less i)
    let ?M = "insert 0 ((!) (upward_rank t) ` succs_of t i)"
    have "Max ?M \<in> ?M" by (rule Max_in) (simp_all add: succs_of_def)
    then consider "Max ?M = 0" | j where "j \<in> succs_of t i" "Max ?M = upward_rank t ! j" by auto
    then obtain p where p: "chain t (i # p)" "chain_cost t (i # p) = g_cost (t ! i) + Max ?M"
    proof cases
      case 1
      with less.prems show thesis by (intro that[of "[]"]) (simp_all add: chain_cost_def)
    next
      case 2
      then have j: "j < length t" "i \<in> set (deps_of t j)" by (auto simp: succs_of_def)
      then have "(j, i) \<in> (dep_rel t)\<inverse>" by (simp add: dep_rel_def)
      from less.IH[OF this j(1)] obtain p where "chain t (j # p)" "chain_cost t (j # p) = upward_rank t ! j"
        by blast
      with 2 j less.prems show thesis by (intro that[of "j # p"]) (simp_all add: chain_cost_def)
    qed
    moreover have "upward_rank t ! i = i64 (g_cost (t ! i) + Max ?M)"
      using upward_rank_wraps[OF assms(1,2)] less.prems by blast
    ultimately show ?case using chain_cost_fits[OF assms(2,3) p(1)] by auto
  qed
qed

lemma upward_rank_eq:
  assumes "valid_graph t" "acyclic (dep_rel t)" "costs_fit t" "i < length t"
  shows "upward_rank t ! i = g_cost (t ! i) + Max (insert 0 ((!) (upward_rank t) ` succs_of t i))"
  using rank_attained[OF assms] by blast

lemma rank_succ_le:
  assumes "valid_graph t" "acyclic (dep_rel t)" "costs_fit t" "i < length t"
  shows "g_cost (t ! i) \<le> upward_rank t ! i"
    and "j \<in> succs_of t i \<Longrightarrow> g_cost (t ! i) + upward_rank t ! j \<le> upward_rank t ! i"
proof -
  have fin: "finite (insert 0 ((!) (upward_rank t) ` succs_of t i))" by (simp add: succs_of_def)
  note eq = upward_rank_eq[OF assms]
  show "g_cost (t ! i) \<le> upward_rank t ! i"
    unfolding eq using Max_ge[OF fin, of 0] by simp
  show "g_cost (t ! i) + upward_rank t ! j \<le> upward_rank t ! i" if "j \<in> succs_of t i"
    unfolding eq using Max_ge[OF fin, of "upward_rank t ! j"] that by simp
qed

lemma chain_cost_le_rank:
  assumes "valid_graph t" "acyclic (dep_rel t)" "costs_fit t" "chain t (i # p)"
  shows "chain_cost t (i # p) \<le> upward_rank t ! i"
  using assms(4)
proof (induction p arbitrary: i)
  case Nil
  then show ?case using rank_succ_le(1)[OF assms(1-3)] by (simp add: chain_cost_def)
next
  case (Cons j p)
  then have "chain_cost t (j # p) \<le> upward_rank t ! j" "i < length t" "j \<in> succs_of t i"
    using chain_hd by (auto simp: succs_of_def)
  with rank_succ_le(2)[OF assms(1-3)] show ?case by (fastforce simp: chain_cost_def)
qed

section \<open>Partition\<close>

subsection \<open>Units\<close>

lemma claim_deps_nth:
  assumes "\<forall>d\<in>set ds. 0 \<le> d \<and> d < int (length unit)" "0 \<le> units"
  shows "length (claim_deps t units ds unit) = length unit \<and>
    (\<forall>j<length unit. claim_deps t units ds unit ! j =
       (if j \<in> nat ` set ds \<and> g_kind (t ! j) = kCompile \<and> unit ! j < 0 then units else unit ! j))"
  using assms
proof (induction t units ds unit rule: claim_deps.induct)
  case (2 t units d ds unit)
  let ?u = "if g_kind (t ! nat d) = kCompile \<and> unit ! nat d < 0 then unit[nat d := units] else unit"
  have d: "nat d < length unit" using 2(2) by auto
  have "length (claim_deps t units ds ?u) = length unit \<and>
    (\<forall>j<length unit. claim_deps t units ds ?u ! j =
       (if j \<in> nat ` set ds \<and> g_kind (t ! j) = kCompile \<and> ?u ! j < 0 then units else ?u ! j))"
    using 2 by auto
  moreover have "?u ! j = (if j = nat d \<and> g_kind (t ! j) = kCompile \<and> unit ! j < 0 then units else unit ! j)"
    if "j < length unit" for j using that d by (auto simp: nth_list_update)
  ultimately show ?case using 2(3) by auto
qed simp

text \<open>Every unit number given out is below the counter, and a number once given stays.\<close>

definition units_ok :: "nat \<Rightarrow> int list \<times> int \<Rightarrow> bool" where
  "units_ok n st \<longleftrightarrow> length (fst st) = n \<and> 0 \<le> snd st \<and> (\<forall>j<n. fst st ! j < snd st)"

definition units_extend :: "nat \<Rightarrow> int list \<times> int \<Rightarrow> int list \<times> int \<Rightarrow> bool" where
  "units_extend n st st' \<longleftrightarrow> units_ok n st' \<and> (\<forall>j<n. 0 \<le> fst st ! j \<longrightarrow> fst st' ! j = fst st ! j)"

lemma units_extend_trans [trans]: "units_extend n a b \<Longrightarrow> units_extend n b c \<Longrightarrow> units_extend n a c"
  unfolding units_extend_def by (metis (no_types, lifting))

definition claim_one :: "graph_task list \<Rightarrow> nat \<Rightarrow> int list \<times> int \<Rightarrow> int list \<times> int" where
  "claim_one t i st =
     (claim_deps t (snd st) (g_deps (t ! i)) ((fst st)[i := snd st]), snd st + 1)"

lemma claim_one_nth:
  assumes "valid_graph t" "i < length t" "units_ok (length t) st" "j < length t"
    and "g_kind (t ! i) \<noteq> kCompile"
  shows "fst (claim_one t i st) ! j =
    (if j = i then snd st
     else if j \<in> set (deps_of t i) \<and> g_kind (t ! j) = kCompile \<and> fst st ! j < 0 then snd st
     else fst st ! j)"
proof -
  have "\<forall>d\<in>set (g_deps (t ! i)). 0 \<le> d \<and> d < int (length ((fst st)[i := snd st]))"
    using assms(1-3) by (auto simp: valid_graph_def units_ok_def)
  from claim_deps_nth[OF this, of "snd st" t] assms show ?thesis
    by (auto simp: claim_one_def deps_of_def units_ok_def nth_list_update)
qed

lemma claim_one_extend:
  assumes "valid_graph t" "i < length t" "units_ok (length t) st" "g_kind (t ! i) \<noteq> kCompile" "fst st ! i < 0"
  shows "units_extend (length t) st (claim_one t i st)"
proof -
  have "\<forall>d\<in>set (g_deps (t ! i)). 0 \<le> d \<and> d < int (length ((fst st)[i := snd st]))"
    using assms(1-3) by (auto simp: valid_graph_def units_ok_def)
  from claim_deps_nth[OF this, of "snd st" t] assms(3)
  have len: "length (fst (claim_one t i st)) = length t" by (simp add: claim_one_def units_ok_def)
  have nth: "fst (claim_one t i st) ! j =
    (if j = i then snd st
     else if j \<in> set (deps_of t i) \<and> g_kind (t ! j) = kCompile \<and> fst st ! j < 0 then snd st
     else fst st ! j)" if "j < length t" for j
    using claim_one_nth[OF assms(1-3) that assms(4)] .
  have "snd (claim_one t i st) = snd st + 1" by (simp add: claim_one_def)
  with len nth assms(3,5) show ?thesis by (auto simp: units_extend_def units_ok_def less_imp_le)
qed

lemma claim_from_Cons:
  "claim_from t kind (i # is) st =
     claim_from t kind is (if g_kind (t ! i) \<noteq> kind \<or> fst st ! i \<ge> 0 then st else claim_one t i st)"
  by (cases st) (simp add: claim_one_def)

lemma claim_from_append: "claim_from t kind (is @ js) st = claim_from t kind js (claim_from t kind is st)"
  by (induction "is" arbitrary: st) (simp_all add: claim_from_Cons)

lemma units_extend_refl: "units_ok n st \<Longrightarrow> units_extend n st st"
  by (simp add: units_extend_def)

lemma units_extend_ok: "units_extend n st st' \<Longrightarrow> units_ok n st'"
  by (simp add: units_extend_def)

lemma claim_from_extend:
  assumes "valid_graph t" "set is \<subseteq> {..<length t}" "units_ok (length t) st" "kind \<noteq> kCompile"
  shows "units_extend (length t) st (claim_from t kind is st)"
  using assms(2,3)
proof (induction "is" arbitrary: st)
  case (Cons i "is")
  let ?st = "if g_kind (t ! i) \<noteq> kind \<or> fst st ! i \<ge> 0 then st else claim_one t i st"
  have one: "units_extend (length t) st ?st"
    using claim_one_extend[OF assms(1)] Cons.prems assms(4) by (auto intro: units_extend_refl)
  also have "units_extend (length t) ?st (claim_from t kind is ?st)"
    using Cons.IH Cons.prems units_extend_ok[OF one] by simp
  finally show ?case by (simp only: claim_from_Cons)
qed (simp add: units_extend_refl)

lemma claim_rest_extend:
  assumes "set is \<subseteq> {..<length t}" "units_ok (length t) st"
  shows "units_extend (length t) st (claim_rest is st) \<and> (\<forall>i\<in>set is. 0 \<le> fst (claim_rest is st) ! i)"
  using assms
proof (induction "is" st rule: claim_rest.induct)
  case (2 i "is" unit units)
  show ?case
  proof (cases "unit ! i < 0")
    case True
    have i: "i < length t" using 2(3) by simp
    have e: "units_extend (length t) (unit, units) (unit[i := units], units + 1)"
      using 2(3,4) True by (auto simp: units_extend_def units_ok_def nth_list_update less_Suc_eq)
    have IH: "units_extend (length t) (unit[i := units], units + 1) (claim_rest is (unit[i := units], units + 1))"
      "\<forall>j\<in>set is. 0 \<le> fst (claim_rest is (unit[i := units], units + 1)) ! j"
      using 2(1)[OF True] 2(3) units_extend_ok[OF e] by auto
    have "0 \<le> units" "length unit = length t" using 2(4) by (auto simp: units_ok_def)
    with IH(1) i have "fst (claim_rest is (unit[i := units], units + 1)) ! i = units"
      by (simp add: units_extend_def)
    with IH(2) \<open>0 \<le> units\<close> have "\<forall>j\<in>set (i # is). 0 \<le> fst (claim_rest is (unit[i := units], units + 1)) ! j"
      by simp
    moreover have "claim_rest (i # is) (unit, units) = claim_rest is (unit[i := units], units + 1)"
      using True by simp
    ultimately show ?thesis using units_extend_trans[OF e IH(1)] by (simp only: simp_thms)
  next
    case False
    have IH: "units_extend (length t) (unit, units) (claim_rest is (unit, units))"
      "\<forall>i\<in>set is. 0 \<le> fst (claim_rest is (unit, units)) ! i"
      using 2(2)[OF False] 2(3,4) by auto
    have "fst (claim_rest is (unit, units)) ! i = unit ! i"
      using IH(1) 2(3) False by (simp add: units_extend_def)
    with IH False show ?thesis by auto
  qed
qed (simp add: units_extend_refl)

text \<open>The archive pass: who has a unit after the first \<open>m\<close> tasks, and which.\<close>

definition archived :: "graph_task list \<Rightarrow> nat \<Rightarrow> int list \<times> int \<Rightarrow> bool" where
  "archived t m st \<longleftrightarrow> units_ok (length t) st \<and>
     (\<forall>j<length t. 0 \<le> fst st ! j \<longrightarrow>
        g_kind (t ! j) = kArchive \<and> j < m \<or>
        g_kind (t ! j) = kCompile \<and> (\<exists>a<m. g_kind (t ! a) = kArchive \<and> j \<in> set (deps_of t a))) \<and>
     (\<forall>a<m. g_kind (t ! a) = kArchive \<longrightarrow> 0 \<le> fst st ! a \<and>
        (\<forall>j\<in>set (deps_of t a). g_kind (t ! j) = kCompile \<longrightarrow> 0 \<le> fst st ! j \<and>
           ((\<forall>b<a. g_kind (t ! b) = kArchive \<longrightarrow> j \<notin> set (deps_of t b)) \<longrightarrow> fst st ! j = fst st ! a)))"

lemma kinds_differ [simp]: "kArchive \<noteq> kCompile" "kLink \<noteq> kCompile" "kCompile \<noteq> kArchive" "kArchive \<noteq> kLink"
  by (simp_all add: kArchive_def kCompile_def kLink_def)

lemma archived_step:
  assumes v: "valid_graph t" and m: "m < length t" and a: "archived t m st" and k: "g_kind (t ! m) = kArchive"
  shows "archived t (Suc m) (claim_one t m st)"
proof -
  have ok: "units_ok (length t) st" using a by (simp add: archived_def)
  have neg: "fst st ! m < 0" using a m k by (force simp: archived_def not_less)
  have kc: "g_kind (t ! m) \<noteq> kCompile" using k by simp
  have ext: "units_extend (length t) st (claim_one t m st)" using claim_one_extend[OF v m ok kc neg] .
  have nth: "fst (claim_one t m st) ! j =
    (if j = m then snd st
     else if j \<in> set (deps_of t m) \<and> g_kind (t ! j) = kCompile \<and> fst st ! j < 0 then snd st
     else fst st ! j)" if "j < length t" for j
    using claim_one_nth[OF v m ok that kc] .
  have sn: "0 \<le> snd st" using ok by (simp add: units_ok_def)
  have inr: "j < length t" if "j \<in> set (deps_of t b)" "b < length t" for j b
    using deps_of_range[OF v that(2,1)] .
  have keep: "0 \<le> fst st ! j \<Longrightarrow> j < length t \<Longrightarrow> fst (claim_one t m st) ! j = fst st ! j" for j
    using ext by (simp add: units_extend_def)
  have src: "g_kind (t ! j) = kArchive \<and> j < Suc m \<or>
        g_kind (t ! j) = kCompile \<and> (\<exists>b<Suc m. g_kind (t ! b) = kArchive \<and> j \<in> set (deps_of t b))"
    if "j < length t" "0 \<le> fst (claim_one t m st) ! j" for j
    using that nth[OF that(1)] a k unfolding archived_def by (auto split: if_splits simp: less_Suc_eq)
  have own: "0 \<le> fst (claim_one t m st) ! b \<and>
        (\<forall>j\<in>set (deps_of t b). g_kind (t ! j) = kCompile \<longrightarrow> 0 \<le> fst (claim_one t m st) ! j \<and>
           ((\<forall>c<b. g_kind (t ! c) = kArchive \<longrightarrow> j \<notin> set (deps_of t c)) \<longrightarrow>
             fst (claim_one t m st) ! j = fst (claim_one t m st) ! b))"
    if b: "b < Suc m" "g_kind (t ! b) = kArchive" for b
  proof (cases "b < m")
    case True
    have bl: "b < length t" using True m by simp
    have o: "0 \<le> fst st ! b" and
      d: "\<And>j. j \<in> set (deps_of t b) \<Longrightarrow> g_kind (t ! j) = kCompile \<Longrightarrow> 0 \<le> fst st ! j \<and>
        ((\<forall>c<b. g_kind (t ! c) = kArchive \<longrightarrow> j \<notin> set (deps_of t c)) \<longrightarrow> fst st ! j = fst st ! b)"
      using a True b(2) unfolding archived_def by auto
    have "fst (claim_one t m st) ! b = fst st ! b" using keep[OF o bl] .
    moreover have "fst (claim_one t m st) ! j = fst st ! j"
      if "j \<in> set (deps_of t b)" "g_kind (t ! j) = kCompile" for j
      using keep d[OF that] inr[OF that(1) bl] by blast
    ultimately show ?thesis using o d by simp
  next
    case False
    with b have bm: "b = m" by simp
    have "0 \<le> fst (claim_one t m st) ! j \<and>
      ((\<forall>c<m. g_kind (t ! c) = kArchive \<longrightarrow> j \<notin> set (deps_of t c)) \<longrightarrow> fst (claim_one t m st) ! j = snd st)"
      if j: "j \<in> set (deps_of t m)" "g_kind (t ! j) = kCompile" for j
    proof -
      have jl: "j < length t" using inr[OF j(1) m] .
      have jm: "j \<noteq> m" using j(2) k by auto
      have "fst st ! j < 0" if "\<forall>c<m. g_kind (t ! c) = kArchive \<longrightarrow> j \<notin> set (deps_of t c)"
        using that a jl j(2) unfolding archived_def by (metis kinds_differ(1) not_less)
      then show ?thesis using nth[OF jl] jm j sn by auto
    qed
    then show ?thesis using nth[OF m] sn bm by simp
  qed
  show ?thesis unfolding archived_def using units_extend_ok[OF ext] src own by blast
qed

lemma archived_skip:
  assumes "archived t m st" "g_kind (t ! m) \<noteq> kArchive"
  shows "archived t (Suc m) st"
proof -
  have "(\<exists>b<m. P b) \<Longrightarrow> (\<exists>b<Suc m. P b)" for P :: "nat \<Rightarrow> bool" by (meson less_SucI)
  then have "\<forall>j<length t. 0 \<le> fst st ! j \<longrightarrow>
        g_kind (t ! j) = kArchive \<and> j < Suc m \<or>
        g_kind (t ! j) = kCompile \<and> (\<exists>a<Suc m. g_kind (t ! a) = kArchive \<and> j \<in> set (deps_of t a))"
    using assms(1) less_SucI unfolding archived_def by blast
  then show ?thesis using assms unfolding archived_def by (simp add: less_Suc_eq)
qed

lemma archive_pass:
  assumes "valid_graph t" "m \<le> length t"
  shows "archived t m (claim_from t kArchive [0..<m] (replicate (length t) (- 1), 0))"
  using assms(2)
proof (induction m)
  case 0
  show ?case by (simp add: archived_def units_ok_def)
next
  case (Suc m)
  let ?st = "claim_from t kArchive [0..<m] (replicate (length t) (- 1), 0)"
  have IH: "archived t m ?st" using Suc by simp
  have m: "m < length t" using Suc by simp
  have step: "claim_from t kArchive [0..<Suc m] (replicate (length t) (- 1), 0)
      = (if g_kind (t ! m) \<noteq> kArchive \<or> fst ?st ! m \<ge> 0 then ?st else claim_one t m ?st)"
    by (simp add: claim_from_append claim_from_Cons)
  show ?case
  proof (cases "g_kind (t ! m) = kArchive")
    case True
    then have "fst ?st ! m < 0" using IH m by (force simp: archived_def not_less)
    with True step have "claim_from t kArchive [0..<Suc m] (replicate (length t) (- 1), 0) = claim_one t m ?st"
      by (simp only: if_False not_le simp_thms not_less[symmetric])
    then show ?thesis using archived_step[OF assms(1) m IH True] by (simp only:)
  next
    case False
    with step archived_skip[OF IH False] show ?thesis by (simp only: if_True simp_thms)
  qed
qed

lemma assign_units_spec:
  assumes v: "valid_graph t" and "assign_units t = (unit, units)"
  shows "length unit = length t" "0 \<le> units" "\<And>j. j < length t \<Longrightarrow> 0 \<le> unit ! j \<and> unit ! j < units"
    and "\<And>a j. a < length t \<Longrightarrow> g_kind (t ! a) = kArchive \<Longrightarrow> j \<in> set (deps_of t a) \<Longrightarrow>
      g_kind (t ! j) = kCompile \<Longrightarrow> (\<forall>b<a. g_kind (t ! b) = kArchive \<longrightarrow> j \<notin> set (deps_of t b)) \<Longrightarrow>
      unit ! j = unit ! a"
proof -
  let ?ix = "[0..<length t]"
  define s1 where "s1 = claim_from t kArchive ?ix (replicate (length t) (- 1), 0)"
  define s2 where "s2 = claim_from t kLink ?ix s1"
  have res: "claim_rest ?ix s2 = (unit, units)" using assms(2) by (simp add: assign_units_def s1_def s2_def Let_def)
  have a1: "archived t (length t) s1" unfolding s1_def by (rule archive_pass[OF v order_refl])
  have ok1: "units_ok (length t) s1" using a1 by (simp add: archived_def)
  have e2: "units_extend (length t) s1 s2"
    unfolding s2_def by (rule claim_from_extend[OF v _ ok1]) auto
  have e3: "units_extend (length t) s2 (unit, units) \<and> (\<forall>i\<in>set ?ix. 0 \<le> fst (unit, units) ! i)"
    using claim_rest_extend[of ?ix t s2] units_extend_ok[OF e2] res by (simp add: lessThan_atLeast0)
  then have e: "units_extend (length t) s1 (unit, units)" using units_extend_trans[OF e2] by blast
  show "length unit = length t" "0 \<le> units" using units_extend_ok[OF e] by (simp_all add: units_ok_def)
  show "\<And>j. j < length t \<Longrightarrow> 0 \<le> unit ! j \<and> unit ! j < units"
    using e3 units_extend_ok[OF e] by (auto simp: units_ok_def)
  fix a j
  assume h: "a < length t" "g_kind (t ! a) = kArchive" "j \<in> set (deps_of t a)"
    "g_kind (t ! j) = kCompile" "\<forall>b<a. g_kind (t ! b) = kArchive \<longrightarrow> j \<notin> set (deps_of t b)"
  then have "0 \<le> fst s1 ! a" "0 \<le> fst s1 ! j" "fst s1 ! j = fst s1 ! a"
    using a1 unfolding archived_def by blast+
  with e h(1) deps_of_range[OF v h(1,3)] show "unit ! j = unit ! a" by (simp add: units_extend_def)
qed

subsection \<open>Longest processing time first\<close>

lemma min_index_spec:
  assumes "xs \<noteq> []"
  shows "min_index xs < length xs" "\<forall>i<length xs. xs ! min_index xs \<le> xs ! i"
proof -
  let ?f = "\<lambda>b i. if xs ! i < xs ! b then i else b"
  have "foldl ?f 0 [1..<Suc k] < Suc k \<and> (\<forall>i<Suc k. xs ! foldl ?f 0 [1..<Suc k] \<le> xs ! i)" for k
    by (induction k) (auto simp: less_Suc_eq)
  from this[of "length xs - 1"] assms
  show "min_index xs < length xs" "\<forall>i<length xs. xs ! min_index xs \<le> xs ! i"
    by (simp_all add: min_index_def)
qed

lemma sum_list_update_int: "k < length xs \<Longrightarrow> sum_list (xs[k := x]) = sum_list xs + x - (xs ! k :: int)"
  by (induction xs arbitrary: k) (auto split: nat.splits)

text \<open>What the loop knows after placing units of total cost \<open>placed\<close>, each costing at most \<open>M\<close>.\<close>

definition lpt_inv :: "nat \<Rightarrow> int \<Rightarrow> int \<Rightarrow> int list \<Rightarrow> bool" where
  "lpt_inv parts M placed load \<longleftrightarrow>
     length load = parts \<and> sum_list load = placed \<and> (\<forall>x\<in>set load. 0 \<le> x) \<and>
     (\<forall>p<parts. int parts * load ! p \<le> placed + (int parts - 1) * M)"

lemma load_fits:
  assumes "\<forall>x\<in>set load. 0 \<le> x" "p < length load" "0 \<le> c" "sum_list load + c \<le> 9223372036854775807"
  shows "i64 (load ! p + c) = load ! p + c" "0 \<le> load ! p"
proof -
  have "load ! p \<le> sum_list load" using assms(1,2) by (intro member_le_sum_list) auto
  moreover show "0 \<le> load ! p" using assms(1,2) by simp
  ultimately show "i64 (load ! p + c) = load ! p + c" using assms(3,4) by (intro i64_id) auto
qed

lemma set_update_nonneg: "\<forall>x\<in>set xs. (0::int) \<le> x \<Longrightarrow> 0 \<le> y \<Longrightarrow> \<forall>x\<in>set (xs[k := y]). 0 \<le> x"
  using set_update_subset_insert[of xs k y] by blast

lemma lpt_inv_step:
  assumes "lpt_inv parts M placed load" "0 < parts" "0 \<le> c" "c \<le> M" "placed + c \<le> 9223372036854775807"
  shows "lpt_inv parts M (placed + c) (load[min_index load := i64 (load ! min_index load + c)])"
proof -
  have ne: "load \<noteq> []" using assms(1,2) by (auto simp: lpt_inv_def)
  let ?p = "min_index load"
  note mi = min_index_spec[OF ne]
  have len: "length load = parts" "sum_list load = placed" "\<forall>x\<in>set load. 0 \<le> x" using assms(1) by (auto simp: lpt_inv_def)
  note fits = load_fits[OF len(3) mi(1) assms(3), unfolded len(2), OF assms(5)]
  have "int (length load) * load ! ?p \<le> sum_list load"
  proof -
    have "sum_list (map (\<lambda>_. load ! ?p) load) \<le> sum_list (map (\<lambda>x. x) load)"
      using mi(2) by (intro sum_list_mono) (auto simp: in_set_conv_nth)
    then show ?thesis by (simp add: sum_list_triv)
  qed
  then have avg: "int parts * load ! ?p \<le> placed" using len by simp
  have cM: "(int parts - 1) * c \<le> (int parts - 1) * M"
    using assms(2,4) by (intro mult_left_mono) auto
  have "int parts * (load ! ?p + c) \<le> placed + c + (int parts - 1) * M"
    using avg cM by (simp add: algebra_simps)
  moreover have "int parts * load ! q \<le> placed + c + (int parts - 1) * M" if "q < parts" for q
    using assms(1,3) that by (fastforce simp: lpt_inv_def)
  moreover have "sum_list (load[?p := load ! ?p + c]) = placed + c"
    using mi(1) len(2) by (simp add: sum_list_update_int)
  moreover have "\<forall>x\<in>set (load[?p := load ! ?p + c]). 0 \<le> x"
    by (rule set_update_nonneg[OF len(3)]) (use fits(2) assms(3) in simp)
  ultimately show ?thesis using mi(1) len fits(1) by (simp add: lpt_inv_def nth_list_update)
qed

lemma lpt_bound:
  assumes "lpt cost us (load, up) = (load', up')" "lpt_inv parts M placed load" "0 < parts"
    and "\<forall>u\<in>set us. 0 \<le> cost ! u \<and> cost ! u \<le> M" "placed + sum_list (map ((!) cost) us) \<le> 9223372036854775807"
  shows "lpt_inv parts M (placed + sum_list (map ((!) cost) us)) load'"
  using assms
proof (induction cost us "(load, up)" arbitrary: load up placed rule: lpt.induct)
  case (2 cost u us load up)
  have "0 \<le> sum_list (map ((!) cost) us)" using 2(5) by (intro sum_list_nonneg) auto
  then have step: "lpt_inv parts M (placed + cost ! u) (load[min_index load := i64 (load ! min_index load + cost ! u)])"
    using 2(3-6) by (intro lpt_inv_step) auto
  from 2(1)[OF refl _ step 2(4)] 2(2,5,6) show ?case by (simp add: Let_def add.assoc)
qed simp

text \<open>Every unit gets a partition; the load vector is the cost placed on each.\<close>

lemma lpt_places:
  assumes "lpt cost us (load, up) = (load', up')" "distinct us" "set us \<subseteq> {..<length up}" "load \<noteq> []"
  shows "length up' = length up \<and> (\<forall>u<length up. u \<notin> set us \<longrightarrow> up' ! u = up ! u) \<and> (\<forall>u\<in>set us. up' ! u < length load)"
  using assms
proof (induction cost us "(load, up)" arbitrary: load up rule: lpt.induct)
  case (2 cost u us load up)
  let ?p = "min_index load"
  let ?load = "load[?p := i64 (load ! ?p + cost ! u)]" and ?up = "up[u := ?p]"
  have p: "?p < length load" using min_index_spec(1)[OF 2(5)] .
  have r: "lpt cost us (?load, ?up) = (load', up')" using 2(2) by (simp add: Let_def)
  have IH: "length up' = length ?up" "\<forall>v<length ?up. v \<notin> set us \<longrightarrow> up' ! v = ?up ! v" "\<forall>v\<in>set us. up' ! v < length ?load"
    using 2(1)[OF refl r] 2(3-5) by auto
  have u: "u < length up" "u \<notin> set us" using 2(3,4) by auto
  then have "up' ! u = ?p" using IH(2) by simp
  with IH p u show ?case by (auto simp: nth_list_update)
qed simp

lemma lpt_loads:
  assumes "lpt cost us (load, up) = (load', up')" "distinct us" "set us \<subseteq> {..<length up}" "load \<noteq> []"
    and "\<forall>x\<in>set load. 0 \<le> x" "\<forall>u\<in>set us. 0 \<le> cost ! u" "sum_list load + sum_list (map ((!) cost) us) \<le> 9223372036854775807"
  shows "\<forall>p<length load. load' ! p = load ! p + sum_list (map ((!) cost) (filter (\<lambda>u. up' ! u = p) us))"
  using assms
proof (induction cost us "(load, up)" arbitrary: load up rule: lpt.induct)
  case (2 cost u us load up)
  let ?p = "min_index load"
  have p: "?p < length load" using min_index_spec(1)[OF 2(5)] .
  have "0 \<le> sum_list (map ((!) cost) us)" using 2(7) by (intro sum_list_nonneg) auto
  then have s: "sum_list load + cost ! u \<le> 9223372036854775807" using 2(8) by simp
  have c: "0 \<le> cost ! u" using 2(7) by simp
  note fits = load_fits[OF 2(6) p c s]
  let ?load = "load[?p := i64 (load ! ?p + cost ! u)]" and ?up = "up[u := ?p]"
  have r: "lpt cost us (?load, ?up) = (load', up')" using 2(2) by (simp add: Let_def)
  have nn: "\<forall>x\<in>set ?load. 0 \<le> x" by (rule set_update_nonneg[OF 2(6)]) (use fits c in simp)
  have "sum_list ?load = sum_list load + cost ! u" using p fits(1) by (simp add: sum_list_update_int)
  then have IH: "\<forall>q<length ?load. load' ! q = ?load ! q + sum_list (map ((!) cost) (filter (\<lambda>v. up' ! v = q) us))"
    using 2(1)[OF refl r _ _ _ nn] 2(3-5,7,8) by simp
  have u: "u < length up" "u \<notin> set us" using 2(3,4) by auto
  have "?load \<noteq> []" using 2(5) by simp
  with lpt_places[OF r] 2(3,4) u have "up' ! u = ?p" by auto
  with IH p fits(1) show ?case by (auto simp: nth_list_update)
qed simp

subsection \<open>The partition\<close>

definition work_of :: "graph_task list \<Rightarrow> nat \<Rightarrow> int" where
  "work_of t i = max 1 (g_cost (t ! i))"

definition part_load :: "graph_task list \<Rightarrow> nat list \<Rightarrow> nat \<Rightarrow> int" where
  "part_load t part p = sum_list (map (work_of t) (filter (\<lambda>i. part ! i = p) [0..<length t]))"

text \<open>Work that sums up within 64 bits.\<close>

definition work_fits :: "graph_task list \<Rightarrow> bool" where
  "work_fits t \<longleftrightarrow> sum_list (map (work_of t) [0..<length t]) \<le> 9223372036854775807"

lemma work_part:
  assumes "m \<le> length t"
  shows "0 \<le> sum_list (map (work_of t) (filter P [0..<m]))"
    "sum_list (map (work_of t) (filter P [0..<m])) \<le> sum_list (map (work_of t) [0..<length t])"
proof -
  have nn: "0 \<le> work_of t i" for i by (simp add: work_of_def)
  then show "0 \<le> sum_list (map (work_of t) (filter P [0..<m]))" by (intro sum_list_nonneg) auto
  have "sum_list (map (work_of t) (filter P [0..<m])) = (\<Sum>i\<in>{i. i < m \<and> P i}. work_of t i)"
    by (subst sum_list_distinct_conv_sum_set) (auto intro: sum.cong)
  also have "\<dots> \<le> (\<Sum>i\<in>{..<length t}. work_of t i)" by (rule sum_mono2) (use nn assms in auto)
  also have "\<dots> = sum_list (map (work_of t) [0..<length t])"
    by (simp add: sum_list_distinct_conv_sum_set lessThan_atLeast0)
  finally show "sum_list (map (work_of t) (filter P [0..<m])) \<le> sum_list (map (work_of t) [0..<length t])" .
qed

lemma unit_costs_length: "length (unit_costs t unit units) = nat units"
proof -
  have "length (foldl (\<lambda>cost i. cost[nat (unit ! i) := f cost i]) c is) = length c" for f and c :: "int list" and "is"
    by (induction "is" arbitrary: c) auto
  then show ?thesis by (simp add: unit_costs_def)
qed

lemma unit_costs_sum:
  assumes "length unit = length t" "\<forall>j<length t. 0 \<le> unit ! j \<and> unit ! j < units" "work_fits t"
  shows "\<forall>u<nat units. unit_costs t unit units ! u = sum_list (map (work_of t) (filter (\<lambda>i. nat (unit ! i) = u) [0..<length t]))"
proof -
  let ?f = "\<lambda>cost i. cost[nat (unit ! i) := i64 (cost ! nat (unit ! i) + max 1 (g_cost (t ! i)))]"
  let ?s = "\<lambda>u m. sum_list (map (work_of t) (filter (\<lambda>i. nat (unit ! i) = u) [0..<m]))"
  have "length (foldl ?f (replicate (nat units) 0) [0..<m]) = nat units \<and>
    (\<forall>u<nat units. foldl ?f (replicate (nat units) 0) [0..<m] ! u = ?s u m)" if "m \<le> length t" for m
    using that
  proof (induction m)
    case (Suc m)
    let ?u = "nat (unit ! m)"
    have "0 \<le> unit ! m \<and> unit ! m < units" using Suc.prems assms(2) by simp
    then have u: "?u < nat units" by simp
    let ?F = "foldl ?f (replicate (nat units) 0) [0..<m]"
    have IH: "length ?F = nat units" "\<And>v. v < nat units \<Longrightarrow> ?F ! v = ?s v m" using Suc by auto
    have at: "?s ?u (Suc m) = ?s ?u m + max 1 (g_cost (t ! m))" by (simp add: work_of_def)
    have "i64 (?s ?u (Suc m)) = ?s ?u (Suc m)"
      using work_part[OF Suc.prems, of "\<lambda>i. nat (unit ! i) = ?u"] assms(3) unfolding work_fits_def by (intro i64_id) linarith+
    then have "foldl ?f (replicate (nat units) 0) [0..<Suc m] = ?F[?u := ?s ?u (Suc m)]" using IH(2)[OF u] at by simp
    moreover have "?F[?u := ?s ?u (Suc m)] ! v = ?s v (Suc m)" if "v < nat units" for v
      using IH(2)[OF that] IH(1) u by (cases "v = ?u") auto
    ultimately show ?case using IH(1) by (simp only: length_list_update) blast
  qed simp
  from this[of "length t"] show ?thesis by (simp add: unit_costs_def)
qed

lemma sum_list_filter_swap:
  fixes f :: "nat \<Rightarrow> int"
  assumes "distinct us" "\<forall>i\<in>set xs. g i \<in> set us"
  shows "sum_list (map (\<lambda>u. sum_list (map f (filter (\<lambda>i. g i = u) xs))) (filter P us))
    = sum_list (map f (filter (\<lambda>i. P (g i)) xs))"
  using assms(2)
proof (induction xs)
  case (Cons x xs)
  have "sum_list (map (\<lambda>u. if g x = u then f x else 0) (filter P us)) = (if P (g x) then f x else 0)"
  proof -
    have "sum_list (map (\<lambda>u. if y = u then v else 0) (filter P us)) = (if P y \<and> y \<in> set us then v else 0)" for y and v :: int
      using assms(1) by (induction us) auto
    then show ?thesis using Cons.prems by simp
  qed
  moreover have "sum_list (map (\<lambda>u. sum_list (map f (filter (\<lambda>i. g i = u) (x # xs)))) (filter P us))
    = sum_list (map (\<lambda>u. (if g x = u then f x else 0) + sum_list (map f (filter (\<lambda>i. g i = u) xs))) (filter P us))"
    by (rule arg_cong[where f = sum_list]) auto
  ultimately show ?case using Cons by (simp add: sum_list_addf)
qed (simp add: sum_list_0)

definition max_unit_cost :: "graph_task list \<Rightarrow> int" where
  "max_unit_cost t = Max (set (unit_costs t (fst (assign_units t)) (snd (assign_units t))))"

lemma partition_graph_run:
  assumes v: "valid_graph t" and parts: "1 < parts" and ne: "t \<noteq> []"
  obtains unit units cost us load up where
    "assign_units t = (unit, units)" "cost = unit_costs t unit units" "distinct us" "set us = {..<nat units}"
    "lpt cost us (replicate (nat parts) 0, replicate (nat units) 0) = (load, up)"
    "\<forall>u<nat units. up ! u < nat parts"
    "partition_graph t parts = map (\<lambda>i. up ! nat (unit ! i)) [0..<length t]"
proof -
  obtain unit units where au: "assign_units t = (unit, units)" by fastforce
  define cost where "cost = unit_costs t unit units"
  define us where "us = sort_key (\<lambda>u. - (cost ! u)) [0..<nat units]"
  have us: "distinct us" "set us = {..<nat units}" by (auto simp: us_def)
  obtain load up where r: "lpt cost us (replicate (nat parts) 0, replicate (nat units) 0) = (load, up)" by fastforce
  have rne: "replicate (nat parts) (0::int) \<noteq> []" using parts by simp
  have "\<forall>u<nat units. up ! u < nat parts" using lpt_places[OF r us(1) _ rne] us(2) by auto
  moreover have "partition_graph t parts = map (\<lambda>i. up ! nat (unit ! i)) [0..<length t]"
    using parts ne au r by (simp add: partition_graph_def cost_def us_def Let_def)
  ultimately show thesis using that[OF au cost_def us r] by blast
qed

text \<open>The loads, when all work fits 64 bits.\<close>

lemma partition_graph_loads:
  assumes v: "valid_graph t" and parts: "1 < parts" and ne: "t \<noteq> []" and fits: "work_fits t"
  obtains unit units cost load up where
    "assign_units t = (unit, units)" "cost = unit_costs t unit units" "length cost = nat units"
    "partition_graph t parts = map (\<lambda>i. up ! nat (unit ! i)) [0..<length t]"
    "lpt_inv (nat parts) (max_unit_cost t) (sum_list cost) load"
    "\<forall>p<nat parts. load ! p = sum_list (map ((!) cost) (filter (\<lambda>u. up ! u = p) [0..<nat units]))"
    "sum_list cost = sum_list (map (work_of t) [0..<length t])"
proof -
  obtain unit units cost us load up where run: "assign_units t = (unit, units)" "cost = unit_costs t unit units"
    "distinct us" "set us = {..<nat units}"
    "lpt cost us (replicate (nat parts) 0, replicate (nat units) 0) = (load, up)"
    "partition_graph t parts = map (\<lambda>i. up ! nat (unit ! i)) [0..<length t]"
    by (rule partition_graph_run[OF v parts ne])
  note sp = assign_units_spec[OF v run(1)]
  have inr: "\<forall>i\<in>set [0..<length t]. nat (unit ! i) \<in> set [0..<nat units]"
  proof
    fix i assume "i \<in> set [0..<length t]"
    with sp(3)[of i] show "nat (unit ! i) \<in> set [0..<nat units]" by auto
  qed
  have uc: "length cost = nat units"
    "\<And>u. u < nat units \<Longrightarrow> cost ! u = sum_list (map (work_of t) (filter (\<lambda>i. nat (unit ! i) = u) [0..<length t]))"
    using unit_costs_sum[OF sp(1) _ fits, of units] sp(3) by (auto simp: run(2) unit_costs_length)
  have cpos: "0 \<le> cost ! u \<and> cost ! u \<le> max_unit_cost t" if "u \<in> set us" for u
  proof -
    from that run(4) uc(1) have u: "u < length cost" by simp
    have "0 \<le> cost ! u" unfolding uc(2)[OF u[unfolded uc(1)]] by (rule work_part) simp
    moreover have "cost ! u \<le> max_unit_cost t" using u by (simp add: max_unit_cost_def run(1,2))
    ultimately show ?thesis by blast
  qed
  have M0: "0 \<le> max_unit_cost t"
  proof -
    from ne sp(3)[of 0] have "0 < nat units" by auto
    then show ?thesis using cpos[of 0] run(4) by auto
  qed
  have us: "sum_list (map ((!) cost) us) = sum_list cost"
  proof -
    have "sum_list (map ((!) cost) us) = sum_list (map ((!) cost) [0..<length cost])"
      using run(3,4) uc(1) by (simp add: sum_list_distinct_conv_sum_set lessThan_atLeast0)
    then show ?thesis by (simp only: map_nth)
  qed
  have "sum_list cost = sum_list (map (\<lambda>u. sum_list (map (work_of t) (filter (\<lambda>i. nat (unit ! i) = u) [0..<length t]))) (filter (\<lambda>_. True) [0..<nat units]))"
  proof -
    have "sum_list cost = sum_list (map ((!) cost) [0..<nat units])" using uc(1) map_nth[of cost] by simp
    also have "map ((!) cost) [0..<nat units] = map (\<lambda>u. sum_list (map (work_of t) (filter (\<lambda>i. nat (unit ! i) = u) [0..<length t]))) [0..<nat units]"
      using uc(2) by auto
    finally show ?thesis by simp
  qed
  also have "\<dots> = sum_list (map (work_of t) [0..<length t])"
    unfolding sum_list_filter_swap[OF distinct_upt inr] by simp
  finally have total: "sum_list cost = sum_list (map (work_of t) [0..<length t])" .
  then have small: "sum_list (map ((!) cost) us) \<le> 9223372036854775807" using fits us by (simp add: work_fits_def)
  have "lpt_inv (nat parts) (max_unit_cost t) 0 (replicate (nat parts) 0)"
    using parts M0 by (simp add: lpt_inv_def sum_list_replicate)
  from lpt_bound[OF run(5) this] cpos parts small
  have inv: "lpt_inv (nat parts) (max_unit_cost t) (sum_list cost) load" by (simp add: us)
  have rne: "replicate (nat parts) (0::int) \<noteq> []" using parts by simp
  have "\<forall>p<nat parts. load ! p = sum_list (map ((!) cost) (filter (\<lambda>u. up ! u = p) us))"
    using lpt_loads[OF run(5,3) _ rne] run(4) cpos small by (simp add: sum_list_replicate)
  moreover have "sum_list (map ((!) cost) (filter (\<lambda>u. up ! u = p) us))
      = sum_list (map ((!) cost) (filter (\<lambda>u. up ! u = p) [0..<nat units]))" for p
    using run(3,4) by (simp add: sum_list_distinct_conv_sum_set lessThan_atLeast0)
  ultimately show thesis using that[OF run(1,2) uc(1) run(6) inv _ total] by simp
qed

lemma partition_in_range:
  assumes "valid_graph t"
  shows "length (partition_graph t parts) = length t \<and>
    (\<forall>p\<in>set (partition_graph t parts). p < nat (max 1 parts))"
proof (cases "parts \<le> 1 \<or> t = []")
  case False
  then have "1 < parts" "t \<noteq> []" by auto
  then obtain unit units cost us load up where r: "assign_units t = (unit, units)"
    "\<forall>u<nat units. up ! u < nat parts"
    "partition_graph t parts = map (\<lambda>i. up ! nat (unit ! i)) [0..<length t]"
    by (rule partition_graph_run[OF assms])
  have "nat (unit ! i) < nat units" if "i < length t" for i
    using assign_units_spec(3)[OF assms r(1) that] by simp
  with r show ?thesis using \<open>1 < parts\<close> by (auto simp: max_def)
qed (auto simp: partition_graph_def)

lemma partition_together:
  assumes "valid_graph t" "a < length t" "g_kind (t ! a) = kArchive" "j \<in> set (deps_of t a)"
    "g_kind (t ! j) = kCompile" "\<forall>b<a. g_kind (t ! b) = kArchive \<longrightarrow> j \<notin> set (deps_of t b)"
  shows "partition_graph t parts ! j = partition_graph t parts ! a"
proof (cases "parts \<le> 1 \<or> t = []")
  case True
  then show ?thesis using assms(2) deps_of_range[OF assms(1,2,4)] by (auto simp: partition_graph_def)
next
  case False
  then have "1 < parts" "t \<noteq> []" by auto
  then obtain unit units cost us load up where r: "assign_units t = (unit, units)"
    "partition_graph t parts = map (\<lambda>i. up ! nat (unit ! i)) [0..<length t]"
    by (rule partition_graph_run[OF assms(1)])
  have "unit ! j = unit ! a" using assign_units_spec(4)[OF assms(1) r(1) assms(2-6)] .
  with r(2) assms(2) deps_of_range[OF assms(1,2,4)] show ?thesis by simp
qed

lemma partition_balanced:
  assumes "valid_graph t" "1 < parts" "t \<noteq> []" "work_fits t" "p < nat parts"
  shows "parts * part_load t (partition_graph t parts) p
    \<le> sum_list (map (work_of t) [0..<length t]) + (parts - 1) * max_unit_cost t"
proof -
  obtain unit units cost load up where r: "assign_units t = (unit, units)" "cost = unit_costs t unit units" "length cost = nat units"
    "partition_graph t parts = map (\<lambda>i. up ! nat (unit ! i)) [0..<length t]"
    "lpt_inv (nat parts) (max_unit_cost t) (sum_list cost) load"
    "\<forall>p<nat parts. load ! p = sum_list (map ((!) cost) (filter (\<lambda>u. up ! u = p) [0..<nat units]))"
    "sum_list cost = sum_list (map (work_of t) [0..<length t])"
    by (rule partition_graph_loads[OF assms(1-4)])
  note sp = assign_units_spec[OF assms(1) r(1)]
  have uc: "cost ! u = sum_list (map (work_of t) (filter (\<lambda>i. nat (unit ! i) = u) [0..<length t]))" if "u < nat units" for u
    using unit_costs_sum[OF sp(1) _ assms(4), of units] sp(3) that by (auto simp: r(2))
  have "nat (unit ! i) < nat units" if "i < length t" for i using sp(3)[OF that] by simp
  then have inr: "\<forall>i\<in>set [0..<length t]. nat (unit ! i) \<in> set [0..<nat units]" by simp
  have group: "sum_list (map ((!) cost) (filter P [0..<nat units]))
      = sum_list (map (work_of t) (filter (\<lambda>i. P (nat (unit ! i))) [0..<length t]))" for P
  proof -
    have "map ((!) cost) (filter P [0..<nat units])
        = map (\<lambda>u. sum_list (map (work_of t) (filter (\<lambda>i. nat (unit ! i) = u) [0..<length t]))) (filter P [0..<nat units])"
      using uc by auto
    then show ?thesis by (simp only: sum_list_filter_swap[OF distinct_upt inr])
  qed
  have "part_load t (partition_graph t parts) p
      = sum_list (map (work_of t) (filter (\<lambda>i. up ! nat (unit ! i) = p) [0..<length t]))"
  proof -
    have "filter (\<lambda>i. map (\<lambda>i. up ! nat (unit ! i)) [0..<length t] ! i = p) [0..<length t]
        = filter (\<lambda>i. up ! nat (unit ! i) = p) [0..<length t]" by (rule filter_cong) auto
    then show ?thesis unfolding part_load_def r(4) by (simp only:)
  qed
  also have "\<dots> = load ! p" using r(6) assms(5) group[of "\<lambda>u. up ! u = p"] by simp
  finally have L: "part_load t (partition_graph t parts) p = load ! p" .
  from r(5) assms(2,5) show ?thesis unfolding L r(7)[symmetric] by (auto simp: lpt_inv_def)
qed

end
