(* ===== verification/Dc_Submit.thy ===== *)
theory Dc_Submit
  imports Dc_Claim Dc_Graph
begin

text \<open>
  \<open>SubmitBuild\<close> (\<open>src/coordinator.cpp:153-177, 350-444\<close>): the checks on the task graph, the plan
  that resolves what it can from the action cache in dependency order, and the rows the transaction
  inserts. The reply's \<open>cached\<close> counter is captured by reference: an attempt of the transaction
  that is rolled back leaves its increments behind. The plan is a vector of \<open>planned\<close> entries, one
  for the six vectors of the code; the empty string stands for NULL, as in \<open>pg_array(.., true)\<close>.
  The lemmas show that a submitted build is consistent with the rest of the tables.
\<close>

section \<open>The request\<close>

record task_spec =
  sp_id :: int
  sp_kind :: int
  sp_name :: string
  sp_deps :: "int list"
  sp_key :: string
  sp_input :: string
  sp_args :: "string list"
  sp_cost :: int

record build_spec =
  bs_toolchain :: string
  bs_tasks :: "task_spec list"
  bs_partitions :: int

definition graph_of :: "task_spec list \<Rightarrow> graph_task list" where
  "graph_of ts = map (\<lambda>t. \<lparr>g_id = sp_id t, g_kind = sp_kind t, g_cost = sp_cost t, g_deps = sp_deps t\<rparr>) ts"

definition bad_compile :: "task_spec \<Rightarrow> bool" where
  "bad_compile t \<longleftrightarrow> sp_kind t = 0 \<and> (\<not> valid_hash (sp_key t) \<or> \<not> valid_hash (sp_input t))"

section \<open>The plan\<close>

record planned =
  pl_state :: tstate
  pl_output :: string
  pl_key :: string
  pl_inputs :: string
  pl_names :: string
  pl_pending :: nat

definition unplanned :: planned where
  "unplanned = \<lparr>pl_state = TWaiting, pl_output = [], pl_key = [], pl_inputs = [], pl_names = [], pl_pending = 0\<rparr>"

record plan =
  pn_tasks :: "planned list"
  pn_hits :: "string \<rightharpoonup> string"
  pn_cached :: int

text \<open>One SELECT for the keys of all compile tasks.\<close>

definition cache_lookup :: "string list \<Rightarrow> db \<Rightarrow> (string \<rightharpoonup> string)" where
  "cache_lookup ks db = foldl (\<lambda>h c. h(c_key c \<mapsto> c_output c)) Map.empty (filter (\<lambda>c. c_key c \<in> set ks) (db_cache db))"

definition start_plan :: "task_spec list \<Rightarrow> db \<Rightarrow> int \<Rightarrow> plan" where
  "start_plan ts db r =
     \<lparr>pn_tasks = replicate (length ts) unplanned,
      pn_hits = cache_lookup (map sp_key (filter (\<lambda>t. sp_kind t = 0) ts)) db,
      pn_cached = r\<rparr>"

definition dep_unknown :: "planned list \<Rightarrow> int \<Rightarrow> bool" where
  "dep_unknown pls d \<longleftrightarrow> pl_output (pls ! nat d) = []"

definition plan_task :: "sha_fn \<Rightarrow> cas \<Rightarrow> db \<Rightarrow> string \<Rightarrow> task_spec list \<Rightarrow> nat \<Rightarrow> plan \<Rightarrow> string option \<times> plan" where
  "plan_task sha cas db tc ts i p =
     (let t = ts ! i; pls = pn_tasks p;
          unknown = filter (dep_unknown pls) (sp_deps t);
          known = filter (\<lambda>d. \<not> dep_unknown pls d) (sp_deps t);
          ins = map (\<lambda>d. pl_output (pls ! nat d)) known;
          nms = map (\<lambda>d. flat_name (sp_name (ts ! nat d))) known;
          (key, inputs, names, hits) =
            (if sp_kind t = 0 then (sp_key t, sp_input t, ''in.i'', pn_hits p)
             else if unknown = [] then
               let k = action_key sha (sp_kind t) tc (join_lines (sp_args t)) nms ins
               in (k, join_lines ins, join_lines nms,
                   if pn_hits p k \<noteq> None then pn_hits p
                   else case cache_rows k db of c # _ \<Rightarrow> (pn_hits p)(k \<mapsto> c_output c) | [] \<Rightarrow> pn_hits p)
             else ([], [], [], pn_hits p));
          entry = \<lparr>pl_state = TWaiting, pl_output = [], pl_key = key, pl_inputs = inputs, pl_names = names,
                   pl_pending = length unknown\<rparr>
      in if key \<noteq> [] \<and> hits key \<noteq> None
         then (None, p\<lparr>pn_tasks := pls[i := entry\<lparr>pl_state := TCached, pl_output := the (hits key)\<rparr>],
                       pn_hits := hits, pn_cached := pn_cached p + 1\<rparr>)
         else if unknown = []
         then if sp_kind t = 0 \<and> \<not> cas_has cas (sp_input t)
              then (Some (''input of '' @ sp_name t @ '' not uploaded''), p)
              else (None, p\<lparr>pn_tasks := pls[i := entry\<lparr>pl_state := TReady\<rparr>], pn_hits := hits\<rparr>)
         else (None, p\<lparr>pn_tasks := pls[i := entry], pn_hits := hits\<rparr>))"

fun plan_tasks :: "sha_fn \<Rightarrow> cas \<Rightarrow> db \<Rightarrow> string \<Rightarrow> task_spec list \<Rightarrow> nat list \<Rightarrow> plan \<Rightarrow> string option \<times> plan" where
  "plan_tasks sha cas db tc ts [] p = (None, p)"
| "plan_tasks sha cas db tc ts (i # is) p =
     (case plan_task sha cas db tc ts i p of
        (Some e, p') \<Rightarrow> (Some e, p')
      | (None, p') \<Rightarrow> plan_tasks sha cas db tc ts is p')"

section \<open>The rows\<close>

definition opt_text :: "string \<Rightarrow> string option" where
  "opt_text s = (if s = [] then None else Some s)"

definition new_task :: "nat \<Rightarrow> nat \<Rightarrow> string \<Rightarrow> task_spec list \<Rightarrow> int list \<Rightarrow> nat list \<Rightarrow> planned list \<Rightarrow> nat \<Rightarrow> task_row" where
  "new_task b uid tc ts rank part pls i =
     (let t = ts ! i; p = pls ! i
      in \<lparr>t_uid = uid + i, t_build = b, t_id = i, t_kind = sp_kind t, t_name = sp_name t, t_key = opt_text (pl_key p),
          t_input = opt_text (sp_input t), t_args = join_lines (sp_args t), t_inputs = opt_text (pl_inputs p),
          t_input_names = opt_text (pl_names p), t_toolchain = tc, t_cost = sp_cost t, t_priority = rank ! i,
          t_part = int (part ! i), t_state = pl_state p, t_pending = int (pl_pending p), t_attempts = 0,
          t_lease_owner = None, t_lease_until = None, t_output = opt_text (pl_output p), t_log = None,
          t_exec_ms = None, t_last_failed_by = None, t_ready_at = None\<rparr>)"

definition deps_of_spec :: "nat \<Rightarrow> task_spec list \<Rightarrow> nat \<Rightarrow> dep_row list" where
  "deps_of_spec b ts i =
     (let ds = sp_deps (ts ! i)
      in map (\<lambda>k. \<lparr>d_build = b, d_task = i, d_dep = nat (ds ! k), d_pos = k\<rparr>) [0..<length ds])"

definition new_deps :: "nat \<Rightarrow> task_spec list \<Rightarrow> dep_row list" where
  "new_deps b ts = concat (map (deps_of_spec b ts) [0..<length ts])"

definition dep_key :: "dep_row \<Rightarrow> nat \<times> nat \<times> nat" where
  "dep_key d = (d_build d, d_dep d, d_task d)"

definition hit_keys :: "planned list \<Rightarrow> string list" where
  "hit_keys pls = map pl_key (filter (\<lambda>p. pl_state p = TCached) pls)"

definition count_hits :: "string list \<Rightarrow> db \<Rightarrow> db" where
  "count_hits ks db =
     db\<lparr>db_cache := upd_where (\<lambda>c. c_key c \<in> set ks) (\<lambda>c. c\<lparr>c_hits := c_hits c + 1\<rparr>) (db_cache db)\<rparr>"

definition insert_build :: "string \<Rightarrow> nat \<Rightarrow> db \<Rightarrow> db" where
  "insert_build tc n db =
     db\<lparr>db_builds := db_builds db @ [\<lparr>b_id = db_next_build db, b_toolchain = tc, b_state = BRunning, b_total = n,
          b_finished_at = None\<rparr>], db_next_build := db_next_build db + 1\<rparr>"

definition insert_tasks :: "nat \<Rightarrow> string \<Rightarrow> task_spec list \<Rightarrow> int list \<Rightarrow> nat list \<Rightarrow> planned list \<Rightarrow> db \<Rightarrow> db" where
  "insert_tasks b tc ts rank part pls db =
     db\<lparr>db_tasks := db_tasks db @ map (new_task b (db_next_uid db) tc ts rank part pls) [0..<length ts],
        db_next_uid := db_next_uid db + length ts\<rparr>"

section \<open>The transaction and the call\<close>

text \<open>\<open>dup\<close> is the error the server answers to a second row with the same primary key.\<close>

definition submit :: "sha_fn \<Rightarrow> cas \<Rightarrow> db_error \<Rightarrow> int \<Rightarrow> build_spec \<Rightarrow> nat list \<Rightarrow> int list \<Rightarrow> nat list \<Rightarrow> db \<Rightarrow> int \<Rightarrow> int \<times> (db, nat) body" where
  "submit sha cas dup now spec order rank part db r =
     (let ts = bs_tasks spec; tc = bs_toolchain spec; b = db_next_build db; db1 = insert_build tc (length ts) db
      in case plan_tasks sha cas db1 tc ts order (start_plan ts db1 r) of
           (Some e, p) \<Rightarrow> (pn_cached p, Throws e)
         | (None, p) \<Rightarrow>
             let pls = pn_tasks p;
                 db2 = count_hits (hit_keys pls) db1;
                 db3 = insert_tasks b tc ts rank part pls db2;
                 ds = new_deps b ts
             in if \<not> distinct (map dep_key ds) then (pn_cached p, Throws_db dup)
                else (pn_cached p, Finished (maybe_finish now b (db3\<lparr>db_deps := db_deps db3 @ ds\<rparr>)) b))"

text \<open>What an attempt has counted when a statement fails after \<open>n\<close> tasks of the plan.\<close>

definition submit_partial :: "sha_fn \<Rightarrow> cas \<Rightarrow> build_spec \<Rightarrow> nat list \<Rightarrow> nat \<Rightarrow> db \<Rightarrow> int \<Rightarrow> int" where
  "submit_partial sha cas spec order n db r =
     (let ts = bs_tasks spec; db1 = insert_build (bs_toolchain spec) (length ts) db
      in pn_cached (snd (plan_tasks sha cas db1 (bs_toolchain spec) ts (take n order) (start_plan ts db1 r))))"

record submit_reply =
  sr_build :: nat
  sr_cached :: int

definition submit_build ::
    "sha_fn \<Rightarrow> cas \<Rightarrow> txn_env \<Rightarrow> int \<Rightarrow> build_spec \<Rightarrow> db \<Rightarrow> rpc_status \<times> submit_reply \<times> db" where
  "submit_build sha cas env now spec db =
     (let ts = bs_tasks spec; none = \<lparr>sr_build = 0, sr_cached = 0\<rparr>
      in case find bad_compile ts of
           Some t \<Rightarrow> (Status_error Invalid_argument (''compile task '' @ sp_name t @ '' needs a key and an input''), none, db)
         | None \<Rightarrow>
             (case topo_order (graph_of ts) of
                Inl e \<Rightarrow> (Status_error Invalid_argument (topo_msg e), none, db)
              | Inr order \<Rightarrow>
                  let g = graph_of ts; rank = upward_rank g;
                      part = partition_graph g (if bs_partitions spec > 0 then bs_partitions spec else live_partitions now db)
                  in (case run_txn env (submit_partial sha cas spec order) (submit sha cas (refuses env) now spec order rank part) db 0 of
                        (db', c, Returned b) \<Rightarrow> (Status_ok, \<lparr>sr_build = b, sr_cached = c\<rparr>, db')
                      | (db', c, Raised_db e) \<Rightarrow> (Status_error Unavailable (''SubmitBuild: '' @ de_message e), \<lparr>sr_build = 0, sr_cached = c\<rparr>, db')
                      | (db', c, Raised e) \<Rightarrow> (Status_error Failed_precondition e, \<lparr>sr_build = 0, sr_cached = c\<rparr>, db'))))"

section \<open>What the plan decides\<close>

definition hits_ok :: "db \<Rightarrow> (string \<rightharpoonup> string) \<Rightarrow> bool" where
  "hits_ok db hits \<longleftrightarrow> (\<forall>k h. hits k = Some h \<longrightarrow> (\<exists>c\<in>set (db_cache db). c_key c = k \<and> c_output c = h))"

definition dep_outputs :: "planned list \<Rightarrow> task_spec \<Rightarrow> string list" where
  "dep_outputs pls t = map (\<lambda>d. pl_output (pls ! nat d)) (sp_deps t)"

definition dep_file_names :: "task_spec list \<Rightarrow> task_spec \<Rightarrow> string list" where
  "dep_file_names ts t = map (\<lambda>d. flat_name (sp_name (ts ! nat d))) (sp_deps t)"

definition planned_ok :: "sha_fn \<Rightarrow> cas \<Rightarrow> db \<Rightarrow> string \<Rightarrow> task_spec list \<Rightarrow> planned list \<Rightarrow> nat \<Rightarrow> bool" where
  "planned_ok sha cas db tc ts pls i \<longleftrightarrow>
     (let t = ts ! i; p = pls ! i; unknown = filter (dep_unknown pls) (sp_deps t)
      in pl_pending p = length unknown \<and>
         (pl_output p \<noteq> [] \<longleftrightarrow> pl_state p = TCached) \<and>
         (pl_state p = TCached \<longrightarrow> pl_key p \<noteq> [] \<and>
            (\<exists>c\<in>set (db_cache db). c_key c = pl_key p \<and> c_output c = pl_output p)) \<and>
         (sp_kind t = 0 \<longrightarrow> pl_key p = sp_key t \<and> pl_inputs p = sp_input t \<and> pl_names p = ''in.i'') \<and>
         (sp_kind t \<noteq> 0 \<and> unknown = [] \<longrightarrow>
            pl_key p = action_key sha (sp_kind t) tc (join_lines (sp_args t)) (dep_file_names ts t) (dep_outputs pls t) \<and>
            pl_inputs p = join_lines (dep_outputs pls t) \<and> pl_names p = join_lines (dep_file_names ts t)) \<and>
         (sp_kind t \<noteq> 0 \<and> unknown \<noteq> [] \<longrightarrow>
            pl_state p = TWaiting \<and> pl_key p = [] \<and> pl_inputs p = [] \<and> pl_names p = []) \<and>
         (pl_key p \<noteq> [] \<and> pl_key p \<in> c_key ` set (db_cache db) \<longrightarrow> pl_state p = TCached) \<and>
         (pl_state p \<noteq> TCached \<longrightarrow> pl_state p = (if unknown = [] then TReady else TWaiting)) \<and>
         (pl_state p = TReady \<and> sp_kind t = 0 \<longrightarrow> cas_has cas (sp_input t)))"

text \<open>The keys of all compile tasks have been looked up.\<close>

definition hits_full :: "db \<Rightarrow> task_spec list \<Rightarrow> (string \<rightharpoonup> string) \<Rightarrow> bool" where
  "hits_full db ts hits \<longleftrightarrow>
     (\<forall>t\<in>set ts. sp_kind t = 0 \<and> sp_key t \<in> c_key ` set (db_cache db) \<longrightarrow> hits (sp_key t) \<noteq> None)"

lemma foldl_upd_dom: "dom (foldl (\<lambda>h c. h(c_key c \<mapsto> c_output c)) h cs) = dom h \<union> c_key ` set cs"
  by (induction cs arbitrary: h) auto

lemma cache_lookup_some:
  assumes "c \<in> set (db_cache db)" "c_key c \<in> set ks"
  shows "cache_lookup ks db (c_key c) \<noteq> None"
proof -
  have "c_key c \<in> dom (cache_lookup ks db)" using assms by (auto simp: cache_lookup_def foldl_upd_dom)
  then show ?thesis by (simp add: domIff)
qed

lemma hits_full_lookup: "hits_full db ts (cache_lookup (map sp_key (filter (\<lambda>t. sp_kind t = 0) ts)) db)"
  unfolding hits_full_def
proof (intro ballI impI)
  fix t assume t: "t \<in> set ts" "sp_kind t = 0 \<and> sp_key t \<in> c_key ` set (db_cache db)"
  then obtain c where c: "c \<in> set (db_cache db)" "c_key c = sp_key t" by auto
  have "c_key c \<in> set (map sp_key (filter (\<lambda>t. sp_kind t = 0) ts))" using t c(2) by auto
  from cache_lookup_some[OF c(1) this] c(2) show "cache_lookup (map sp_key (filter (\<lambda>t. sp_kind t = 0) ts)) db (sp_key t) \<noteq> None" by simp
qed

definition plan_inv :: "sha_fn \<Rightarrow> cas \<Rightarrow> db \<Rightarrow> string \<Rightarrow> task_spec list \<Rightarrow> nat list \<Rightarrow> plan \<Rightarrow> bool" where
  "plan_inv sha cas db tc ts seen p \<longleftrightarrow>
     length (pn_tasks p) = length ts \<and> hits_ok db (pn_hits p) \<and> hits_full db ts (pn_hits p) \<and>
     (\<forall>i\<in>set seen. i < length ts \<and> nat ` set (sp_deps (ts ! i)) \<subseteq> set seen \<and> planned_ok sha cas db tc ts (pn_tasks p) i)"

lemma hits_ok_lookup: "hits_ok db (cache_lookup ks db)"
proof -
  have "hits_ok db (foldl (\<lambda>h c. h(c_key c \<mapsto> c_output c)) h cs)" if "hits_ok db h" "set cs \<subseteq> set (db_cache db)" for h cs
    using that
  proof (induction cs arbitrary: h)
    case (Cons c cs)
    have "hits_ok db (h(c_key c \<mapsto> c_output c))" using Cons.prems by (auto simp: hits_ok_def)
    from Cons.IH[OF this] Cons.prems(2) show ?case by (simp del: fun_upd_apply)
  qed simp
  note fold = this
  have "hits_ok db Map.empty" by (simp add: hits_ok_def)
  then show ?thesis unfolding cache_lookup_def by (rule fold) auto
qed

lemma planned_ok_cong:
  assumes "pls' ! i = pls ! i" "\<And>d. d \<in> set (sp_deps (ts ! i)) \<Longrightarrow> pls' ! nat d = pls ! nat d"
  shows "planned_ok sha cas db tc ts pls' i = planned_ok sha cas db tc ts pls i"
proof -
  have "filter (dep_unknown pls') (sp_deps (ts ! i)) = filter (dep_unknown pls) (sp_deps (ts ! i))"
    using assms(2) by (intro filter_cong) (simp_all add: dep_unknown_def)
  note u = this
  have o: "dep_outputs pls' (ts ! i) = dep_outputs pls (ts ! i)"
    using assms(2) by (simp add: dep_outputs_def)
  show ?thesis unfolding planned_ok_def Let_def assms(1) u o ..
qed

lemma plan_task_ok:
  assumes inv: "plan_inv sha cas db tc ts seen p" and i: "i < length ts" "i \<notin> set seen"
    and deps: "nat ` set (sp_deps (ts ! i)) \<subseteq> set seen"
    and cache: "\<And>c. c \<in> set (db_cache db) \<Longrightarrow> c_output c \<noteq> []"
    and res: "plan_task sha cas db tc ts i p = (None, p')"
  shows "plan_inv sha cas db tc ts (seen @ [i]) p'"
proof -
  let ?t = "ts ! i" and ?pls = "pn_tasks p"
  define unknown where "unknown = filter (dep_unknown ?pls) (sp_deps ?t)"
  have known: "filter (\<lambda>d. \<not> dep_unknown ?pls d) (sp_deps ?t) = sp_deps ?t" if "unknown = []"
    using that by (auto simp: unknown_def filter_empty_conv intro: filter_True)
  define k where "k = action_key sha (sp_kind ?t) tc (join_lines (sp_args ?t)) (dep_file_names ts ?t) (dep_outputs ?pls ?t)"
  have len: "length ?pls = length ts" and h: "hits_ok db (pn_hits p)" and hf: "hits_full db ts (pn_hits p)" using inv by (simp_all add: plan_inv_def)
  text \<open>Whatever the branch, one entry and the hits change.\<close>
  define entry where "entry key ins nms = \<lparr>pl_state = TWaiting, pl_output = [], pl_key = key, pl_inputs = ins,
    pl_names = nms, pl_pending = length unknown\<rparr>" for key ins nms
  define hits where "hits = (if sp_kind ?t \<noteq> 0 \<and> unknown = [] then
      if pn_hits p k \<noteq> None then pn_hits p
      else case cache_rows k db of c # _ \<Rightarrow> (pn_hits p)(k \<mapsto> c_output c) | [] \<Rightarrow> pn_hits p else pn_hits p)"
  define key where "key = (if sp_kind ?t = 0 then sp_key ?t else if unknown = [] then k else [])"
  define ins where "ins = (if sp_kind ?t = 0 then sp_input ?t else if unknown = [] then join_lines (dep_outputs ?pls ?t) else [])"
  define nms where "nms = (if sp_kind ?t = 0 then ''in.i'' else if unknown = [] then join_lines (dep_file_names ts ?t) else [])"
  have hits: "hits_ok db hits"
  proof (cases "cache_rows k db")
    case (Cons c cs)
    then have "c \<in> set (filter (\<lambda>c. c_key c = k) (db_cache db))" by (simp add: cache_rows_def)
    with h Cons show ?thesis by (auto simp: hits_def hits_ok_def)
  qed (use h in \<open>auto simp: hits_def\<close>)
  have full: "hits_full db ts hits"
    using hf by (auto simp: hits_def hits_full_def split: list.splits)
  have hit: "hits key \<noteq> None" if "key \<noteq> []" "key \<in> c_key ` set (db_cache db)"
  proof (cases "sp_kind ?t = 0")
    case True
    with that full i(1) show ?thesis by (auto simp: key_def hits_full_def)
  next
    case False
    with that(1) have u: "unknown = []" "key = k" by (auto simp: key_def split: if_splits)
    have "cache_rows k db \<noteq> []" using that(2) u(2) by (auto simp: cache_rows_def filter_empty_conv)
    with False u show ?thesis by (auto simp: hits_def split: list.splits)
  qed
  have run: "plan_task sha cas db tc ts i p =
     (if key \<noteq> [] \<and> hits key \<noteq> None
      then (None, p\<lparr>pn_tasks := ?pls[i := (entry key ins nms)\<lparr>pl_state := TCached, pl_output := the (hits key)\<rparr>],
                    pn_hits := hits, pn_cached := pn_cached p + 1\<rparr>)
      else if unknown = []
      then if sp_kind ?t = 0 \<and> \<not> cas_has cas (sp_input ?t)
           then (Some (''input of '' @ sp_name ?t @ '' not uploaded''), p)
           else (None, p\<lparr>pn_tasks := ?pls[i := (entry key ins nms)\<lparr>pl_state := TReady\<rparr>], pn_hits := hits\<rparr>)
      else (None, p\<lparr>pn_tasks := ?pls[i := entry key ins nms], pn_hits := hits\<rparr>))"
  proof (cases "sp_kind ?t = 0")
    case True
    then show ?thesis
      by (simp add: plan_task_def Let_def unknown_def[symmetric] key_def ins_def nms_def hits_def entry_def)
  next
    case False
    then show ?thesis
    proof (cases "unknown = []")
      case True
      note kn = known[OF True]
      show ?thesis
        unfolding plan_task_def Let_def unknown_def[symmetric] kn dep_outputs_def[symmetric] dep_file_names_def[symmetric]
          k_def[symmetric] using False True
        by (simp add: key_def ins_def nms_def hits_def entry_def)
    next
      case unk: False
      with False show ?thesis
        by (simp add: plan_task_def Let_def unknown_def[symmetric] key_def ins_def nms_def hits_def entry_def)
    qed
  qed
  obtain e where e: "pn_tasks p' = ?pls[i := e]" "pn_hits p' = hits" "pl_pending e = length unknown"
      "pl_key e = key" "pl_inputs e = ins" "pl_names e = nms"
      "key \<noteq> [] \<and> hits key \<noteq> None \<and> pl_state e = TCached \<and> hits key = Some (pl_output e) \<or>
       pl_output e = [] \<and> \<not> (key \<noteq> [] \<and> hits key \<noteq> None) \<and> pl_state e = (if unknown = [] then TReady else TWaiting) \<and>
       (sp_kind ?t = 0 \<and> unknown = [] \<longrightarrow> cas_has cas (sp_input ?t))"
  proof -
    consider (cached) "key \<noteq> [] \<and> hits key \<noteq> None" | (ready) "\<not> (key \<noteq> [] \<and> hits key \<noteq> None)" "unknown = []"
      | (waiting) "\<not> (key \<noteq> [] \<and> hits key \<noteq> None)" "unknown \<noteq> []" by blast
    then show thesis
    proof cases
      case cached
      let ?e = "(entry key ins nms)\<lparr>pl_state := TCached, pl_output := the (hits key)\<rparr>"
      have "p' = p\<lparr>pn_tasks := ?pls[i := ?e], pn_hits := hits, pn_cached := pn_cached p + 1\<rparr>"
        using res unfolding run if_P[OF cached] by simp
      with cached show thesis by (intro that[of ?e]) (auto simp: entry_def)
    next
      case ready
      let ?e = "(entry key ins nms)\<lparr>pl_state := TReady\<rparr>"
      have "p' = p\<lparr>pn_tasks := ?pls[i := ?e], pn_hits := hits\<rparr> \<and> (sp_kind ?t = 0 \<longrightarrow> cas_has cas (sp_input ?t))"
        using res unfolding run if_not_P[OF ready(1)] if_P[OF ready(2)] by (auto split: if_splits)
      with ready show thesis by (intro that[of ?e]) (auto simp: entry_def)
    next
      case waiting
      have "p' = p\<lparr>pn_tasks := ?pls[i := entry key ins nms], pn_hits := hits\<rparr>"
        using res unfolding run if_not_P[OF waiting(1)] if_not_P[OF waiting(2)] by simp
      with waiting show thesis by (intro that[of "entry key ins nms"]) (auto simp: entry_def)
    qed
  qed
  have same: "?pls[i := e] ! nat d = ?pls ! nat d" if "d \<in> set (sp_deps (ts ! j))" "j \<in> set seen \<or> j = i" for j d
  proof -
    have "nat ` set (sp_deps (ts ! j)) \<subseteq> set seen" using that(2) deps inv unfolding plan_inv_def by blast
    then have "nat d \<in> set seen" using that(1) by blast
    with i(2) show ?thesis by (metis nth_list_update_neq)
  qed
  have old: "planned_ok sha cas db tc ts (?pls[i := e]) j" if "j \<in> set seen" for j
  proof -
    have "planned_ok sha cas db tc ts (?pls[i := e]) j = planned_ok sha cas db tc ts ?pls j"
    proof (rule planned_ok_cong)
      show "?pls[i := e] ! j = ?pls ! j" using that i(2) by (metis nth_list_update_neq)
    qed (use same that in blast)
    with inv that show ?thesis by (simp add: plan_inv_def)
  qed
  have new: "planned_ok sha cas db tc ts (?pls[i := e]) i"
  proof -
    have at: "?pls[i := e] ! i = e" using i(1) len by simp
    have u: "filter (dep_unknown (?pls[i := e])) (sp_deps ?t) = unknown"
      unfolding unknown_def using same[of _ i] by (intro filter_cong) (simp_all add: dep_unknown_def)
    have o: "dep_outputs (?pls[i := e]) ?t = dep_outputs ?pls ?t" using same[of _ i] by (simp add: dep_outputs_def)
    have c: "\<exists>c\<in>set (db_cache db). c_key c = key \<and> c_output c = x" if "hits key = Some x" for x
      using hits that by (auto simp: hits_ok_def)
    then have ne: "hits key = Some x \<Longrightarrow> x \<noteq> []" for x using cache by blast
    show ?thesis
      unfolding planned_ok_def Let_def at u o using e(3-7) c ne hit
      by (cases "unknown = []"; cases "sp_kind ?t = 0") (auto simp: key_def ins_def nms_def k_def)
  qed
  show ?thesis
    unfolding plan_inv_def e(1,2)
  proof (intro conjI ballI)
    fix j assume "j \<in> set (seen @ [i])"
    then have j: "j \<in> set seen \<or> j = i" by auto
    show "j < length ts" using j i(1) inv unfolding plan_inv_def by blast
    have "nat ` set (sp_deps (ts ! j)) \<subseteq> set seen" using j deps inv unfolding plan_inv_def by blast
    then show "nat ` set (sp_deps (ts ! j)) \<subseteq> set (seen @ [i])" by auto
    show "planned_ok sha cas db tc ts (?pls[i := e]) j" using j old new by blast
  qed (use len hits full in simp_all)
qed

lemma plan_tasks_ok:
  assumes "plan_inv sha cas db tc ts seen p" "distinct (seen @ is)" "set is \<subseteq> {..<length ts}"
    and "\<And>j. j < length is \<Longrightarrow> nat ` set (sp_deps (ts ! (is ! j))) \<subseteq> set seen \<union> set (take j is)"
    and "\<And>c. c \<in> set (db_cache db) \<Longrightarrow> c_output c \<noteq> []"
    and "plan_tasks sha cas db tc ts is p = (None, p')"
  shows "plan_inv sha cas db tc ts (seen @ is) p'"
  using assms(1-4,6)
proof (induction "is" arbitrary: seen p)
  case (Cons i "is")
  from Cons.prems(5) obtain p1 where p1: "plan_task sha cas db tc ts i p = (None, p1)"
    "plan_tasks sha cas db tc ts is p1 = (None, p')" by (auto split: prod.splits option.splits)
  have "plan_inv sha cas db tc ts (seen @ [i]) p1"
    using Cons.prems(2,3) Cons.prems(4)[of 0] assms(5)
    by (intro plan_task_ok[OF Cons.prems(1) _ _ _ _ p1(1)]) auto
  moreover have "nat ` set (sp_deps (ts ! (is ! j))) \<subseteq> set (seen @ [i]) \<union> set (take j is)" if "j < length is" for j
    using Cons.prems(4)[of "Suc j"] that by auto
  ultimately show ?case using Cons.IH[of "seen @ [i]" p1] Cons.prems(2,3) p1(2) by simp
qed simp

section \<open>A new build among the old ones\<close>

text \<open>Tables to which rows of one new build are added.\<close>

definition adds_build :: "db \<Rightarrow> nat \<Rightarrow> task_row list \<Rightarrow> dep_row list \<Rightarrow> db \<Rightarrow> bool" where
  "adds_build db b news nds db' \<longleftrightarrow>
     db_tasks db' = db_tasks db @ news \<and> db_deps db' = db_deps db @ nds \<and>
     (\<forall>t\<in>set (db_tasks db). t_build t \<noteq> b) \<and> (\<forall>d\<in>set (db_deps db). d_build d \<noteq> b) \<and>
     (\<forall>t\<in>set news. t_build t = b) \<and> (\<forall>d\<in>set nds. d_build d = b)"

lemma adds_build_old:
  assumes "adds_build db b news nds db'" "b' \<noteq> b"
  shows "task_rows b' i db' = task_rows b' i db" "dep_edges b' i db' = dep_edges b' i db"
    "fin_at db' b' i = fin_at db b' i" "uncounted E db' b' i = uncounted E db b' i"
    "dep_rows b' i db' = dep_rows b' i db"
proof -
  have "filter (\<lambda>t. t_build t = b' \<and> t_id t = i) news = []" for i
    using assms by (auto simp: adds_build_def filter_empty_conv)
  then show rows: "task_rows b' i db' = task_rows b' i db" for i
    using assms(1) by (simp add: adds_build_def task_rows_def)
  have f: "filter (\<lambda>d. d_build d = b' \<and> d_task d = i) nds = []" for i
    using assms by (auto simp: adds_build_def filter_empty_conv)
  then show edges: "dep_edges b' i db' = dep_edges b' i db" for i
    using assms(1) by (simp add: adds_build_def dep_edges_def)
  show fin: "fin_at db' b' i = fin_at db b' i" for i by (simp add: fin_at_def rows)
  show "uncounted E db' b' i = uncounted E db b' i" by (simp add: uncounted_def edges fin)
  have "concat (map (\<lambda>d. task_rows (d_build d) (d_dep d) db') ds) = concat (map (\<lambda>d. task_rows (d_build d) (d_dep d) db) ds)"
    if "\<forall>d\<in>set ds. d_build d = b'" for ds using that rows by (induction ds) simp_all
  from this[of "sort_key d_pos (filter (\<lambda>d. d_build d = b' \<and> d_task d = i) (db_deps db))"]
  show "dep_rows b' i db' = dep_rows b' i db"
    using assms(1) f[of i] by (simp add: dep_rows_def adds_build_def)
qed

lemma concat_single: "concat (map (\<lambda>j. if j = i then xs else []) [0..<n]) = (if i < n then xs else [])"
  by (induction n) (auto simp: less_Suc_eq)

lemma filter_upt_single: "filter (\<lambda>j. j = i) [0..<n] = (if i < n then [i] else [])"
  by (induction n) auto

lemma adds_build_new:
  assumes add: "adds_build db b (map (new_task b u tc ts rank part pls) [0..<length ts]) (new_deps b ts) db'"
    and deps: "\<forall>i<length ts. \<forall>d\<in>set (sp_deps (ts ! i)). nat d < length ts"
  shows "task_rows b i db' = (if i < length ts then [new_task b u tc ts rank part pls i] else [])" (is "?rows i")
    and "dep_edges b i db' = (if i < length ts then deps_of_spec b ts i else [])"
    and "i < length ts \<Longrightarrow> dep_rows b i db' = map (\<lambda>d. new_task b u tc ts rank part pls (nat d)) (sp_deps (ts ! i))"
proof -
  let ?new = "new_task b u tc ts rank part pls"
  have tb: "t_build (?new j) = b" "t_id (?new j) = j" for j by (simp_all add: new_task_def Let_def)
  have none: "filter (\<lambda>t. t_build t = b \<and> t_id t = i) (db_tasks db) = []" for i
    using add by (auto simp: adds_build_def filter_empty_conv)
  have "filter (\<lambda>t. t_build t = b \<and> t_id t = i) (map ?new [0..<length ts]) = map ?new (filter (\<lambda>j. j = i) [0..<length ts])" for i
    by (simp add: filter_map o_def tb)
  then show rows: "?rows i" for i
    using add none by (simp add: adds_build_def task_rows_def filter_upt_single)
  have "filter (\<lambda>d. d_build d = b \<and> d_task d = i) (db_deps db) = []"
    using add by (auto simp: adds_build_def filter_empty_conv)
  moreover have "filter (\<lambda>d. d_build d = b \<and> d_task d = i) (deps_of_spec b ts j) = (if j = i then deps_of_spec b ts i else [])" for j
    by (auto simp: deps_of_spec_def Let_def filter_empty_conv filter_id_conv)
  then have "filter (\<lambda>d. d_build d = b \<and> d_task d = i) (new_deps b ts) = (if i < length ts then deps_of_spec b ts i else [])"
    using concat_single[of i "deps_of_spec b ts i" "length ts"] by (simp add: new_deps_def filter_concat o_def)
  ultimately have edges: "filter (\<lambda>d. d_build d = b \<and> d_task d = i) (db_deps db') = (if i < length ts then deps_of_spec b ts i else [])"
    using add by (simp add: adds_build_def)
  then show "dep_edges b i db' = (if i < length ts then deps_of_spec b ts i else [])" by (simp add: dep_edges_def)
  show "dep_rows b i db' = map (\<lambda>d. ?new (nat d)) (sp_deps (ts ! i))" if i: "i < length ts"
  proof -
    have "map d_pos (deps_of_spec b ts i) = [0..<length (sp_deps (ts ! i))]"
      by (simp add: deps_of_spec_def Let_def o_def)
    then have "sorted (map d_pos (deps_of_spec b ts i))" by simp
    then have "sort_key d_pos (deps_of_spec b ts i) = deps_of_spec b ts i" by (rule sort_key_id_if_sorted)
    then have "dep_rows b i db' = concat (map (\<lambda>k. task_rows b (nat (sp_deps (ts ! i) ! k)) db') [0..<length (sp_deps (ts ! i))])"
      by (simp add: dep_rows_def edges i deps_of_spec_def Let_def o_def)
    also have "map (\<lambda>k. task_rows b (nat (sp_deps (ts ! i) ! k)) db') [0..<length (sp_deps (ts ! i))]
        = map (\<lambda>d. task_rows b (nat d) db') (map (\<lambda>k. sp_deps (ts ! i) ! k) [0..<length (sp_deps (ts ! i))])"
      by simp
    also have "\<dots> = map (\<lambda>d. task_rows b (nat d) db') (sp_deps (ts ! i))" by (simp only: map_nth)
    also have "\<dots> = map (\<lambda>d. [?new (nat d)]) (sp_deps (ts ! i))"
      using deps i by (simp add: rows)
    finally show ?thesis by simp
  qed
qed

lemma opt_text_simps [simp]: "opt_text s = Some h \<longleftrightarrow> s = h \<and> h \<noteq> []" "opt_text s = None \<longleftrightarrow> s = []" "text_of (opt_text s) = s"
  by (auto simp: opt_text_def text_of_def)

section \<open>A submitted build is consistent\<close>

lemma action_key_nonempty [simp]: "action_key sha k tc args ns ds \<noteq> []"
  by (simp add: action_key_def sha256_hex_parts_def)

text \<open>A topological order numbers the tasks so that dependencies come first.\<close>

lemma topo_rank:
  assumes "topo_sorted g order" "valid_graph g"
  obtains rank :: "nat \<Rightarrow> nat" where
    "\<And>i d. i < length g \<Longrightarrow> d \<in> set (g_deps (g ! i)) \<Longrightarrow> rank (nat d) < rank i"
proof -
  define pos where "pos x = (THE k. k < length order \<and> order ! k = x)" for x
  have dist: "distinct order" using assms(1) by (simp add: topo_sorted_def)
  have pos: "pos (order ! k) = k" if "k < length order" for k
    unfolding pos_def using that dist by (intro the_equality) (auto simp: nth_eq_iff_index_eq)
  have "pos (nat d) < pos i" if i: "i < length g" and d: "d \<in> set (g_deps (g ! i))" for i d
  proof -
    have "i \<in> set order" using i assms(1) by (simp add: topo_sorted_def)
    then obtain j where j: "j < length order" "order ! j = i" by (auto simp: in_set_conv_nth)
    have "nat d \<in> set (deps_of g i)" using d by (simp add: deps_of_def)
    with assms(1) j have "nat d \<in> set (take j order)" unfolding topo_sorted_def by blast
    then obtain k where "k < j" "order ! k = nat d" using j(1) by (auto simp: in_set_conv_nth)
    with pos[of k] pos[of j] j show ?thesis by simp
  qed
  with that show thesis by blast
qed

lemma graph_of_simps [simp]: "length (graph_of ts) = length ts" "i < length ts \<Longrightarrow> g_deps (graph_of ts ! i) = sp_deps (ts ! i)"
  by (simp_all add: graph_of_def)

lemma graph_of_deps:
  assumes "valid_graph (graph_of ts)" "i < length ts" "d \<in> set (sp_deps (ts ! i))"
  shows "0 \<le> d" "nat d < length ts"
  using assms by (auto simp: valid_graph_def nat_less_iff)

lemma planned_fin:
  assumes "planned_ok sha cas db tc ts pls i"
  shows "fin (pl_state (pls ! i)) \<longleftrightarrow> pl_output (pls ! i) \<noteq> []" "pl_state (pls ! i) \<noteq> TDone"
    "pl_state (pls ! i) \<noteq> TFailed" "pl_state (pls ! i) \<noteq> TRunning"
  using assms by (auto simp: planned_ok_def Let_def split: if_splits)

lemma new_task_simps [simp]:
  "t_uid (new_task b u tc ts rank part pls i) = u + i" "t_build (new_task b u tc ts rank part pls i) = b"
  "t_id (new_task b u tc ts rank part pls i) = i" "t_kind (new_task b u tc ts rank part pls i) = sp_kind (ts ! i)"
  "t_name (new_task b u tc ts rank part pls i) = sp_name (ts ! i)"
  "t_key (new_task b u tc ts rank part pls i) = opt_text (pl_key (pls ! i))"
  "t_input (new_task b u tc ts rank part pls i) = opt_text (sp_input (ts ! i))"
  "t_args (new_task b u tc ts rank part pls i) = join_lines (sp_args (ts ! i))"
  "t_inputs (new_task b u tc ts rank part pls i) = opt_text (pl_inputs (pls ! i))"
  "t_input_names (new_task b u tc ts rank part pls i) = opt_text (pl_names (pls ! i))"
  "t_toolchain (new_task b u tc ts rank part pls i) = tc" "t_state (new_task b u tc ts rank part pls i) = pl_state (pls ! i)"
  "t_pending (new_task b u tc ts rank part pls i) = int (pl_pending (pls ! i))"
  "t_attempts (new_task b u tc ts rank part pls i) = 0"
  "t_output (new_task b u tc ts rank part pls i) = opt_text (pl_output (pls ! i))"
  "t_priority (new_task b u tc ts rank part pls i) = rank ! i" "t_part (new_task b u tc ts rank part pls i) = int (part ! i)"
  by (simp_all add: new_task_def Let_def)

lemma length_uncounted_spec:
  assumes "\<And>d. d \<in> set (sp_deps (ts ! i)) \<Longrightarrow> \<not> P (nat d) \<longleftrightarrow> dep_unknown pls d"
  shows "length (filter (\<lambda>e. \<not> P (d_dep e)) (deps_of_spec b ts i)) = length (filter (dep_unknown pls) (sp_deps (ts ! i)))"
proof -
  let ?ds = "sp_deps (ts ! i)"
  have "length (filter (\<lambda>e. \<not> P (d_dep e)) (deps_of_spec b ts i)) = length (filter (\<lambda>k. \<not> P (nat (?ds ! k))) [0..<length ?ds])"
    by (simp add: deps_of_spec_def Let_def filter_map o_def)
  also have "filter (\<lambda>k. \<not> P (nat (?ds ! k))) [0..<length ?ds] = filter (\<lambda>k. dep_unknown pls (?ds ! k)) [0..<length ?ds]"
    using assms by (intro filter_cong) simp_all
  also have "length \<dots> = length (filter (dep_unknown pls) (map (\<lambda>k. ?ds ! k) [0..<length ?ds]))"
    by (simp add: filter_map o_def)
  finally show ?thesis by (simp only: map_nth)
qed

lemma new_task_ok:
  assumes add: "adds_build db b (map (new_task b u tc ts rank part pls) [0..<length ts]) (new_deps b ts) db'"
    and g: "valid_graph (graph_of ts)" and i: "i < length ts"
    and C: "\<And>h. cas_has cas h \<Longrightarrow> h \<in> C" and cache: "\<And>c. c \<in> set (db_cache db) \<Longrightarrow> c_output c \<in> C" "[] \<notin> C"
    and same: "(\<lambda>c. (c_key c, c_output c)) ` set (db_cache db') = (\<lambda>c. (c_key c, c_output c)) ` set (db_cache db)"
    and leaf: "sp_kind (ts ! i) = 0 \<Longrightarrow> sp_deps (ts ! i) = [] \<and> sp_key (ts ! i) \<noteq> [] \<and> sp_input (ts ! i) \<noteq> []"
    and pok: "\<And>j. j < length ts \<Longrightarrow> planned_ok sha cas db tc ts pls j"
  shows "task_ok sha m C {} {} db' (new_task b u tc ts rank part pls i)" (is "task_ok sha m C {} {} db' ?t")
proof -
  have "\<forall>i<length ts. \<forall>d\<in>set (sp_deps (ts ! i)). nat d < length ts" using graph_of_deps(2)[OF g] by blast
  note new = adds_build_new[OF add this]
  let ?p = "pls ! i" and ?s = "ts ! i"
  define unknown where "unknown = filter (dep_unknown pls) (sp_deps ?s)"
  have fa: "fin_at db' b (nat d) \<longleftrightarrow> \<not> dep_unknown pls d" if "d \<in> set (sp_deps ?s)" for d
    using graph_of_deps(2)[OF g i that] planned_fin(1)[OF pok[of "nat d"]]
    by (simp add: fin_at_def new(1) dep_unknown_def)
  have "length (uncounted {} db' b i) = length unknown"
    unfolding uncounted_def new(2) unknown_def using length_uncounted_spec[of ts i "fin_at db' b" pls b] fa i by simp
  then have pend: "int (pl_pending ?p) = int (length (uncounted {} db' b i))" "pl_pending ?p = length unknown"
    using pok[OF i] by (simp_all add: planned_ok_def Let_def unknown_def)
  have names: "dep_names (dep_rows b i db') = dep_file_names ts ?s" "dep_digests (dep_rows b i db') = dep_outputs pls ?s"
    by (simp_all add: new(3)[OF i] dep_names_def dep_digests_def dep_file_names_def dep_outputs_def)
  note P = pok[OF i, unfolded planned_ok_def Let_def unknown_def[symmetric]]
  have kind0: "unknown = []" if "sp_kind ?s = 0" using leaf[OF that] by (simp add: unknown_def)
  have waiting: "pl_state ?p = TWaiting \<longleftrightarrow> unknown \<noteq> []"
    using P kind0 by (metis tstate.distinct(1) tstate.distinct(7))
  have key: "key_ok sha db' ?t" if "pl_state ?p \<noteq> TWaiting"
    using that P waiting leaf names by (auto simp: key_ok_def Let_def)
  have work: "work_ok C db' ?t" if "pl_state ?p = TReady"
    using that P waiting leaf names C by (auto simp: work_ok_def Let_def)
  have fin: "(\<exists>h\<in>C. t_output ?t = Some h) \<and> cached_as db' ?t" if "fin (pl_state ?p)"
  proof -
    have st: "pl_state ?p = TCached" using that planned_fin(2)[OF pok[OF i]] by (auto simp: fin_def)
    with P obtain c where c: "c \<in> set (db_cache db)" "c_key c = pl_key ?p" "c_output c = pl_output ?p" "pl_key ?p \<noteq> []"
      by auto
    then have o: "pl_output ?p \<in> C" "pl_output ?p \<noteq> []" using cache by metis+
    have "(c_key c, c_output c) \<in> (\<lambda>c. (c_key c, c_output c)) ` set (db_cache db')" unfolding same using c(1) by blast
    then obtain c' where "c' \<in> set (db_cache db')" "c_key c' = pl_key ?p" "c_output c' = pl_output ?p"
      using c by auto
    with c(4) o st have "cached_as db' ?t" unfolding cached_as_def by (intro bexI[of _ c']) auto
    with o show ?thesis by auto
  qed
  have st: "pl_state ?p \<noteq> TRunning" "pl_state ?p \<noteq> TFailed" using planned_fin[OF pok[OF i]] by auto
  show ?thesis
    unfolding task_ok_def using pend waiting key work fin st by auto
qed

lemma consistent_adds_build:
  assumes con: "consistent sha m C {} X {} db"
    and add: "adds_build db b (map (new_task b (db_next_uid db) tc ts rank part pls) [0..<length ts]) (new_deps b ts) db'"
    and b: "b = db_next_build db" "db_next_build db' = b + 1" "db_next_uid db' = db_next_uid db + length ts"
    and builds: "db_builds db' = db_builds db @ [\<lparr>b_id = b, b_toolchain = tc, b_state = BRunning, b_total = n, b_finished_at = None\<rparr>]"
    and keys: "map c_key (db_cache db') = map c_key (db_cache db)"
    and same: "(\<lambda>c. (c_key c, c_output c)) ` set (db_cache db') = (\<lambda>c. (c_key c, c_output c)) ` set (db_cache db)"
    and g: "valid_graph (graph_of ts)" "topo_sorted (graph_of ts) order"
    and C: "\<And>h. cas_has cas h \<Longrightarrow> h \<in> C"
    and leaf: "\<And>i. i < length ts \<Longrightarrow> sp_kind (ts ! i) = 0 \<Longrightarrow> sp_deps (ts ! i) = [] \<and> sp_key (ts ! i) \<noteq> [] \<and> sp_input (ts ! i) \<noteq> []"
    and pok: "\<And>j. j < length ts \<Longrightarrow> planned_ok sha cas db tc ts pls j"
    and dist: "distinct (map dep_key (new_deps b ts))"
  shows "consistent sha m C {} (insert b X) {} db'" "evolves db db'"
proof -
  note D = consistentD[OF con]
  let ?new = "new_task b (db_next_uid db) tc ts rank part pls"
  have "\<forall>i<length ts. \<forall>d\<in>set (sp_deps (ts ! i)). nat d < length ts" using graph_of_deps(2)[OF g(1)] by blast
  note new = adds_build_new[OF add this]
  have tasks: "db_tasks db' = db_tasks db @ map ?new [0..<length ts]" and deps: "db_deps db' = db_deps db @ new_deps b ts"
    using add by (simp_all add: adds_build_def)
  have oldt: "t_build t \<noteq> b" "t_build t \<in> b_id ` set (db_builds db)" "t_uid t < db_next_uid db" if "t \<in> set (db_tasks db)" for t
  proof -
    show "t_uid t < db_next_uid db" and m: "t_build t \<in> b_id ` set (db_builds db)" using that D(1) by (simp_all add: keys_ok_def)
    from m D(1) b(1) show "t_build t \<noteq> b" by (force simp: keys_ok_def)
  qed
  have oldr: "b_id r < b" if "r \<in> set (db_builds db)" for r using that D(1) b(1) by (simp add: keys_ok_def)
  have oldd: "d_build d \<noteq> b" if "d \<in> set (db_deps db)" for d using add that by (simp add: adds_build_def)
  have cache: "(c_key c, c_output c) \<in> (\<lambda>c. (c_key c, c_output c)) ` set (db_cache db)" if "c \<in> set (db_cache db')" for c
    using that unfolding same[symmetric] by (rule imageI)
  have cache': "(c_key c, c_output c) \<in> (\<lambda>c. (c_key c, c_output c)) ` set (db_cache db')" if "c \<in> set (db_cache db)" for c
    using that unfolding same by (rule imageI)
  have dmem: "\<exists>i<length ts. \<exists>x\<in>set (sp_deps (ts ! i)). d = \<lparr>d_build = b, d_task = i, d_dep = nat x, d_pos = d_pos d\<rparr>"
    if "d \<in> set (new_deps b ts)" for d
    using that by (auto simp: new_deps_def deps_of_spec_def Let_def intro!: bexI[OF refl nth_mem])
  show "consistent sha m C {} (insert b X) {} db'"
  proof (rule consistentI)
    have fresh: "\<And>t. t \<in> set (db_tasks db) \<Longrightarrow> \<not> db_next_uid db \<le> t_uid t" using oldt(3) by (simp add: not_le)
    have "distinct (map t_uid (db_tasks db'))"
      using D(1) fresh by (auto simp: tasks keys_ok_def distinct_map inj_on_def)
    moreover have "distinct (map (\<lambda>t. (t_build t, t_id t)) (db_tasks db'))"
      using D(1) oldt(1) by (auto simp: tasks keys_ok_def distinct_map inj_on_def)
    moreover have "distinct (map b_id (db_builds db'))" using D(1) oldr by (auto simp: builds keys_ok_def)
    moreover have "distinct (map c_key (db_cache db'))" using D(1) by (simp add: keys keys_ok_def)
    moreover have "\<forall>t\<in>set (db_tasks db'). t_uid t < db_next_uid db' \<and> t_build t \<in> b_id ` set (db_builds db')"
      using oldt by (auto simp: tasks builds b(3) trans_less_add1)
    moreover have "\<forall>r\<in>set (db_builds db'). b_id r < db_next_build db'" using oldr by (auto simp: builds b(2) less_SucI)
    ultimately show "keys_ok db'" by (simp add: keys_ok_def)
    show "deps_ok db'"
      unfolding deps_ok_def
    proof (intro conjI ballI)
      have "map dep_key (db_deps db) = map (\<lambda>d. (d_build d, d_dep d, d_task d)) (db_deps db)" by (simp add: dep_key_def)
      then have "distinct (map dep_key (db_deps db))" using D(2) unfolding deps_ok_def by metis
      moreover have "dep_key ` set (db_deps db) \<inter> dep_key ` set (new_deps b ts) = {}"
        using oldd add by (auto simp: dep_key_def adds_build_def)
      ultimately have "distinct (map dep_key (db_deps db'))" using dist by (simp add: deps)
      moreover have "map dep_key (db_deps db') = map (\<lambda>d. (d_build d, d_dep d, d_task d)) (db_deps db')" by (simp add: dep_key_def)
      ultimately show "distinct (map (\<lambda>d. (d_build d, d_dep d, d_task d)) (db_deps db'))" by metis
    next
      fix d assume d: "d \<in> set (db_deps db')"
      show "task_rows (d_build d) (d_dep d) db' \<noteq> []"
      proof (cases "d \<in> set (db_deps db)")
        case True
        then show ?thesis using D(2) adds_build_old(1)[OF add oldd[OF True]] by (simp add: deps_ok_def)
      next
        case False
        with d deps dmem obtain i x where e: "i < length ts" "x \<in> set (sp_deps (ts ! i))" "d_build d = b" "d_dep d = nat x"
          by (metis Un_iff dep_row.select_convs(1) dep_row.select_convs(3) set_append)
        with graph_of_deps(2)[OF g(1)] show ?thesis by (simp add: new(1))
      qed
      show "\<exists>t\<in>set (task_rows (d_build d) (d_task d) db'). t_kind t \<noteq> 0"
      proof (cases "d \<in> set (db_deps db)")
        case True
        then show ?thesis using D(2) adds_build_old(1)[OF add oldd[OF True]] by (simp add: deps_ok_def)
      next
        case False
        with d deps dmem obtain i x where e: "i < length ts" "x \<in> set (sp_deps (ts ! i))" "d_build d = b" "d_task d = i"
          by (metis Un_iff dep_row.select_convs(1) dep_row.select_convs(2) set_append)
        with leaf[OF e(1)] show ?thesis by (auto simp: new(1))
      qed
    next
      obtain rk where rk: "\<forall>d\<in>set (db_deps db). (rk :: nat \<Rightarrow> nat \<Rightarrow> nat) (d_build d) (d_dep d) < rk (d_build d) (d_task d)"
        using D(2) unfolding deps_ok_def by blast
      obtain pos :: "nat \<Rightarrow> nat" where pos: "\<And>i d. i < length (graph_of ts) \<Longrightarrow> d \<in> set (g_deps (graph_of ts ! i)) \<Longrightarrow> pos (nat d) < pos i"
        using topo_rank[OF g(2,1)] by blast
      define rank where "rank = rk(b := pos)"
      have "rank (d_build d) (d_dep d) < rank (d_build d) (d_task d)" if d: "d \<in> set (db_deps db')" for d
      proof (cases "d \<in> set (db_deps db)")
        case True
        with rk oldd[OF True] show ?thesis by (simp add: rank_def)
      next
        case False
        with d deps dmem obtain i x where "i < length ts" "x \<in> set (sp_deps (ts ! i))" "d_build d = b" "d_task d = i" "d_dep d = nat x"
          by (metis Un_iff dep_row.select_convs set_append)
        with pos show ?thesis by (simp add: rank_def)
      qed
      then show "\<exists>rank :: nat \<Rightarrow> nat \<Rightarrow> nat. \<forall>d\<in>set (db_deps db'). rank (d_build d) (d_dep d) < rank (d_build d) (d_task d)"
        by blast
    qed
    show "edges_ok {} db'" by (simp add: edges_ok_def)
    have "c_output c \<in> C" if "c \<in> set (db_cache db')" for c
      using cache[OF that] D(4) by (auto simp: cache_ok_def)
    then show "cache_ok C db'" using D(4) by (simp add: cache_ok_def)
    show "task_ok sha m C {} {} db' t" if t: "t \<in> set (db_tasks db')" for t
    proof (cases "t \<in> set (db_tasks db)")
      case True
      note old = adds_build_old[OF add oldt(1)[OF True]]
      have ca: "cached_as db' t" if "cached_as db t"
      proof -
        from that obtain c where c: "c \<in> set (db_cache db)" "t_key t = Some (c_key c)"
          "t_state t = TCached \<longrightarrow> t_output t = Some (c_output c)" by (auto simp: cached_as_def)
        from cache'[OF c(1)] obtain c' where "c' \<in> set (db_cache db')" "c_key c' = c_key c" "c_output c' = c_output c" by auto
        with c(2,3) show ?thesis unfolding cached_as_def by (intro bexI[of _ c']) simp_all
      qed
      show ?thesis using D(5)[OF True] ca unfolding task_ok_def key_ok_def work_ok_def old by blast
    next
      case False
      with t tasks obtain i where i: "i < length ts" "t = ?new i" by auto
      have "[] \<notin> C" "\<And>c. c \<in> set (db_cache db) \<Longrightarrow> c_output c \<in> C" using D(4) by (simp_all add: cache_ok_def)
      then show ?thesis unfolding i(2)
        by (intro new_task_ok[OF add g(1) i(1) C _ _ same leaf[OF i(1)] pok]) auto
    qed
    show "build_ok {} (insert b X) db' r" if r: "r \<in> set (db_builds db')" for r
    proof (cases "r \<in> set (db_builds db)")
      case True
      have ne: "b_id r \<noteq> b" using oldr[OF True] by simp
      have mem: "t \<in> set (db_tasks db') \<and> t_build t = b_id r \<longleftrightarrow> t \<in> set (db_tasks db) \<and> t_build t = b_id r" for t
        using ne by (auto simp: tasks)
      have "build_ok {} X db' r = build_ok {} X db r"
        using mem unfolding build_ok_def by (auto split: bstate.split)
      with D(6)[OF True] show ?thesis by (auto intro: build_ok_mono)
    next
      case False
      with r builds show ?thesis by (simp add: build_ok_def)
    qed
  qed
  show "evolves db db'"
    unfolding evolves_def
  proof (intro conjI ballI)
    show "set (db_deps db) \<subseteq> set (db_deps db')" by (simp add: deps)
    show "\<exists>t'\<in>set (db_tasks db'). same_cols t t' \<and> t_attempts t \<le> t_attempts t' \<and> (terminal (t_state t) \<longrightarrow> t' = t)"
      if "t \<in> set (db_tasks db)" for t using that by (intro bexI[of _ t]) (simp_all add: tasks)
    show "\<exists>r'\<in>set (db_builds db'). b_id r' = b_id r \<and> b_total r' = b_total r \<and> b_toolchain r' = b_toolchain r \<and>
        (b_state r \<noteq> BRunning \<longrightarrow> r' = r)" if "r \<in> set (db_builds db)" for r
      using that by (intro bexI[of _ r]) (simp_all add: builds)
    show "\<exists>c'\<in>set (db_cache db'). c_key c' = c_key c \<and> c_output c' = c_output c" if "c \<in> set (db_cache db)" for c
      using cache'[OF that] by auto
    show "t_build t \<in> b_id ` set (db_builds db) \<longrightarrow> (\<exists>u\<in>set (db_tasks db). same_cols u t)" if "t \<in> set (db_tasks db')" for t
    proof (cases "t \<in> set (db_tasks db)")
      case False
      with that have "t_build t = b" by (auto simp: tasks)
      then show ?thesis using oldr by (metis imageE less_irrefl)
    qed (auto intro: rev_bexI)
  qed
qed

section \<open>The whole call\<close>

text \<open>What the client's specifications promise: a compile task waits for nothing.\<close>

definition leaf_compiles :: "task_spec list \<Rightarrow> bool" where
  "leaf_compiles ts \<longleftrightarrow> (\<forall>t\<in>set ts. sp_kind t = 0 \<longrightarrow> sp_deps t = [])"

text \<open>The rows of a submission: one build, closed at once when every task is cached; its tasks as
  \<open>planned_ok\<close> says, its dependencies; and a hit counted in the cache rows used. Nothing else changes.\<close>

definition submitted :: "sha_fn \<Rightarrow> cas \<Rightarrow> int \<Rightarrow> build_spec \<Rightarrow> int list \<Rightarrow> nat list \<Rightarrow> nat \<Rightarrow> db \<Rightarrow> db \<Rightarrow> bool" where
  "submitted sha cas now spec rank part b db db' \<longleftrightarrow>
     b = db_next_build db \<and>
     (let ts = bs_tasks spec; tc = bs_toolchain spec; n = length ts
      in \<exists>pls. length pls = n \<and> (\<forall>i<n. planned_ok sha cas db tc ts pls i) \<and>
        (let ended = (\<forall>i<n. pl_state (pls ! i) = TCached)
         in db' = db\<lparr>
              db_builds := db_builds db @ [\<lparr>b_id = b, b_toolchain = tc, b_state = if ended then BDone else BRunning, b_total = n,
                b_finished_at = if ended then Some now else None\<rparr>],
              db_next_build := b + 1,
              db_tasks := db_tasks db @ map (new_task b (db_next_uid db) tc ts rank part pls) [0..<n],
              db_next_uid := db_next_uid db + n,
              db_deps := db_deps db @ new_deps b ts,
              db_cache := upd_where (\<lambda>c. c_key c \<in> set (hit_keys pls)) (\<lambda>c. c\<lparr>c_hits := c_hits c + 1\<rparr>) (db_cache db)\<rparr>))"

lemma submit_finished:
  assumes con: "consistent sha m C {} X {} db" and C: "\<And>h. cas_has cas h \<Longrightarrow> h \<in> C"
    and leaf: "leaf_compiles (bs_tasks spec)" and find: "find bad_compile (bs_tasks spec) = None"
    and order: "topo_order (graph_of (bs_tasks spec)) = Inr order"
    and run: "submit sha cas dup now spec order rank part db r = (r', Finished db' b)"
  obtains p where "plan_tasks sha cas (insert_build (bs_toolchain spec) (length (bs_tasks spec)) db) (bs_toolchain spec) (bs_tasks spec)
        order (start_plan (bs_tasks spec) (insert_build (bs_toolchain spec) (length (bs_tasks spec)) db) r) = (None, p)"
    "b = db_next_build db" "r' = pn_cached p" "length (pn_tasks p) = length (bs_tasks spec)"
    "\<And>i. i < length (bs_tasks spec) \<Longrightarrow> planned_ok sha cas db (bs_toolchain spec) (bs_tasks spec) (pn_tasks p) i"
    "db_tasks db' = db_tasks db @ map (new_task b (db_next_uid db) (bs_toolchain spec) (bs_tasks spec) rank part (pn_tasks p)) [0..<length (bs_tasks spec)]"
    "db_deps db' = db_deps db @ new_deps b (bs_tasks spec)"
    "consistent sha m C {} X {} db'" "evolves db db'" "b \<in> b_id ` set (db_builds db')" "submitted sha cas now spec rank part b db db'"
proof -
  let ?ts = "bs_tasks spec" and ?tc = "bs_toolchain spec"
  define b0 where "b0 = db_next_build db"
  define db1 where "db1 = insert_build ?tc (length ?ts) db"
  obtain e p where pl: "plan_tasks sha cas db1 ?tc ?ts order (start_plan ?ts db1 r) = (e, p)" by fastforce
  with run have e: "e = None" by (cases e) (simp_all add: submit_def Let_def db1_def)
  define db3 where "db3 = insert_tasks b0 ?tc ?ts rank part (pn_tasks p) (count_hits (hit_keys (pn_tasks p)) db1)"
  define db4 where "db4 = db3\<lparr>db_deps := db_deps db3 @ new_deps b0 ?ts\<rparr>"
  from run have dist: "distinct (map dep_key (new_deps b0 ?ts))" and res: "r' = pn_cached p" "b = b0" "db' = maybe_finish now b0 db4"
    using pl e by (auto simp: submit_def Let_def db1_def[symmetric] b0_def[symmetric] db3_def[symmetric] db4_def split: if_splits)
  from topo_order_Inr[OF order] have g: "valid_graph (graph_of ?ts)" "topo_sorted (graph_of ?ts) order" by simp_all
  have ck: "cache_ok C db" by (rule consistentD(4)[OF con])
  have pinv: "plan_inv sha cas db1 ?tc ?ts ([] @ order) p"
  proof (rule plan_tasks_ok[of _ _ _ _ _ _ "start_plan ?ts db1 r"])
    show "plan_inv sha cas db1 ?tc ?ts [] (start_plan ?ts db1 r)" by (simp add: plan_inv_def start_plan_def hits_ok_lookup hits_full_lookup)
    show "distinct ([] @ order)" "set order \<subseteq> {..<length ?ts}" using g(2) by (simp_all add: topo_sorted_def)
    show "nat ` set (sp_deps (?ts ! (order ! j))) \<subseteq> set [] \<union> set (take j order)" if j: "j < length order" for j
    proof -
      have "order ! j < length ?ts" using g(2) nth_mem[OF j] unfolding topo_sorted_def by auto
      then have "nat ` set (sp_deps (?ts ! (order ! j))) = set (deps_of (graph_of ?ts) (order ! j))" by (simp add: deps_of_def)
      with g(2) j show ?thesis unfolding topo_sorted_def by simp
    qed
    show "c_output c \<noteq> []" if "c \<in> set (db_cache db1)" for c
      using that ck by (auto simp: db1_def insert_build_def cache_ok_def)
    show "plan_tasks sha cas db1 ?tc ?ts order (start_plan ?ts db1 r) = (None, p)" using pl e by simp
  qed
  have pok: "planned_ok sha cas db ?tc ?ts (pn_tasks p) i" if "i < length ?ts" for i
  proof -
    have "i \<in> set order" using that g(2) by (simp add: topo_sorted_def)
    with pinv have "planned_ok sha cas db1 ?tc ?ts (pn_tasks p) i" by (simp add: plan_inv_def)
    then show ?thesis by (simp add: planned_ok_def db1_def insert_build_def Let_def)
  qed
  have tasks4: "db_tasks db4 = db_tasks db @ map (new_task b0 (db_next_uid db) ?tc ?ts rank part (pn_tasks p)) [0..<length ?ts]"
    and deps4: "db_deps db4 = db_deps db @ new_deps b0 ?ts"
    by (simp_all add: db4_def db3_def insert_tasks_def count_hits_def db1_def insert_build_def)
  have k: "keys_ok db" by (rule consistentD(1)[OF con])
  have oldb: "t_build t \<noteq> b0" if "t \<in> set (db_tasks db)" for t using k that by (force simp: keys_ok_def b0_def)
  have oldd: "d_build d \<noteq> b0" if "d \<in> set (db_deps db)" for d
  proof -
    have "task_rows (d_build d) (d_dep d) db \<noteq> []" using consistentD(2)[OF con] that by (simp add: deps_ok_def)
    then obtain t where "t \<in> set (db_tasks db)" "t_build t = d_build d" by (auto simp: task_rows_def filter_empty_conv)
    with oldb show ?thesis by metis
  qed
  have "d_build d = b0" if "d \<in> set (new_deps b0 ?ts)" for d
    using that by (auto simp: new_deps_def deps_of_spec_def Let_def)
  with oldb oldd have add: "adds_build db b0 (map (new_task b0 (db_next_uid db) ?tc ?ts rank part (pn_tasks p)) [0..<length ?ts]) (new_deps b0 ?ts) db4"
    by (auto simp: adds_build_def tasks4 deps4)
  have cache4: "db_cache db4 = upd_where (\<lambda>c. c_key c \<in> set (hit_keys (pn_tasks p))) (\<lambda>c. c\<lparr>c_hits := c_hits c + 1\<rparr>) (db_cache db)"
    by (simp add: db4_def db3_def insert_tasks_def count_hits_def db1_def insert_build_def)
  have builds4: "db_builds db4 = db_builds db @ [\<lparr>b_id = b0, b_toolchain = ?tc, b_state = BRunning, b_total = length ?ts, b_finished_at = None\<rparr>]"
    "db_next_build db4 = b0 + 1" "db_next_uid db4 = db_next_uid db + length ?ts"
    by (simp_all add: db4_def db3_def insert_tasks_def count_hits_def db1_def insert_build_def b0_def)
  have lf: "sp_deps (?ts ! i) = [] \<and> sp_key (?ts ! i) \<noteq> [] \<and> sp_input (?ts ! i) \<noteq> []"
    if "i < length ?ts" "sp_kind (?ts ! i) = 0" for i
  proof -
    have "\<not> bad_compile (?ts ! i)" using find that(1) by (auto simp: find_None_iff)
    with that leaf show ?thesis by (auto simp: bad_compile_def leaf_compiles_def)
  qed
  have same: "map c_key (db_cache db4) = map c_key (db_cache db)"
    "(\<lambda>c. (c_key c, c_output c)) ` set (db_cache db4) = (\<lambda>c. (c_key c, c_output c)) ` set (db_cache db)"
    unfolding cache4 by (simp_all add: map_upd_where_same image_upd_where)
  have con4: "consistent sha m C {} (insert b0 X) {} db4" and ev4: "evolves db db4"
    by (rule consistent_adds_build[of sha m C X db b0 ?tc ?ts rank part "pn_tasks p" db4 _ order cas,
          OF con add b0_def builds4(2,3,1) same g C lf pok dist]; assumption)+
  note mf = maybe_finish_ok[OF con4, where now = now and b = b0]
  have "consistent sha m C {} X {} db'" unfolding res by (rule consistent_mono[OF mf(1)]) auto
  moreover have "evolves db db'" unfolding res by (rule evolves_trans[OF ev4 mf(2)])
  moreover have "b0 \<in> b_id ` set (db_builds (maybe_finish now b0 db4))"
    using builds4(1) by (simp add: maybe_finish_def Let_def)
  moreover have "length (pn_tasks p) = length ?ts" using pinv by (simp add: plan_inv_def)
  moreover have "submitted sha cas now spec rank part b db db'"
  proof -
    let ?pls = "pn_tasks p" and ?ended = "\<forall>i<length ?ts. pl_state (pn_tasks p ! i) = TCached"
    let ?new = "map (new_task b0 (db_next_uid db) ?tc ?ts rank part ?pls) [0..<length ?ts]"
    have states: "pl_state (?pls ! i) \<in> {TWaiting, TReady, TCached}" if "i < length ?ts" for i
      using pok[OF that] by (auto simp: planned_ok_def Let_def split: if_splits)
    have row: "\<exists>i<length ?ts. t_state t = pl_state (?pls ! i)" if tb: "t \<in> set (db_tasks db4)" "t_build t = b0" for t
    proof -
      obtain i where "i < length ?ts" "t = new_task b0 (db_next_uid db) ?tc ?ts rank part ?pls i" using tb oldb by (auto simp: tasks4)
      then show ?thesis by (intro exI[of _ i]) simp
    qed
    have "count_tasks (\<lambda>s. s = TFailed) b0 db4 = 0"
      unfolding count_tasks_0
    proof (intro ballI impI)
      fix t assume "t \<in> set (db_tasks db4)" "t_build t = b0"
      then obtain i where "i < length ?ts" "t_state t = pl_state (?pls ! i)" using row by blast
      with states[of i] show "t_state t \<noteq> TFailed" by auto
    qed
    moreover have "count_tasks (\<lambda>s. \<not> fin s) b0 db4 = 0 \<longleftrightarrow> ?ended"
      unfolding count_tasks_0
    proof (intro iffI ballI impI allI)
      fix i assume all: "\<forall>t\<in>set (db_tasks db4). t_build t = b0 \<longrightarrow> \<not> \<not> fin (t_state t)" and i: "i < length ?ts"
      have "new_task b0 (db_next_uid db) ?tc ?ts rank part ?pls i \<in> set (db_tasks db4)" using i by (simp add: tasks4)
      with all have "fin (pl_state (?pls ! i))" by fastforce
      with states[OF i] show "pl_state (?pls ! i) = TCached" by (auto simp: fin_def)
    next
      fix t assume "?ended" "t \<in> set (db_tasks db4)" "t_build t = b0"
      with row[of t] show "\<not> \<not> fin (t_state t)" by (auto simp: fin_def)
    qed
    ultimately have mf: "maybe_finish now b0 db4 = (if ?ended then set_build now b0 BDone db4 else db4)"
      by (simp add: maybe_finish_def)
    have old: "b_id r \<noteq> b0" if "r \<in> set (db_builds db)" for r using k that by (force simp: keys_ok_def b0_def)
    then have "upd_where (\<lambda>r. b_id r = b0 \<and> b_state r = BRunning) f (db_builds db) = db_builds db" for f
      by (auto simp: upd_where_def intro: map_idI)
    then have "db' = db\<lparr>
              db_builds := db_builds db @ [\<lparr>b_id = b, b_toolchain = ?tc, b_state = if ?ended then BDone else BRunning, b_total = length ?ts,
                b_finished_at = if ?ended then Some now else None\<rparr>],
              db_next_build := b + 1,
              db_tasks := db_tasks db @ map (new_task b (db_next_uid db) ?tc ?ts rank part ?pls) [0..<length ?ts],
              db_next_uid := db_next_uid db + length ?ts,
              db_deps := db_deps db @ new_deps b ?ts,
              db_cache := upd_where (\<lambda>c. c_key c \<in> set (hit_keys ?pls)) (\<lambda>c. c\<lparr>c_hits := c_hits c + 1\<rparr>) (db_cache db)\<rparr>"
      unfolding res(2,3) mf set_build_def
      by (cases ?ended) (simp_all add: db4_def db3_def insert_tasks_def count_hits_def db1_def insert_build_def b0_def upd_where_def)
    then show ?thesis
      unfolding submitted_def Let_def using pok pinv res(2) by (intro conjI exI[of _ ?pls]) (simp_all add: plan_inv_def b0_def)
  qed
  ultimately show thesis
    using that[of p] pl[unfolded db1_def] e res pok mf(3,4) tasks4 deps4 by (simp add: b0_def)
qed

end
