(* ===== verification/Dc_Coordinator.thy ===== *)
theory Dc_Coordinator
  imports Dc_Submit
begin

text \<open>
  The coordinator as a whole (\<open>src/coordinator.cpp\<close>): the read-only and the blob calls, its state
  (the tables, the blob store, the partition map and the wake-up counter it keeps in memory), and
  the step relation in which the calls of any number of clients and workers, the rounds of the
  reaper and restarts follow one another in any order. A transaction is one step, so is every
  statement outside one. The parameter \<open>faulty\<close> says whether a round of the reaper may be cut short
  by a database error; \<open>coord_ok\<close> is the invariant when it may not, \<open>coord_sound\<close> when it may.
\<close>

section \<open>Read-only calls\<close>

definition check_cache :: "string list \<Rightarrow> db \<Rightarrow> string list" where
  "check_cache ks db = map c_key (filter (\<lambda>c. c_key c \<in> set ks) (db_cache db))"

definition find_missing :: "string list \<Rightarrow> cas \<Rightarrow> string list" where
  "find_missing hs cas = filter (\<lambda>h. \<not> cas_has cas h) hs"

definition get_blob :: "string \<Rightarrow> cas \<Rightarrow> rpc_status \<times> string" where
  "get_blob h cas = (case cas_get cas h of
     None \<Rightarrow> (Status_error Not_found (''no blob '' @ h), []) | Some d \<Rightarrow> (Status_ok, d))"

record task_status =
  ts_id :: nat
  ts_state :: tstate
  ts_output :: string
  ts_worker :: string
  ts_attempts :: nat
  ts_log :: string
  ts_exec_ms :: int

record build_status =
  st_state :: bstate
  st_total :: nat
  st_finished :: nat
  st_cached :: nat
  st_running :: nat
  st_tasks :: "task_status list"

definition status_of :: "task_row \<Rightarrow> task_status" where
  "status_of t = \<lparr>ts_id = t_id t, ts_state = t_state t, ts_output = text_of (t_output t),
     ts_worker = text_of (t_lease_owner t), ts_attempts = t_attempts t, ts_log = text_of (t_log t),
     ts_exec_ms = (case t_exec_ms t of None \<Rightarrow> 0 | Some x \<Rightarrow> x)\<rparr>"

definition get_build :: "nat \<Rightarrow> bool \<Rightarrow> db \<Rightarrow> rpc_status \<times> build_status option" where
  "get_build b full db =
     (case filter (\<lambda>r. b_id r = b) (db_builds db) of
        [] \<Rightarrow> (Status_error Not_found (''no build '' @ to_string_nat b), None)
      | r # _ \<Rightarrow> (Status_ok, Some
          \<lparr>st_state = b_state r, st_total = count_tasks (\<lambda>_. True) b db, st_finished = count_tasks fin b db,
           st_cached = count_tasks (\<lambda>s. s = TCached) b db, st_running = count_tasks (\<lambda>s. s = TRunning) b db,
           st_tasks = if \<not> full then []
             else map status_of (sort_key t_id (filter (\<lambda>t. t_build t = b) (db_tasks db)))\<rparr>))"

section \<open>Uploads\<close>

text \<open>\<open>io i\<close> is what the operating system does to the \<open>i\<close>-th blob of the batch.\<close>

fun put_blobs :: "sha_fn \<Rightarrow> (nat \<Rightarrow> put_env) \<Rightarrow> (string \<times> string) list \<Rightarrow> nat \<Rightarrow> int \<Rightarrow> cas
    \<Rightarrow> rpc_status \<times> nat \<times> int \<times> cas" where
  "put_blobs sha io [] stored bytes cas = (Status_ok, stored, bytes, cas)"
| "put_blobs sha io ((h, d) # bs) stored bytes cas =
     (let (r, cas') = cas_put_env sha (io stored) d h cas
      in if r = [] then (Status_error Invalid_argument (''blob '' @ h @ '' doesn'' @ [CHR 0x27] @ ''t match its contents''), stored, bytes, cas')
         else put_blobs sha io bs (stored + 1) (bytes + int (length d)) cas')"

section \<open>State and steps\<close>

record coord =
  co_db :: db
  co_cas :: cas
  co_parts :: "string \<rightharpoonup> int"
  co_gen :: nat

definition wake_workers :: "coord \<Rightarrow> coord" where
  "wake_workers s = s\<lparr>co_gen := co_gen s + 1\<rparr>"

text \<open>The answer of \<open>SubmitBuild\<close> wakes the workers only when it is OK; \<open>CompleteTask\<close> likewise.\<close>

definition submit_call :: "sha_fn \<Rightarrow> txn_env \<Rightarrow> int \<Rightarrow> build_spec \<Rightarrow> coord \<Rightarrow> coord" where
  "submit_call sha env now spec s =
     (let (st, rep, db') = submit_build sha (co_cas s) env now spec (co_db s); s' = s\<lparr>co_db := db'\<rparr>
      in if st = Status_ok then wake_workers s' else s')"

definition complete_call :: "sha_fn \<Rightarrow> nat \<Rightarrow> txn_env \<Rightarrow> int \<Rightarrow> task_result \<Rightarrow> coord \<Rightarrow> coord" where
  "complete_call sha m env now r s =
     (let (st, acc, db') = complete_task sha m (co_cas s) env now r (co_db s); s' = s\<lparr>co_db := db'\<rparr>
      in if st = Status_ok then wake_workers s' else s')"

definition put_call :: "sha_fn \<Rightarrow> (nat \<Rightarrow> put_env) \<Rightarrow> (string \<times> string) list \<Rightarrow> coord \<Rightarrow> coord" where
  "put_call sha io bs s = s\<lparr>co_cas := snd (snd (snd (put_blobs sha io bs 0 0 (co_cas s))))\<rparr>"

definition register_call :: "int \<Rightarrow> string \<Rightarrow> string \<Rightarrow> int \<Rightarrow> coord \<Rightarrow> coord" where
  "register_call now w tc slots s =
     (let (part, db') = register_worker now w tc slots (co_db s)
      in s\<lparr>co_db := db', co_parts := (co_parts s)(w \<mapsto> part)\<rparr>)"

definition reap_round :: "nat \<Rightarrow> nat option \<Rightarrow> int \<Rightarrow> coord \<Rightarrow> coord" where
  "reap_round m stop now s =
     (let rows = reaped m now (co_db s); s' = s\<lparr>co_db := reap m stop now (co_db s)\<rparr>
      in if rows \<noteq> [] \<and> stop = None then wake_workers s' else s')"

inductive coord_step :: "sha_fn \<Rightarrow> nat \<Rightarrow> int \<Rightarrow> bool \<Rightarrow> coord \<Rightarrow> coord \<Rightarrow> bool"
  for sha :: sha_fn and m :: nat and lease :: int and faulty :: bool where
  step_put: "\<forall>i. put_env_ok (io i) \<Longrightarrow> coord_step sha m lease faulty s (put_call sha io bs s)"
| step_submit: "leaf_compiles (bs_tasks spec) \<Longrightarrow> coord_step sha m lease faulty s (submit_call sha env now spec s)"
| step_register: "coord_step sha m lease faulty s (register_call now w tc slots s)"
| step_leases: "coord_step sha m lease faulty s (s\<lparr>co_db := heartbeat_leases lease now w (co_db s)\<rparr>)"
| step_seen: "coord_step sha m lease faulty s (s\<lparr>co_db := heartbeat_seen now w (co_db s)\<rparr>)"
| step_partition: "coord_step sha m lease faulty s (s\<lparr>co_parts := snd (partition_of w (co_parts s) (co_db s))\<rparr>)"
| step_claim: "coord_step sha m lease faulty s
     (s\<lparr>co_db := snd (claim_stmt lease now w tc part locked pick (co_db s))\<rparr>)"
| step_complete: "coord_step sha m lease faulty s (complete_call sha m env now r s)"
| step_reap: "stop = None \<or> faulty \<Longrightarrow> coord_step sha m lease faulty s (reap_round m stop now s)"
| step_restart: "coord_step sha m lease faulty s (s\<lparr>co_parts := Map.empty, co_gen := 0\<rparr>)"

definition coord_start :: "nat \<Rightarrow> coord \<Rightarrow> bool" where
  "coord_start m s \<longleftrightarrow> co_db s = empty_db"

definition stored_hashes :: "cas \<Rightarrow> string set" where
  "stored_hashes cas = {h. cas_has cas h}"

definition coord_ok :: "sha_fn \<Rightarrow> nat \<Rightarrow> coord \<Rightarrow> bool" where
  "coord_ok sha m s \<longleftrightarrow> consistent sha m (stored_hashes (co_cas s)) {} {} {} (co_db s)"

definition coord_sound :: "sha_fn \<Rightarrow> nat \<Rightarrow> coord \<Rightarrow> bool" where
  "coord_sound sha m s \<longleftrightarrow>
     (\<exists>X. consistent sha m (stored_hashes (co_cas s)) {} X {} (co_db s) \<and>
        (\<forall>b\<in>X. \<exists>t\<in>set (db_tasks (co_db s)). t_build t = b \<and> t_state t = TFailed))"

section \<open>Steps keep the invariant\<close>

lemma consistent_more_blobs:
  assumes con: "consistent sha m C E X W db" and sub: "C \<subseteq> D" and ok: "[] \<notin> D" "\<forall>h\<in>D. nl \<notin> set h"
  shows "consistent sha m D E X W db"
proof (rule consistentI)
  note c = consistentD[OF con]
  show "keys_ok db" "deps_ok db" "edges_ok E db" using c by simp_all
  show "cache_ok D db" using c(4) sub ok by (auto simp: cache_ok_def)
  show "build_ok E X db r" if "r \<in> set (db_builds db)" for r using c(6)[OF that] .
  show "task_ok sha m D E W db t" if t: "t \<in> set (db_tasks db)" for t
  proof -
    have "work_ok C db t \<Longrightarrow> work_ok D db t"
      by (simp add: work_ok_def split: if_splits) (use sub in auto)
    moreover have "\<exists>h\<in>C. t_output t = Some h \<Longrightarrow> \<exists>h\<in>D. t_output t = Some h" using sub by blast
    ultimately show ?thesis using c(5)[OF t] unfolding task_ok_def by blast
  qed
qed

lemma stored_hashes_ok: "[] \<notin> stored_hashes cas" "\<forall>h\<in>stored_hashes cas. nl \<notin> set h"
  by (auto simp: stored_hashes_def cas_has_def dest: valid_hash_no_dot)

lemma put_blobs_keeps:
  assumes "\<And>i. put_env_ok (io i)" "put_blobs sha io bs k n cas = (st, k', n', cas')"
  shows "stored_hashes cas \<subseteq> stored_hashes cas'"
  using assms(2)
proof (induction bs arbitrary: k n cas)
  case (Cons b bs)
  obtain h d where b: "b = (h, d)" by fastforce
  obtain x cas1 where p: "cas_put_env sha (io k) d h cas = (x, cas1)" by fastforce
  have "stored_hashes cas \<subseteq> stored_hashes cas1"
    using cas_store.put_has_mono[OF assms(1) p] by (auto simp: stored_hashes_def)
  moreover have "stored_hashes cas1 \<subseteq> stored_hashes cas'"
    using Cons.IH[of "k + 1" "n + int (length d)" cas1] Cons.prems by (auto simp: b p split: if_splits)
  ultimately show ?case by blast
qed simp

lemma complete_task_ok:
  assumes con: "consistent sha m (stored_hashes cas) {} X {} db"
    and "complete_task sha m cas env now r db = (st, acc, db')"
  shows "consistent sha m (stored_hashes cas) {} X {} db'" "evolves db db'" "db_deps db' = db_deps db"
proof -
  obtain r' where "complete_txn sha m cas env now r' db = (st, acc, db')" "r_ok r' \<Longrightarrow> r_output r' \<in> stored_hashes cas"
  proof (cases "r_ok r \<and> \<not> cas_has cas (r_output r)")
    case True
    with assms(2) that[of "retry_copy r ''output blob missing''"] show thesis
      by (simp add: complete_task_def retry_copy_def)
  next
    case False
    with assms(2) that[of r] show thesis by (simp add: complete_task_def stored_hashes_def)
  qed
  with complete_txn_ok[OF con, of r' cas env now st acc db'] show
    "consistent sha m (stored_hashes cas) {} X {} db'" "evolves db db'" "db_deps db' = db_deps db" by blast+
qed

lemma submit_build_ok:
  assumes con: "consistent sha m (stored_hashes cas) {} X {} db" and leaf: "leaf_compiles (bs_tasks spec)"
    and sb: "submit_build sha cas env now spec db = (st, rep, db')"
  defines "g \<equiv> graph_of (bs_tasks spec)"
    and "part \<equiv> partition_graph (graph_of (bs_tasks spec)) (if bs_partitions spec > 0 then bs_partitions spec else live_partitions now db)"
  shows "consistent sha m (stored_hashes cas) {} X {} db'" "evolves db db'"
    and "st \<noteq> Status_ok \<and> db' = db \<or>
      valid_graph g \<and> acyclic (dep_rel g) \<and> submitted sha cas now spec (upward_rank g) part (db_next_build db) db db' \<and>
      (st = Status_ok \<and> sr_build rep = db_next_build db \<or>
       (\<exists>e. st = Status_error Unavailable e) \<and> (\<exists>j e. commits env j = Commit_error True e))" (is ?out)
proof -
  have "consistent sha m (stored_hashes cas) {} X {} db' \<and> evolves db db' \<and> ?out" (is ?G)
  proof (cases "find bad_compile (bs_tasks spec)")
    case (Some t)
    with sb con evolves_refl show ?thesis by (auto simp: submit_build_def)
  next
    case None
    show ?thesis
  proof (cases "topo_order (graph_of (bs_tasks spec))")
    case (Inl e)
    with None sb con evolves_refl show ?thesis by (auto simp: submit_build_def)
  next
    case (Inr order)
    have C: "\<And>h. cas_has cas h \<Longrightarrow> h \<in> stored_hashes cas" by (simp add: stored_hashes_def)
    have gr: "valid_graph g" "acyclic (dep_rel g)" using topo_order_Inr[OF Inr] by (simp_all add: g_def)
    let ?submit = "submit sha cas (refuses env) now spec order (upward_rank g) part"
    obtain s c res where t: "run_txn env (submit_partial sha cas spec order) ?submit db 0 = (s, c, res)"
      by (metis prod_cases3)
    have eq: "s = db'" "case res of Returned b \<Rightarrow> st = Status_ok \<and> sr_build rep = b
        | Raised_db e \<Rightarrow> \<exists>e. st = Status_error Unavailable e | Raised e \<Rightarrow> st = Status_error Failed_precondition e"
      using sb None Inr t
      by (auto simp: submit_build_def g_def[symmetric] part_def[folded g_def, symmetric] Let_def split: txn_result.splits)
    have sub: "consistent sha m (stored_hashes cas) {} X {} s \<and> evolves db s \<and> b = db_next_build db \<and>
        submitted sha cas now spec (upward_rank g) part b db s"
      if "?submit db rj = (c, Finished s b)" for rj b
      by (rule submit_finished[OF con C leaf None Inr that]) blast+
    from t show ?thesis
    proof (cases rule: run_txn_cases)
      case (returned b rj)
      have s: "s = db'" and st: "st = Status_ok \<and> sr_build rep = b" using eq returned(1) by auto
      have b: "b = db_next_build db" using sub[OF returned(2)] by blast
      show ?thesis using sub[OF returned(2)] gr st unfolding s b by blast
    next
      case raised
      with eq con evolves_refl show ?thesis by (auto split: txn_result.splits)
    next
      case (landed b rj e j)
      have s: "s = db'" and st: "\<exists>e. st = Status_error Unavailable e" using eq landed(1) by auto
      have b: "b = db_next_build db" using sub[OF landed(2)] by blast
      show ?thesis using sub[OF landed(2)] gr st landed(3) unfolding s b by blast
    qed
  qed
  qed
  then show "consistent sha m (stored_hashes cas) {} X {} db'" "evolves db db'" ?out by blast+
qed

lemma coord_step_cases:
  assumes st: "coord_step sha m lease faulty s t"
    and con: "consistent sha m (stored_hashes (co_cas s)) {} X {} (co_db s)"
  shows "stored_hashes (co_cas s) \<subseteq> stored_hashes (co_cas t)" "evolves (co_db s) (co_db t)"
    and "\<exists>Y. consistent sha m (stored_hashes (co_cas t)) {} (X \<union> Y) {} (co_db t) \<and> (\<not> faulty \<longrightarrow> Y = {}) \<and>
      (\<forall>b\<in>Y. \<exists>t\<in>set (db_tasks (co_db t)). t_build t = b \<and> t_state t = TFailed)"
proof -
  let ?C = "stored_hashes (co_cas s)"
  let ?G = "stored_hashes (co_cas s) \<subseteq> stored_hashes (co_cas t) \<and> evolves (co_db s) (co_db t) \<and>
    (\<exists>Y. consistent sha m (stored_hashes (co_cas t)) {} (X \<union> Y) {} (co_db t) \<and> (\<not> faulty \<longrightarrow> Y = {}) \<and>
      (\<forall>b\<in>Y. \<exists>t\<in>set (db_tasks (co_db t)). t_build t = b \<and> t_state t = TFailed))"
  have same_cas: ?G if "co_cas t = co_cas s" "evolves (co_db s) (co_db t)" "consistent sha m ?C {} X {} (co_db t)"
    using that by (auto intro!: exI[of _ "{}"])
  from st have ?G
  proof cases
    case (step_put io bs)
    obtain st' k n cas' where p: "put_blobs sha io bs 0 0 (co_cas s) = (st', k, n, cas')" by (metis prod_cases4)
    have sub: "stored_hashes (co_cas s) \<subseteq> stored_hashes cas'" using put_blobs_keeps[OF _ p] step_put(2) by blast
    from consistent_more_blobs[OF con sub stored_hashes_ok] sub step_put(1) p evolves_refl show ?thesis
      by (auto simp: put_call_def intro!: exI[of _ "{}"])
  next
    case (step_submit spec env now)
    obtain st' rep db' where r: "submit_build sha (co_cas s) env now spec (co_db s) = (st', rep, db')" by (metis prod_cases3)
    with submit_build_ok(1,2)[OF con step_submit(2) r] step_submit(1) show ?thesis
      by (intro same_cas) (auto simp: submit_call_def wake_workers_def Let_def)
  next
    case (step_register now w tc slots)
    with register_worker_ok[OF con, of now w tc slots] show ?thesis
      by (intro same_cas) (auto simp: register_call_def split: prod.splits)
  next
    case (step_leases now w)
    with heartbeat_leases_ok[OF con, of lease now w] show ?thesis by (intro same_cas) simp_all
  next
    case (step_seen now w)
    with heartbeat_seen_ok[OF con, of now w] show ?thesis by (intro same_cas) simp_all
  next
    case (step_partition w)
    with con evolves_refl show ?thesis by (intro same_cas) simp_all
  next
    case (step_claim now w tc part locked pick)
    have "consistent sha m ?C {} X {} (snd (claim_stmt lease now w tc part locked pick (co_db s))) \<and>
        evolves (co_db s) (snd (claim_stmt lease now w tc part locked pick (co_db s)))"
      by (rule claim_stmt_ok[OF con, of lease now w tc part locked pick]) (use con evolves_refl in simp_all)
    with step_claim show ?thesis by (intro same_cas) simp_all
  next
    case (step_complete env now r)
    obtain st' acc db' where r: "complete_task sha m (co_cas s) env now r (co_db s) = (st', acc, db')" by (metis prod_cases3)
    with complete_task_ok[OF con r] step_complete show ?thesis
      by (intro same_cas) (auto simp: complete_call_def wake_workers_def Let_def)
  next
    case (step_reap stop now)
    obtain Y where Y: "consistent sha m ?C {} (X \<union> Y) {} (reap m stop now (co_db s))" "evolves (co_db s) (reap m stop now (co_db s))"
      "stop = None \<Longrightarrow> Y = {}" "\<And>b. b \<in> Y \<Longrightarrow> \<exists>t\<in>set (db_tasks (reap m stop now (co_db s))). t_build t = b \<and> t_state t = TFailed"
      using reap_ok[OF con, of stop now] by blast
    have e: "co_db t = reap m stop now (co_db s)" "co_cas t = co_cas s"
      using step_reap(1) by (simp_all add: reap_round_def wake_workers_def Let_def)
    have "\<not> faulty \<longrightarrow> Y = {}" using step_reap(2) Y(3) by blast
    with Y(1,2,4) show ?thesis unfolding e by blast
  next
    case step_restart
    with con evolves_refl show ?thesis by (intro same_cas) simp_all
  qed
  then show "stored_hashes (co_cas s) \<subseteq> stored_hashes (co_cas t)" "evolves (co_db s) (co_db t)"
    "\<exists>Y. consistent sha m (stored_hashes (co_cas t)) {} (X \<union> Y) {} (co_db t) \<and> (\<not> faulty \<longrightarrow> Y = {}) \<and>
      (\<forall>b\<in>Y. \<exists>t\<in>set (db_tasks (co_db t)). t_build t = b \<and> t_state t = TFailed)" by blast+
qed

lemma consistent_empty: "consistent sha m (stored_hashes cas) {} {} {} empty_db"
  using stored_hashes_ok by (simp add: consistent_def empty_db_def keys_ok_def deps_ok_def edges_ok_def cache_ok_def)

lemma coord_ok_step:
  assumes "coord_ok sha m s" "coord_step sha m lease False s t"
  shows "coord_ok sha m t"
proof -
  have con: "consistent sha m (stored_hashes (co_cas s)) {} {} {} (co_db s)"
    using assms(1) by (simp_all add: coord_ok_def)
  from coord_step_cases(3)[OF assms(2) con] show ?thesis by (auto simp: coord_ok_def)
qed

lemma coord_sound_step:
  assumes "coord_sound sha m s" "coord_step sha m lease faulty s t"
  shows "coord_sound sha m t"
proof -
  obtain X where con: "consistent sha m (stored_hashes (co_cas s)) {} X {} (co_db s)"
    and X: "\<forall>b\<in>X. \<exists>t\<in>set (db_tasks (co_db s)). t_build t = b \<and> t_state t = TFailed"
    using assms(1) by (auto simp: coord_sound_def)
  note c = coord_step_cases[OF assms(2) con]
  have "\<exists>u\<in>set (db_tasks (co_db t)). t_build u = b \<and> t_state u = TFailed" if "b \<in> X" for b
    using X that c(2) unfolding evolves_def terminal_def by metis
  with c(3) show ?thesis unfolding coord_sound_def by blast
qed

interpretation coord: invariant_of "coord_start m" "coord_step sha m lease False" "coord_ok sha m" for sha m lease
  by unfold_locales (simp add: coord_start_def coord_ok_def consistent_empty, rule coord_ok_step)

interpretation coord_faulty: invariant_of "coord_start m" "coord_step sha m lease True" "coord_sound sha m" for sha m lease
proof
  show "coord_sound sha m s" if "coord_start m s" for s
    using that consistent_empty unfolding coord_start_def coord_sound_def by (intro conjI exI[of _ "{}"]) auto
qed (rule coord_sound_step)

end
