(* ===== verification/Dc_Preprocess.thy ===== *)
theory Dc_Preprocess
  imports Dc_Util
begin

text \<open>
  \<open>src/preprocess.cpp\<close>: splitting the compiler flags, removing line markers and blank lines,
  the list of files a preprocessed text names, the cache key of a compile, and the toolchain name.
  The scans keep the index arithmetic of the source and are proved equal to a description by lines.
  Running the compiler is the parameter \<open>run\<close>.
\<close>

section \<open>Flags\<close>

record compile_config =
  driver :: string
  lang :: string
  toolchain :: string
  pp_flags :: "string list"
  cc_flags :: "string list"
  debug :: bool

definition is_pp_flag :: "string \<Rightarrow> bool" where
  "is_pp_flag f \<longleftrightarrow> starts_with ''-I'' f \<or> starts_with ''-D'' f \<or> starts_with ''-U'' f \<or>
     f = ''-include'' \<or> f = ''-isystem'' \<or> f = ''-iquote''"

definition takes_word :: "string \<Rightarrow> bool" where
  "takes_word f \<longleftrightarrow> f = ''-I'' \<or> f = ''-D'' \<or> f = ''-U'' \<or> f = ''-include'' \<or> f = ''-isystem'' \<or> f = ''-iquote''"

definition is_debug_flag :: "string \<Rightarrow> bool" where
  "is_debug_flag f \<longleftrightarrow> starts_with ''-g'' f \<and> f \<noteq> ''-g0''"

fun sort_flags :: "string list \<Rightarrow> compile_config \<Rightarrow> compile_config" where
  "sort_flags [] c = c"
| "sort_flags [f] c =
     (if is_pp_flag f then c\<lparr>pp_flags := pp_flags c @ [f]\<rparr>
      else c\<lparr>cc_flags := cc_flags c @ [f], debug := debug c \<or> is_debug_flag f\<rparr>)"
| "sort_flags (f # g # fs) c =
     (if is_pp_flag f then
        if takes_word f then sort_flags fs (c\<lparr>pp_flags := pp_flags c @ [f, g]\<rparr>)
        else sort_flags (g # fs) (c\<lparr>pp_flags := pp_flags c @ [f]\<rparr>)
      else sort_flags (g # fs) (c\<lparr>cc_flags := cc_flags c @ [f], debug := debug c \<or> is_debug_flag f\<rparr>))"

definition make_config :: "string \<Rightarrow> string \<Rightarrow> string \<Rightarrow> string list \<Rightarrow> compile_config" where
  "make_config drv lng tc flags =
     sort_flags flags \<lparr>driver = drv, lang = lng, toolchain = tc, pp_flags = [], cc_flags = [], debug = False\<rparr>"

section \<open>Line markers\<close>

definition is_marker :: "string \<Rightarrow> nat \<Rightarrow> bool" where
  "is_marker s b \<longleftrightarrow> substr s b 2 = ''# '' \<and> b + 2 < length s \<and> is_digit (s ! (b + 2))"

definition line_end :: "string \<Rightarrow> nat \<Rightarrow> nat" where
  "line_end text b = (case find_if (\<lambda>c. c = nl) text b of None \<Rightarrow> length text | Some e \<Rightarrow> e)"

definition blank_line :: "string \<Rightarrow> nat \<Rightarrow> nat \<Rightarrow> bool" where
  "blank_line text b e \<longleftrightarrow>
     (case find_if (\<lambda>c. c \<noteq> CHR '' '' \<and> c \<noteq> tab \<and> c \<noteq> cr) text b of None \<Rightarrow> True | Some k \<Rightarrow> k \<ge> e)"

lemma line_end_ge: "b \<le> length text \<Longrightarrow> b \<le> line_end text b \<and> line_end text b \<le> length text"
  by (auto simp: line_end_def find_if_Some split: option.splits)

function strip_from :: "string \<Rightarrow> nat \<Rightarrow> string" where
  "strip_from text b =
     (if b < length text then
        let e = line_end text b in
        (if \<not> is_marker text b \<and> \<not> blank_line text b e then substr text b (e - b) @ [nl] else [])
          @ strip_from text (e + 1)
      else [])"
  by pat_completeness auto
termination
proof (relation "measure (\<lambda>(text, b). length text - b)", goal_cases)
  case (2 s b x)
  with line_end_ge[of b s] show ?case by (simp add: diff_less_mono2 less_Suc_eq_le)
qed simp

declare strip_from.simps [simp del]

definition strip_line_markers :: "string \<Rightarrow> string" where
  "strip_line_markers text = strip_from text 0"

text \<open>The file a marker line names: what stands between the first two quotes after \<open>b\<close>, when both
  are before the line's end.\<close>

definition marker_file :: "string \<Rightarrow> nat \<Rightarrow> nat \<Rightarrow> string option" where
  "marker_file text b e =
     (case find_if (\<lambda>c. c = quote) text b of
        None \<Rightarrow> None
      | Some q1 \<Rightarrow>
          (case find_if (\<lambda>c. c = quote) text (q1 + 1) of
             None \<Rightarrow> None
           | Some q2 \<Rightarrow> if q2 < e then Some (substr text (q1 + 1) (q2 - q1 - 1)) else None))"

function marker_files_from :: "string \<Rightarrow> nat \<Rightarrow> string set \<Rightarrow> string list" where
  "marker_files_from text b seen =
     (if b < length text then
        let e = line_end text b in
        (case (if is_marker text b then marker_file text b e else None) of
           None \<Rightarrow> marker_files_from text (e + 1) seen
         | Some f \<Rightarrow>
             if f \<noteq> [] \<and> f ! 0 \<noteq> CHR ''<'' \<and> f \<notin> seen
             then f # marker_files_from text (e + 1) (insert f seen)
             else marker_files_from text (e + 1) seen)
      else [])"
  by pat_completeness auto
termination
proof (relation "measure (\<lambda>(text, b, seen). length text - b)", goal_cases)
  case (2 s b seen x)
  with line_end_ge[of b s] show ?case by (simp add: diff_less_mono2 less_Suc_eq_le)
next
  case (3 s b seen x f)
  with line_end_ge[of b s] show ?case by (simp add: diff_less_mono2 less_Suc_eq_le)
next
  case (4 s b seen x f)
  with line_end_ge[of b s] show ?case by (simp add: diff_less_mono2 less_Suc_eq_le)
qed simp

declare marker_files_from.simps [simp del]

definition marker_files :: "string \<Rightarrow> string list" where
  "marker_files text = marker_files_from text 0 {}"

section \<open>Keys\<close>

definition key_parts :: "compile_config \<Rightarrow> string \<Rightarrow> string list" where
  "key_parts cfg text =
     [''dc-compile-v1'', toolchain cfg, lang cfg, concat (map (\<lambda>f. f @ [nl]) (cc_flags cfg)),
      (if \<not> debug cfg \<and> lang cfg = ''c'' then strip_line_markers text else text)]"

definition compile_key :: "sha_fn \<Rightarrow> compile_config \<Rightarrow> string \<Rightarrow> string" where
  "compile_key sha cfg text = sha256_hex_parts sha (key_parts cfg text)"

section \<open>Running the compiler\<close>

record proc_result =
  exit_code :: int
  p_output :: string
  p_err :: string

record preprocessed =
  pp_ok :: bool
  pp_error :: string
  pp_text :: string
  pp_digest :: string
  pp_key :: string
  pp_deps :: "string list"

type_synonym runner = "string list \<Rightarrow> string \<Rightarrow> nat \<Rightarrow> bool \<Rightarrow> proc_result"

definition preprocess_argv :: "string \<Rightarrow> compile_config \<Rightarrow> string list" where
  "preprocess_argv src cfg =
     [driver cfg, ''-E'', ''-x'', lang cfg] @ pp_flags cfg @ cc_flags cfg @ [src]"

definition preprocess :: "sha_fn \<Rightarrow> runner \<Rightarrow> string \<Rightarrow> string \<Rightarrow> compile_config \<Rightarrow> preprocessed" where
  "preprocess sha run root src cfg =
     (let r = run (preprocess_argv src cfg) root 120 True in
      if exit_code r \<noteq> 0
      then \<lparr>pp_ok = False, pp_error = (if p_err r = [] then p_output r else p_err r),
            pp_text = [], pp_digest = [], pp_key = [], pp_deps = []\<rparr>
      else \<lparr>pp_ok = True, pp_error = [], pp_text = p_output r, pp_digest = sha256_hex sha (p_output r),
            pp_key = compile_key sha cfg (p_output r), pp_deps = marker_files (p_output r)\<rparr>)"

definition toolchain_id :: "runner \<Rightarrow> string \<Rightarrow> string" where
  "toolchain_id run drv =
     (let v = run [drv, ''--version''] [] 30 False;
          m = run [drv, ''-dumpmachine''] [] 30 False in
      if exit_code v \<noteq> 0 then []
      else let first = trim (case find_if (\<lambda>c. c = nl) (p_output v) 0 of
                               None \<Rightarrow> p_output v | Some e \<Rightarrow> substr (p_output v) 0 e);
               rest = (case find_if (\<lambda>c. c = CHR '' '') first 0 of None \<Rightarrow> first | Some k \<Rightarrow> drop (k + 1) first)
           in rest @ '' '' @ trim (p_output m))"

section \<open>Lines kept and lines dropped\<close>

definition marker_line :: "string \<Rightarrow> bool" where
  "marker_line l \<longleftrightarrow> is_marker l 0"

definition blank :: "string \<Rightarrow> bool" where
  "blank l \<longleftrightarrow> list_all (\<lambda>c. c = CHR '' '' \<or> c = tab \<or> c = cr) l"

definition kept_line :: "string \<Rightarrow> bool" where
  "kept_line l \<longleftrightarrow> \<not> marker_line l \<and> \<not> blank l"

text \<open>The line that begins at \<open>b\<close>, what follows it, and where it ends.\<close>

lemma line_at:
  assumes "b < length text"
  obtains l rest where "drop b text = l @ rest" "nl \<notin> set l" "rest = [] \<or> hd rest = nl"
    "line_end text b = b + length l" "substr text b (line_end text b - b) = l"
    "lines_of (drop b text) = l # lines_of (drop (line_end text b + 1) text)"
proof -
  let ?l = "takeWhile (\<lambda>c. c \<noteq> nl) (drop b text)" and ?r = "dropWhile (\<lambda>c. c \<noteq> nl) (drop b text)"
  have split: "drop b text = ?l @ ?r" by simp
  have nonl: "nl \<notin> set ?l" by (auto dest: set_takeWhileD)
  have hdr: "?r = [] \<or> hd ?r = nl" using hd_dropWhile[of "\<lambda>c. c \<noteq> nl" "drop b text"] by blast
  have le: "length ?l \<le> length text - b" using length_takeWhile_le[of "\<lambda>c. c \<noteq> nl" "drop b text"] by simp
  have e: "line_end text b = b + length ?l"
    using le assms by (auto simp: line_end_def find_if_def Let_def)
  have sub: "substr text b (line_end text b - b) = ?l"
    unfolding substr_def e by (simp flip: takeWhile_eq_take)
  have "drop (line_end text b + 1) text = drop 1 (drop (length ?l) (drop b text))"
    unfolding e by (simp add: add.commute add.left_commute)
  also have "drop (length ?l) (drop b text) = ?r" by (rule dropWhile_eq_drop[symmetric])
  finally have "lines_of (drop b text) = ?l # lines_of (drop (line_end text b + 1) text)"
    using assms by (subst lines_of.simps) simp
  with that[OF split nonl hdr e sub] show thesis by blast
qed

lemma is_marker_at:
  assumes "drop b text = l @ rest" "nl \<notin> set l" "rest = [] \<or> hd rest = nl"
  shows "is_marker text b \<longleftrightarrow> marker_line l"
proof -
  have len: "length text = b + length l + length rest \<or> length text \<le> b \<and> length l = 0 \<and> length rest = 0"
    using arg_cong[OF assms(1), of length] unfolding length_drop length_append by arith
  have nth: "text ! (b + k) = (l @ rest) ! k" if "b + k < length text" for k
    using assms(1) that by (metis add.commute less_imp_le_nat nth_drop add_leD1)
  have "is_marker text b \<longleftrightarrow> take 2 (l @ rest) = ''# '' \<and> 2 < length (l @ rest) \<and> is_digit ((l @ rest) ! 2)"
    using assms(1) nth[of 2] len by (auto simp: is_marker_def substr_def)
  also have "\<dots> \<longleftrightarrow> take 2 l = ''# '' \<and> 2 < length l \<and> is_digit (l ! 2)"
  proof -
    consider "l = []" | x where "l = [x]" | x y where "l = [x, y]" | x y z l' where "l = x # y # z # l'"
      by (metis list.exhaust)
    then show ?thesis
    proof cases
      case 1 with assms(3) show ?thesis by (cases rest) auto
    next
      case 2 with assms(3) show ?thesis by (cases rest) auto
    next
      case 3
      with assms(3) show ?thesis by (cases rest) (auto simp: is_digit_def)
    qed auto
  qed
  finally show ?thesis by (simp add: marker_line_def is_marker_def substr_def numeral_2_eq_2)
qed

lemma find_if_append:
  "find_if P (l @ r) 0 = (case find_if P l 0 of Some k \<Rightarrow> Some k | None \<Rightarrow> map_option ((+) (length l)) (find_if P r 0))"
proof (cases "find_if P l 0")
  case None
  then have "\<forall>c\<in>set l. \<not> P c" by (auto simp: find_if_None in_set_conv_nth)
  with None show ?thesis by (auto simp: find_if_def Let_def takeWhile_append2)
next
  case (Some k)
  then have "find_if P (l @ r) 0 = Some k" by (simp add: find_if_Some nth_append)
  with Some show ?thesis by simp
qed

lemma blank_line_at:
  assumes "drop b s = l @ rest"
  shows "blank_line s b (b + length l) \<longleftrightarrow> blank l"
proof -
  let ?P = "\<lambda>c. c \<noteq> CHR '' '' \<and> c \<noteq> tab \<and> c \<noteq> cr"
  have "find_if ?P s b = map_option ((+) b) (find_if ?P (l @ rest) 0)"
    using find_if_drop[of ?P s b] assms by simp
  also have "find_if ?P (l @ rest) 0 = (case find_if ?P l 0 of Some k \<Rightarrow> Some k
      | None \<Rightarrow> map_option ((+) (length l)) (find_if ?P rest 0))" by (rule find_if_append)
  finally have f: "find_if ?P s b = map_option ((+) b) (case find_if ?P l 0 of Some k \<Rightarrow> Some k
      | None \<Rightarrow> map_option ((+) (length l)) (find_if ?P rest 0))" .
  show ?thesis
  proof (cases "find_if ?P l 0")
    case None
    then have "blank l" by (auto simp: blank_def list_all_length find_if_None)
    with None f show ?thesis by (auto simp: blank_line_def split: option.splits)
  next
    case (Some k)
    then have "k < length l" "\<not> blank l" by (auto simp: blank_def list_all_length find_if_Some)
    with Some f show ?thesis by (simp add: blank_line_def)
  qed
qed

lemma strip_from_lines: "strip_from s b = unlines (filter kept_line (lines_of (drop b s)))"
proof (induction s b rule: strip_from.induct)
  case (1 s b)
  show ?case
  proof (cases "b < length s")
    case True
    then obtain l rest where at: "drop b s = l @ rest" "nl \<notin> set l" "rest = [] \<or> hd rest = nl"
      "line_end s b = b + length l" "substr s b (line_end s b - b) = l"
      "lines_of (drop b s) = l # lines_of (drop (line_end s b + 1) s)"
      by (rule line_at)
    have "kept_line l \<longleftrightarrow> \<not> is_marker s b \<and> \<not> blank_line s b (line_end s b)"
      unfolding kept_line_def at(4) is_marker_at[OF at(1-3)] blank_line_at[OF at(1)] by simp
    with 1[OF True refl] at(5,6) True show ?thesis by (subst strip_from.simps) (auto simp: Let_def)
  next
    case False
    then show ?thesis by (simp add: strip_from.simps)
  qed
qed

lemma strip_line_markers_spec: "strip_line_markers text = unlines (filter kept_line (lines_of text))"
  by (simp add: strip_line_markers_def strip_from_lines)

lemma strip_idempotent: "strip_line_markers (strip_line_markers text) = strip_line_markers text"
proof -
  have "\<forall>l\<in>set (filter kept_line (lines_of text)). nl \<notin> set l" using lines_of_no_nl by auto
  then show ?thesis by (simp add: strip_line_markers_spec lines_of_unlines)
qed

lemma unlines_inject:
  assumes "\<forall>l\<in>set ls. nl \<notin> set l" "\<forall>l\<in>set ms. nl \<notin> set l"
  shows "unlines ls = unlines ms \<longleftrightarrow> ls = ms"
  using lines_of_unlines[OF assms(1)] lines_of_unlines[OF assms(2)] by metis

text \<open>Two texts strip to the same text exactly when they have the same kept lines in the same order.\<close>

lemma strip_eq_iff:
  "strip_line_markers a = strip_line_markers b \<longleftrightarrow>
   filter kept_line (lines_of a) = filter kept_line (lines_of b)"
  unfolding strip_line_markers_spec
  by (rule unlines_inject) (use lines_of_no_nl in auto)

section \<open>The files a text names\<close>

text \<open>The name between the first two quotes of a line.\<close>

definition quoted_name :: "string \<Rightarrow> string option" where
  "quoted_name l =
     (let r = dropWhile (\<lambda>c. c \<noteq> quote) l
      in if r = [] \<or> quote \<notin> set (tl r) then None else Some (takeWhile (\<lambda>c. c \<noteq> quote) (tl r)))"

definition line_file :: "string \<Rightarrow> string option" where
  "line_file l =
     (if marker_line l
      then case quoted_name l of None \<Rightarrow> None | Some f \<Rightarrow> if f \<noteq> [] \<and> hd f \<noteq> CHR ''<'' then Some f else None
      else None)"

fun firsts :: "'a set \<Rightarrow> 'a list \<Rightarrow> 'a list" where
  "firsts seen [] = []"
| "firsts seen (x # xs) = (if x \<in> seen then firsts seen xs else x # firsts (insert x seen) xs)"

lemma set_firsts: "set (firsts seen xs) = set xs - seen"
  by (induction seen xs rule: firsts.induct) auto

lemma distinct_firsts: "distinct (firsts seen xs)"
  by (induction seen xs rule: firsts.induct) (auto simp: set_firsts)

lemma find_quote_None: "find_if (\<lambda>c. c = quote) l 0 = None \<longleftrightarrow> quote \<notin> set l"
  unfolding find_if_None in_set_conv_nth by blast

lemma find_quote_Some:
  assumes "find_if (\<lambda>c. c = quote) l 0 = Some k"
  shows "k < length l \<and> takeWhile (\<lambda>c. c \<noteq> quote) l = take k l \<and> dropWhile (\<lambda>c. c \<noteq> quote) l = drop k l"
proof -
  define n where "n = length (takeWhile (\<lambda>c. c \<noteq> quote) l)"
  from assms have k: "k = n" "n < length l" by (simp_all add: find_if_def n_def Let_def split: if_splits)
  have "takeWhile (\<lambda>c. c \<noteq> quote) l = take n l" unfolding n_def by (rule takeWhile_eq_take)
  moreover have "dropWhile (\<lambda>c. c \<noteq> quote) l = drop n l" unfolding n_def by (rule dropWhile_eq_drop)
  ultimately show ?thesis using k by (simp only: simp_thms)
qed

lemma marker_file_at:
  assumes "drop b s = l @ rest" "b \<le> length s"
  shows "marker_file s b (b + length l) = quoted_name l"
proof -
  let ?Q = "\<lambda>c. c = quote"
  have f1: "find_if ?Q s b = map_option ((+) b) (find_if ?Q (l @ rest) 0)"
    using find_if_drop[of ?Q s b] assms by simp
  show ?thesis
  proof (cases "find_if ?Q l 0")
    case None
    then have "quoted_name l = None"
      by (simp add: quoted_name_def find_quote_None Let_def)
    moreover have "b + length l \<le> q1" if "find_if ?Q s b = Some q1" for q1
      using that f1 None by (auto simp: find_if_append split: option.splits)
    then have "marker_file s b (b + length l) = None"
      by (fastforce simp: marker_file_def find_if_Some split: option.splits)
    ultimately show ?thesis by simp
  next
    case (Some k)
    note k = find_quote_Some[OF Some]
    have q1: "find_if ?Q s b = Some (b + k)" using f1 Some by (simp add: find_if_append)
    have d: "drop (b + k + 1) s = drop (k + 1) l @ rest"
    proof -
      have "drop (b + k + 1) s = drop (k + 1) (drop b s)" by (simp add: add.commute add.left_commute)
      then show ?thesis using assms(1) k by simp
    qed
    have tl: "tl (dropWhile (\<lambda>c. c \<noteq> quote) l) = drop (k + 1) l" using k by (simp add: drop_Suc tl_drop)
    have ne: "dropWhile (\<lambda>c. c \<noteq> quote) l \<noteq> []" using k by simp
    have f2: "find_if ?Q s (b + k + 1) = map_option ((+) (b + k + 1)) (find_if ?Q (drop (k + 1) l @ rest) 0)"
      using find_if_drop[of ?Q s "b + k + 1"] d by simp
    show ?thesis
    proof (cases "find_if ?Q (drop (k + 1) l) 0")
      case None
      then have "quoted_name l = None" using ne tl by (simp add: quoted_name_def Let_def find_quote_None)
      moreover have "b + length l \<le> q2" if "find_if ?Q s (b + k + 1) = Some q2" for q2
        using that f2 None k by (cases "find_if ?Q rest 0") (auto simp: find_if_append)
      ultimately show ?thesis using q1 by (auto simp: marker_file_def not_less split: option.splits)
    next
      case (Some m)
      note m = find_quote_Some[OF Some]
      have "find_if ?Q s (b + k + 1) = Some (b + k + 1 + m)" using f2 Some by (simp add: find_if_append)
      then have "marker_file s b (b + length l) = Some (substr s (b + k + 1) m)"
        using q1 m by (simp add: marker_file_def less_diff_conv add.commute)
      also have "substr s (b + k + 1) m = take m (drop (k + 1) l)"
        unfolding substr_def d using m by simp
      finally have "marker_file s b (b + length l) = Some (takeWhile (\<lambda>c. c \<noteq> quote) (drop (k + 1) l))"
        using m by simp
      moreover have "quote \<in> set (drop (k + 1) l)" using Some find_quote_None[of "drop (k + 1) l"] by auto
      ultimately show ?thesis unfolding quoted_name_def Let_def tl using ne by simp
    qed
  qed
qed

lemma marker_files_from_lines:
  "marker_files_from s b seen = firsts seen (List.map_filter line_file (lines_of (drop b s)))"
proof (induction s b seen rule: marker_files_from.induct)
  case (1 s b seen)
  show ?case
  proof (cases "b < length s")
    case True
    then obtain l rest where at: "drop b s = l @ rest" "nl \<notin> set l" "rest = [] \<or> hd rest = nl"
      "line_end s b = b + length l" "substr s b (line_end s b - b) = l"
      "lines_of (drop b s) = l # lines_of (drop (line_end s b + 1) s)"
      by (rule line_at)
    let ?r = "List.map_filter line_file (lines_of (drop (line_end s b + 1) s))"
    have nm: "(if is_marker s b then marker_file s b (line_end s b) else None)
        = (if marker_line l then quoted_name l else None)"
      using True by (simp only: at(4) is_marker_at[OF at(1-3)] marker_file_at[OF at(1)] less_imp_le)
    have rhs: "firsts seen (List.map_filter line_file (lines_of (drop b s)))
      = firsts seen (case line_file l of None \<Rightarrow> ?r | Some f \<Rightarrow> f # ?r)"
      unfolding at(6) by (simp add: List.map_filter_simps split: option.splits)
    show ?thesis
    proof (cases "if marker_line l then quoted_name l else None")
      case None
      then have "line_file l = None" by (auto simp: line_file_def split: if_splits)
      with 1(1)[OF True refl] None nm rhs True show ?thesis
        by (subst marker_files_from.simps) (simp add: Let_def)
    next
      case (Some f)
      then have lf: "line_file l = (if f \<noteq> [] \<and> hd f \<noteq> CHR ''<'' then Some f else None)"
        by (auto simp: line_file_def split: if_splits)
      show ?thesis
      proof (cases "f \<noteq> [] \<and> f ! 0 \<noteq> CHR ''<'' \<and> f \<notin> seen")
        case new: True
        then have "hd f \<noteq> CHR ''<''" by (simp add: hd_conv_nth)
        with new lf have "line_file l = Some f" by simp
        with 1(2)[OF True refl, of f] Some nm rhs True new show ?thesis
          by (subst marker_files_from.simps) (simp add: Let_def)
      next
        case old: False
        then have "firsts seen (case line_file l of None \<Rightarrow> ?r | Some f \<Rightarrow> f # ?r) = firsts seen ?r"
          using lf by (auto simp: hd_conv_nth)
        moreover have "marker_files_from s b seen = marker_files_from s (line_end s b + 1) seen"
          using True nm Some old by (subst marker_files_from.simps) (auto simp: Let_def)
        ultimately show ?thesis using 1(3)[OF True refl, of f] Some nm rhs old by simp
      qed
    qed
  next
    case False
    then show ?thesis by (simp add: marker_files_from.simps List.map_filter_simps)
  qed
qed

lemma marker_files_spec: "marker_files s = firsts {} (List.map_filter line_file (lines_of s))"
  by (simp add: marker_files_def marker_files_from_lines)

section \<open>Flags and keys\<close>

text \<open>No flag is lost, added or reordered within its group.\<close>

lemma sort_flags_shuffle:
  "driver (sort_flags fs c) = driver c \<and> lang (sort_flags fs c) = lang c \<and> toolchain (sort_flags fs c) = toolchain c \<and>
   (\<exists>ps cs. pp_flags (sort_flags fs c) = pp_flags c @ ps \<and> cc_flags (sort_flags fs c) = cc_flags c @ cs \<and>
      fs \<in> shuffles ps cs \<and> (\<forall>f\<in>set cs. \<not> is_pp_flag f) \<and>
      debug (sort_flags fs c) = (debug c \<or> (\<exists>f\<in>set cs. is_debug_flag f)))"
proof (induction fs c rule: sort_flags.induct)
  case (2 f c)
  show ?case by (auto simp: Cons_in_shuffles_leftI)
next
  case (3 f g fs c)
  consider (word) "is_pp_flag f" "takes_word f" | (alone) "is_pp_flag f" "\<not> takes_word f" | (cc) "\<not> is_pp_flag f"
    by blast
  then show ?case
  proof cases
    case word
    let ?c = "c\<lparr>pp_flags := pp_flags c @ [f, g]\<rparr>"
    from 3(1)[OF word] obtain ps cs where "pp_flags (sort_flags fs ?c) = pp_flags c @ [f, g] @ ps"
      "cc_flags (sort_flags fs ?c) = cc_flags c @ cs" "fs \<in> shuffles ps cs" "\<forall>f\<in>set cs. \<not> is_pp_flag f"
      "debug (sort_flags fs ?c) = (debug c \<or> (\<exists>f\<in>set cs. is_debug_flag f))" by auto
    with 3(1)[OF word] word show ?thesis
      by (auto intro!: exI[of _ "f # g # ps"] exI[of _ cs] Cons_in_shuffles_leftI)
  next
    case alone
    let ?c = "c\<lparr>pp_flags := pp_flags c @ [f]\<rparr>"
    from 3(2)[OF alone] obtain ps cs where "pp_flags (sort_flags (g # fs) ?c) = pp_flags c @ [f] @ ps"
      "cc_flags (sort_flags (g # fs) ?c) = cc_flags c @ cs" "g # fs \<in> shuffles ps cs" "\<forall>f\<in>set cs. \<not> is_pp_flag f"
      "debug (sort_flags (g # fs) ?c) = (debug c \<or> (\<exists>f\<in>set cs. is_debug_flag f))" by auto
    with 3(2)[OF alone] alone show ?thesis
      by (auto intro!: exI[of _ "f # ps"] exI[of _ cs] Cons_in_shuffles_leftI)
  next
    case cc
    let ?c = "c\<lparr>cc_flags := cc_flags c @ [f], debug := debug c \<or> is_debug_flag f\<rparr>"
    from 3(3)[OF cc] obtain ps cs where "pp_flags (sort_flags (g # fs) ?c) = pp_flags c @ ps"
      "cc_flags (sort_flags (g # fs) ?c) = cc_flags c @ [f] @ cs" "g # fs \<in> shuffles ps cs" "\<forall>f\<in>set cs. \<not> is_pp_flag f"
      "debug (sort_flags (g # fs) ?c) = (debug c \<or> is_debug_flag f \<or> (\<exists>f\<in>set cs. is_debug_flag f))" by auto
    with 3(3)[OF cc] cc show ?thesis
      by (auto intro!: exI[of _ ps] exI[of _ "f # cs"] Cons_in_shuffles_rightI)
  qed
qed simp

lemma make_config_split:
  "flags \<in> shuffles (pp_flags (make_config drv lng tc flags)) (cc_flags (make_config drv lng tc flags)) \<and>
   (\<forall>f\<in>set (cc_flags (make_config drv lng tc flags)). \<not> is_pp_flag f) \<and>
   debug (make_config drv lng tc flags) = (\<exists>f\<in>set (cc_flags (make_config drv lng tc flags)). is_debug_flag f)"
  using sort_flags_shuffle[of flags "\<lparr>driver = drv, lang = lng, toolchain = tc, pp_flags = [], cc_flags = [], debug = False\<rparr>"]
  by (auto simp: make_config_def)

lemma make_config_fields [simp]:
  "driver (make_config drv lng tc flags) = drv" "lang (make_config drv lng tc flags) = lng"
  "toolchain (make_config drv lng tc flags) = tc"
  using sort_flags_shuffle[of flags "\<lparr>driver = drv, lang = lng, toolchain = tc, pp_flags = [], cc_flags = [], debug = False\<rparr>"]
  by (simp_all add: make_config_def)

text \<open>A configuration whose debug mark comes from its flags, as \<open>make_config\<close> sets it, with flags
  that are words of one line.\<close>

definition config_ok :: "compile_config \<Rightarrow> bool" where
  "config_ok c \<longleftrightarrow> debug c = (\<exists>f\<in>set (cc_flags c). is_debug_flag f) \<and> (\<forall>f\<in>set (cc_flags c). nl \<notin> set f)"

lemma make_config_ok: "\<forall>f\<in>set flags. nl \<notin> set f \<Longrightarrow> config_ok (make_config drv lng tc flags)"
  using make_config_split[of flags drv lng tc] set_shuffles[of flags]
  by (fastforce simp: config_ok_def)

definition normalized :: "compile_config \<Rightarrow> string \<Rightarrow> string" where
  "normalized c s = (if \<not> debug c \<and> lang c = ''c'' then strip_line_markers s else s)"

lemma key_parts_eq_iff:
  assumes "config_ok c" "config_ok d"
  shows "key_parts c s = key_parts d t \<longleftrightarrow>
    toolchain c = toolchain d \<and> lang c = lang d \<and> cc_flags c = cc_flags d \<and> normalized c s = normalized d t"
proof -
  have "concat (map (\<lambda>f. f @ [nl]) (cc_flags c)) = concat (map (\<lambda>f. f @ [nl]) (cc_flags d)) \<longleftrightarrow> cc_flags c = cc_flags d"
    using assms unlines_inject[of "cc_flags c" "cc_flags d"] by (simp add: config_ok_def unlines_def)
  then show ?thesis by (auto simp: key_parts_def normalized_def)
qed

lemma compile_key_eq_iff:
  assumes "config_ok c" "config_ok d" "frameable (key_parts c s)" "frameable (key_parts d t)"
    and "collision_free sha {frame (key_parts c s), frame (key_parts d t)}"
  shows "compile_key sha c s = compile_key sha d t \<longleftrightarrow>
    toolchain c = toolchain d \<and> lang c = lang d \<and> cc_flags c = cc_flags d \<and> normalized c s = normalized d t"
  using sha256_hex_parts_eq_iff[of sha "{key_parts c s, key_parts d t}" "key_parts c s" "key_parts d t"] assms
  by (simp add: compile_key_def key_parts_eq_iff)

end
