(* ===== verification/Dc_Worker.thy ===== *)
theory Dc_Worker
  imports Dc_Coordinator Dc_Preprocess
begin

text \<open>
  The worker (\<open>src/worker.cpp\<close>): fetching inputs through its own blob store, laying them out in a
  fresh directory, the command line it runs and the drivers it allows, the upload of the output and
  one turn of its claim loop. The compiler is a parameter that may do anything to the directory; so
  are the answers of the operating system and what the network does to every attempt of a call.
\<close>

section \<open>Fetching\<close>

definition get_handler :: "string \<Rightarrow> nat \<Rightarrow> cas \<Rightarrow> rpc_status \<times> string \<times> cas" where
  "get_handler digest k sv = (case get_blob digest sv of (st, d) \<Rightarrow> (st, d, sv))"

definition fetch :: "sha_fn \<Rightarrow> (nat \<Rightarrow> link) \<Rightarrow> put_env \<Rightarrow> string \<Rightarrow> cas \<Rightarrow> cas \<Rightarrow> string option \<times> cas" where
  "fetch sha net io digest server cache =
     (case cas_get cache digest of
        Some d \<Rightarrow> (Some d, cache)
      | None \<Rightarrow>
          (case remote net (get_handler digest) 8 [] server of
             (st, d, _) \<Rightarrow>
               if st \<noteq> Status_ok then (None, cache)
               else case cas_put_env sha io d digest cache of
                      (h, cache') \<Rightarrow> if h = [] then (None, cache') else (Some d, cache')))"

section \<open>One task\<close>

text \<open>The surroundings of one execution: the directory \<open>mkdtemp\<close> made, if it could; for each input the
  network and the writes; the compiler; the write of the output to the own store, and its upload.\<close>

record exec_env =
  we_dir :: "string option"
  we_get :: "nat \<Rightarrow> nat \<Rightarrow> link"
  we_cache_io :: "nat \<Rightarrow> put_env"
  we_file_io :: "nat \<Rightarrow> put_env"
  we_run :: "string list \<Rightarrow> fs \<Rightarrow> proc_result \<times> fs"
  we_out_io :: put_env
  we_up :: "nat \<Rightarrow> link"
  we_server_io :: "nat \<Rightarrow> put_env"
  we_ms :: int

text \<open>Why a task stops early, and whether that is worth a retry.\<close>

type_synonym refusal = "string \<times> bool"

fun place_inputs :: "sha_fn \<Rightarrow> exec_env \<Rightarrow> cas \<Rightarrow> string \<Rightarrow> nat \<Rightarrow> (string \<times> string) list \<Rightarrow> cas \<Rightarrow> fs \<Rightarrow> refusal option \<times> cas \<times> fs" where
  "place_inputs sha e server dir i [] cache files = (None, cache, files)"
| "place_inputs sha e server dir i ((h, n) # rest) cache files =
     (case fetch sha (we_get e i) (we_cache_io e i) h server cache of
        (None, cache') \<Rightarrow> (Some (''could not fetch input '' @ h, True), cache', files)
      | (Some d, cache') \<Rightarrow>
          if CHR ''/'' \<in> set n then (Some (''bad input name'', False), cache', files)
          else (case write_file_atomic (fst (we_file_io e i)) (snd (we_file_io e i)) (dir @ ''/'' @ n) d files of
                  (ok, files') \<Rightarrow>
                    if \<not> ok then (Some (''disk write failed'', True), cache', files')
                    else place_inputs sha e server dir (i + 1) rest cache' files'))"

definition allowed_drivers :: "string list" where
  "allowed_drivers = [''gcc'', ''g++'', ''cc'', ''c++'', ''clang'', ''clang++'']"

definition driver_ok :: "string list \<Rightarrow> bool" where
  "driver_ok args \<longleftrightarrow> args \<noteq> [] \<and> hd args \<in> set allowed_drivers"

definition worker_argv :: "assignment \<Rightarrow> refusal + string list" where
  "worker_argv a =
     (if a_kind a = 0 then
        if \<not> driver_ok (a_args a) then Inl (''compiler not allowed'', False)
        else Inr (a_args a @ [''-c'', ''in.i'', ''-o'', ''out''])
      else if a_kind a = 1 then Inr ([''ar'', ''rcsD'', ''out''] @ a_input_names a)
      else if \<not> driver_ok (a_args a) then Inl (''linker driver not allowed'', False)
      else Inr ([hd (a_args a), ''-o'', ''out''] @ a_input_names a @ tl (a_args a)))"

definition blank_result :: task_result where
  "blank_result = \<lparr>r_uid = 0, r_attempt = 0, r_worker = [], r_ok = False, r_retryable = False, r_output = [], r_log = [], r_exec_ms = 0\<rparr>"

definition refuse :: "task_result \<Rightarrow> refusal \<Rightarrow> task_result" where
  "refuse res why = res\<lparr>r_ok := False, r_retryable := snd why, r_log := fst why\<rparr>"

definition status_message :: "rpc_status \<Rightarrow> string" where
  "status_message st = (case st of Status_ok \<Rightarrow> [] | Status_error c msg \<Rightarrow> msg)"

text \<open>The upload of one blob: \<open>PutBlobs\<close> with a batch of one, retried.\<close>

definition put_handler :: "sha_fn \<Rightarrow> (nat \<Rightarrow> put_env) \<Rightarrow> string \<Rightarrow> string \<Rightarrow> nat \<Rightarrow> cas \<Rightarrow> rpc_status \<times> unit \<times> cas" where
  "put_handler sha io h d k sv = (case put_blobs sha (\<lambda>_. io k) [(h, d)] 0 0 sv of (st, _, _, sv') \<Rightarrow> (st, (), sv'))"

definition upload :: "sha_fn \<Rightarrow> (nat \<Rightarrow> link) \<Rightarrow> (nat \<Rightarrow> put_env) \<Rightarrow> string \<Rightarrow> string \<Rightarrow> cas \<Rightarrow> rpc_status \<times> cas" where
  "upload sha net io h d server =
     (case remote net (put_handler sha io h d) 8 () server of
        (st, _, server') \<Rightarrow> (st, server'))"

text \<open>After the command: the log of a failure, or the output stored and uploaded.\<close>

definition deliver :: "sha_fn \<Rightarrow> exec_env \<Rightarrow> string \<Rightarrow> proc_result \<times> fs \<Rightarrow> cas \<Rightarrow> cas \<Rightarrow> task_result \<times> cas \<times> cas" where
  "deliver sha e dir outcome server cache =
     (let (pr, files) = outcome; res = blank_result\<lparr>r_exec_ms := we_ms e\<rparr> in
      if exit_code pr \<noteq> 0
      then (refuse res (if p_output pr = [] then ''exit '' @ to_string (exit_code pr) else p_output pr, False), server, cache)
      else case files (dir @ ''/out'') of
             None \<Rightarrow> (refuse res (''no output file'', False), server, cache)
           | Some d \<Rightarrow>
               let (h, cache') = cas_put_env sha (we_out_io e) d [] cache;
                   (st, server') = upload sha (we_up e) (we_server_io e) h d server
               in if st \<noteq> Status_ok then (refuse res (''upload failed: '' @ status_message st, True), server', cache')
                  else (res\<lparr>r_ok := True, r_output := h, r_log := p_output pr\<rparr>, server', cache'))"

definition execute :: "sha_fn \<Rightarrow> exec_env \<Rightarrow> assignment \<Rightarrow> cas \<Rightarrow> cas \<Rightarrow> task_result \<times> cas \<times> cas" where
  "execute sha e a server cache =
     (if length (a_inputs a) \<noteq> length (a_input_names a)
      then (refuse blank_result (''inputs and names don'' @ [CHR 0x27] @ ''t line up'', False), server, cache)
      else case we_dir e of
             None \<Rightarrow> (refuse blank_result (''mkdtemp failed'', True), server, cache)
           | Some dir \<Rightarrow>
               (case place_inputs sha e server dir 0 (zip (a_inputs a) (a_input_names a)) cache Map.empty of
                  (Some why, cache', _) \<Rightarrow> (refuse blank_result why, server, cache')
                | (None, cache', files) \<Rightarrow>
                    (case worker_argv a of
                       Inl why \<Rightarrow> (refuse blank_result why, server, cache')
                     | Inr argv \<Rightarrow> deliver sha e dir (we_run e argv files) server cache')))"

section \<open>The loop\<close>

text \<open>One turn of \<open>loop\<close>: what \<open>ClaimTask\<close> answered, whether the testing options make it fail or crash,
  and the report it sends. \<open>claimed\<close> is the counter behind \<open>--crash-after\<close>.\<close>

datatype turn = Idle | Crashed | Reports task_result

definition injected :: task_result where
  "injected = blank_result\<lparr>r_retryable := True, r_log := ''injected failure''\<rparr>"

definition address :: "string \<Rightarrow> assignment \<Rightarrow> task_result \<Rightarrow> task_result" where
  "address w a res = res\<lparr>r_uid := a_uid a, r_attempt := int (a_attempt a), r_worker := w\<rparr>"

definition worker_turn :: "string \<Rightarrow> int \<Rightarrow> bool \<Rightarrow> rpc_status \<times> assignment option \<Rightarrow> (assignment \<Rightarrow> task_result) \<Rightarrow> int \<Rightarrow> turn \<times> int" where
  "worker_turn w crash_after inject claim exec claimed =
     (case claim of
        (Status_ok, Some a) \<Rightarrow>
          let claimed' = (if crash_after \<noteq> 0 then claimed + 1 else claimed)
          in if crash_after \<noteq> 0 \<and> claimed' \<ge> crash_after then (Crashed, claimed')
             else (Reports (address w a (if inject then injected else exec a)), claimed')
      | _ \<Rightarrow> (Idle, claimed))"

text \<open>\<open>run\<close> before the loop: without a toolchain, or when it cannot register in sixty attempts, the
  worker exits with code 1.\<close>

definition worker_start :: "string \<Rightarrow> (nat \<Rightarrow> 's \<Rightarrow> rpc_status \<times> 's) \<Rightarrow> 's \<Rightarrow> int option \<times> 's" where
  "worker_start tc reg s =
     (if tc = [] then (Some 1, s)
      else case with_retry reg 60 s of (st, _, s') \<Rightarrow> (if st \<noteq> Status_ok then Some 1 else None, s'))"

section \<open>What a fetched blob and an executed task are\<close>

definition blobs_within :: "nat \<Rightarrow> cas \<Rightarrow> bool" where
  "blobs_within M s \<longleftrightarrow> (\<forall>h c. cas_get s h = Some c \<longrightarrow> length c \<le> M)"

definition cache_good :: "sha_fn \<Rightarrow> nat \<Rightarrow> cas \<Rightarrow> bool" where
  "cache_good sha M s \<longleftrightarrow> cas_store.genuine sha s \<and> blobs_within M s"

definition put_good :: "nat \<Rightarrow> put_env \<Rightarrow> bool" where
  "put_good M e \<longleftrightarrow> put_env_ok e \<and> M \<le> landed (fst e)"

lemma cache_good_put:
  assumes "cache_good sha M s" "put_good M e" "length d \<le> M" "cas_put_env sha e d x s = (h, s')"
  shows "cache_good sha M s'"
proof -
  have e: "put_env_ok e" "intact_write d e" using assms(2,3) by (auto simp: put_good_def intact_write_def)
  have "cas_store.genuine sha s'" using cas_store.put_genuine[OF _ e assms(4)] assms(1) by (simp add: cache_good_def)
  moreover have "length c \<le> M" if "cas_get s' g = Some c" for g c
    using cas_store.put_adds[OF e(1) assms(4) that] e(2) assms(1,3) by (auto simp: cache_good_def blobs_within_def)
  ultimately show ?thesis by (simp add: cache_good_def blobs_within_def)
qed

lemma get_remote:
  assumes "remote net (get_handler digest) 8 [] server = (Status_ok, d, sv)"
  shows "cas_get server digest = Some d"
proof -
  have keeps: "\<And>k s. s = server \<Longrightarrow> snd (snd (get_handler digest k s)) = server"
    by (simp add: get_handler_def split: prod.splits)
  obtain k s where "s = server" "get_handler digest k s = (Status_ok, d, sv)"
    using remote_spec(2)[of "\<lambda>s. s = server" "get_handler digest", OF keeps refl assms] by auto
  then show ?thesis by (simp add: get_handler_def get_blob_def split: option.splits)
qed

lemma fetch_good:
  assumes good: "cache_good sha M cache" and srv: "blobs_within M server" and io: "put_good M io"
    and f: "fetch sha net io digest server cache = (r, cache')"
  shows "cache_good sha M cache'" "\<And>d. r = Some d \<Longrightarrow> sha256_hex sha d = digest \<and> length d \<le> M"
proof -
  have "cache_good sha M cache' \<and> (\<forall>d. r = Some d \<longrightarrow> sha256_hex sha d = digest \<and> length d \<le> M)" (is ?G)
  proof (cases "cas_get cache digest")
    case (Some d)
    with f good show ?thesis by (auto simp: fetch_def cache_good_def cas_store.genuine_def blobs_within_def)
  next
    case None
    obtain st d sv where r: "remote net (get_handler digest) 8 [] server = (st, d, sv)"
      by (metis prod_cases3)
    show ?thesis
    proof (cases "st = Status_ok")
      case False
      with f None r good show ?thesis by (auto simp: fetch_def)
    next
      case True
      have g: "cas_get server digest = Some d" by (rule get_remote) (use r True in simp)
      then have len: "length d \<le> M" and v: "digest \<noteq> []" using srv by (auto simp: blobs_within_def cas_get_def split: if_splits)
      obtain h c where p: "cas_put_env sha io d digest cache = (h, c)" by fastforce
      have "fetch sha net io digest server cache = (if h = [] then None else Some d, c)"
        by (simp add: fetch_def None r True p)
      with f have eq: "cache' = c" "r = (if h = [] then None else Some d)" by simp_all
      have "sha256_hex sha d = digest" if "h \<noteq> []"
        using cas_store.put_expected[OF _ p that v] io by (simp add: put_good_def)
      with cache_good_put[OF good io len p] len show ?thesis unfolding eq by simp
    qed
  qed
  then show "cache_good sha M cache'" "\<And>d. r = Some d \<Longrightarrow> sha256_hex sha d = digest \<and> length d \<le> M" by blast+
qed

text \<open>The directory the compiler starts in: exactly the inputs, each under its name.\<close>

definition laid_out :: "sha_fn \<Rightarrow> string \<Rightarrow> (string \<times> string) list \<Rightarrow> fs \<Rightarrow> bool" where
  "laid_out sha dir ins files \<longleftrightarrow>
     (\<forall>(h, n)\<in>set ins. CHR ''/'' \<notin> set n \<and> (\<exists>d. files (dir @ ''/'' @ n) = Some d \<and> sha256_hex sha d = h)) \<and>
     dom files = (\<lambda>(h, n). dir @ ''/'' @ n) ` set ins"

text \<open>The surroundings of the inputs: writes that report success are complete for blobs of up to \<open>M\<close>
  bytes, and a temporary name is not the name of another input.\<close>

definition env_sound :: "nat \<Rightarrow> exec_env \<Rightarrow> string list \<Rightarrow> bool" where
  "env_sound M e names \<longleftrightarrow>
     (\<forall>i. put_good M (we_cache_io e i) \<and> put_good M (we_file_io e i)) \<and>
     (\<forall>i. \<forall>n\<in>set names. \<forall>n'\<in>set names. n' \<noteq> n @ snd (we_file_io e i))"

lemma laid_out_write:
  assumes lay: "laid_out sha dir before files" and n: "CHR ''/'' \<notin> set n" "n \<notin> snd ` set before" "sha256_hex sha d = h"
    and w: "write_file_atomic io sfx (dir @ ''/'' @ n) d files = (True, files')" and io: "sfx \<noteq> []" "length d \<le> landed io"
    and tmp: "\<forall>n'\<in>snd ` set before. n' \<noteq> n @ sfx"
  shows "laid_out sha dir (before @ [(h, n)]) files'"
proof -
  have new: "files' (dir @ ''/'' @ n) = Some d" using write_file_atomic_ok(1)[OF w] io(2) by simp
  have gone: "files' (dir @ ''/'' @ n @ sfx) = None" using w io(1) by (auto simp: write_file_atomic_def Let_def split: if_splits)
  have other: "files' q = files q" if "q \<noteq> dir @ ''/'' @ n" "q \<noteq> dir @ ''/'' @ n @ sfx" for q
    using write_file_atomic_ok(2)[OF w] that by simp
  have old: "files' (dir @ ''/'' @ n') = files (dir @ ''/'' @ n')" if "n' \<in> snd ` set before" for n'
    using that n(2) tmp by (intro other) auto
  have "dir @ ''/'' @ n @ sfx \<notin> dom files" using lay tmp by (auto simp: laid_out_def)
  then have none: "files (dir @ ''/'' @ n @ sfx) = None" by (simp add: domIff)
  have "dom files' = insert (dir @ ''/'' @ n) (dom files)"
  proof (rule set_eqI)
    fix q show "q \<in> dom files' \<longleftrightarrow> q \<in> insert (dir @ ''/'' @ n) (dom files)"
      using new gone none other[of q] by (cases "q = dir @ ''/'' @ n"; cases "q = dir @ ''/'' @ n @ sfx") (simp_all add: domIff)
  qed
  moreover have "\<exists>d. files' (dir @ ''/'' @ n') = Some d \<and> sha256_hex sha d = h'" if "(h', n') \<in> set before" for h' n'
  proof -
    have "files' (dir @ ''/'' @ n') = files (dir @ ''/'' @ n')" by (rule old) (use that in force)
    then show ?thesis using lay that by (auto simp: laid_out_def)
  qed
  ultimately show ?thesis using lay new n(1,3) by (auto simp: laid_out_def)
qed

lemma place_inputs_ok:
  assumes "place_inputs sha e server dir i ins cache files = (r, cache', files')"
    and "cache_good sha M cache" "blobs_within M server" "env_sound M e (map snd (before @ ins))"
    and "distinct (map snd (before @ ins))" "laid_out sha dir before files"
  shows "cache_good sha M cache' \<and> (r = None \<longrightarrow> laid_out sha dir (before @ ins) files')"
  using assms
proof (induction ins arbitrary: i cache files before)
  case Nil
  then show ?case by simp
next
  case (Cons hn ins)
  obtain h n where hn: "hn = (h, n)" by fastforce
  obtain x cache1 where f: "fetch sha (we_get e i) (we_cache_io e i) h server cache = (x, cache1)" by fastforce
  have io: "put_good M (we_cache_io e i)" "put_good M (we_file_io e i)"
    "\<forall>n'\<in>set (map snd (before @ hn # ins)). n' \<noteq> n @ snd (we_file_io e i)"
    using Cons.prems(4) by (auto simp: env_sound_def hn)
  note fg = fetch_good[OF Cons.prems(2,3) io(1) f]
  show ?case
  proof (cases x)
    case None
    with Cons.prems(1) fg f show ?thesis by (auto simp: hn)
  next
    case (Some d)
    show ?thesis
    proof (cases "CHR ''/'' \<in> set n")
      case True
      with Cons.prems(1) fg f Some show ?thesis by (auto simp: hn)
    next
      case False
      obtain ok files1 where w: "write_file_atomic (fst (we_file_io e i)) (snd (we_file_io e i)) (dir @ ''/'' @ n) d files = (ok, files1)"
        by fastforce
      show ?thesis
      proof (cases ok)
        case bad: False
        with Cons.prems(1) fg f Some w False show ?thesis by (auto simp: hn)
      next
        case True
        have step: "place_inputs sha e server dir (i + 1) ins cache1 files1 = (r, cache', files')"
          using Cons.prems(1) f Some w False True by (simp add: hn)
        have lay: "laid_out sha dir (before @ [hn]) files1" unfolding hn
        proof (rule laid_out_write[OF Cons.prems(6) False])
          show "n \<notin> snd ` set before" using Cons.prems(5) by (auto simp: hn)
          show "sha256_hex sha d = h" using fg(2)[OF Some] by simp
          show "write_file_atomic (fst (we_file_io e i)) (snd (we_file_io e i)) (dir @ ''/'' @ n) d files = (True, files1)"
            using w True by simp
          show "snd (we_file_io e i) \<noteq> []" "length d \<le> landed (fst (we_file_io e i))"
            using io(2) fg(2)[OF Some] by (auto simp: put_good_def put_env_ok_def tmp_suffix_def)
          show "\<forall>n'\<in>snd ` set before. n' \<noteq> n @ snd (we_file_io e i)" using io(3) by auto
        qed
        from Cons.IH[OF step fg(1) Cons.prems(3) _ _ lay] Cons.prems(4,5) show ?thesis by simp
      qed
    qed
  qed
qed

lemma upload_ok:
  assumes "upload sha net io h d server = (st, server')" "\<forall>k. put_env_ok (io k)"
  shows "stored_hashes server \<subseteq> stored_hashes server'"
    and "st = Status_ok \<Longrightarrow> h \<noteq> [] \<Longrightarrow> h = sha256_hex sha d \<and> cas_has server' h"
proof -
  have keeps: "stored_hashes server \<subseteq> stored_hashes (snd (snd (put_handler sha io h d k s)))"
    if "stored_hashes server \<subseteq> stored_hashes s" for k s
  proof -
    obtain st n b s' where p: "put_blobs sha (\<lambda>_. io k) [(h, d)] 0 0 s = (st, n, b, s')" by (metis prod_cases4)
    have "stored_hashes s \<subseteq> stored_hashes s'" using put_blobs_keeps[OF _ p] assms(2) by blast
    with that p show ?thesis by (auto simp: put_handler_def)
  qed
  obtain u where r: "remote net (put_handler sha io h d) 8 () server = (st, u, server')"
    using assms(1) by (auto simp: upload_def split: prod.splits)
  from remote_spec(1)[of "\<lambda>s. stored_hashes server \<subseteq> stored_hashes s", OF keeps order_refl r]
  show "stored_hashes server \<subseteq> stored_hashes server'" by simp
  show "h = sha256_hex sha d \<and> cas_has server' h" if ok: "st = Status_ok" "h \<noteq> []"
  proof -
    obtain k s where "put_handler sha io h d k s = (Status_ok, u, server')"
      using remote_spec(2)[of "\<lambda>s. stored_hashes server \<subseteq> stored_hashes s", OF keeps order_refl r _ ok(1)] ok(1) by auto
    then obtain x where p: "cas_put_env sha (io k) d h s = (x, server')" "x \<noteq> []"
      by (auto simp: put_handler_def split: prod.splits if_splits)
    have "put_env_ok (io k)" using assms(2) by blast
    from cas_store.put_expected[OF this p ok(2)] cas_store.put_answer[OF this p(1)] p(2) show ?thesis by auto
  qed
qed

text \<open>A report of success names the output of the command that was run on exactly the inputs, and the
  server has it; unless the own store could not keep the output, and the report names nothing.\<close>

definition ran_on :: "sha_fn \<Rightarrow> exec_env \<Rightarrow> assignment \<Rightarrow> string \<Rightarrow> bool" where
  "ran_on sha e a out \<longleftrightarrow>
     (\<exists>dir files argv pr files'. we_dir e = Some dir \<and> laid_out sha dir (zip (a_inputs a) (a_input_names a)) files \<and>
        worker_argv a = Inr argv \<and> we_run e argv files = (pr, files') \<and> exit_code pr = 0 \<and> files' (dir @ ''/out'') = Some out)"

lemma execute_ok:
  assumes ex: "execute sha e a server cache = (res, server', cache')"
    and good: "cache_good sha M cache" "blobs_within M server" "env_sound M e (a_input_names a)" "distinct (a_input_names a)"
    and io: "put_env_ok (we_out_io e)" "\<forall>k. put_env_ok (we_server_io e k)" and ok: "r_ok res"
  shows "\<exists>out. ran_on sha e a out \<and>
    (r_output res = sha256_hex sha out \<and> cas_has server' (r_output res) \<or> r_output res = [])"
proof -
  let ?ins = "zip (a_inputs a) (a_input_names a)"
  have nr: "\<not> r_ok (refuse x why)" for x why by (simp add: refuse_def)
  have len: "length (a_inputs a) = length (a_input_names a)"
    using ex ok nr by (auto simp: execute_def split: if_splits)
  obtain dir where dir: "we_dir e = Some dir" using ex ok nr len by (auto simp: execute_def split: option.splits)
  obtain r c1 files where p: "place_inputs sha e server dir 0 ?ins cache Map.empty = (r, c1, files)" by (metis prod_cases3)
  have r: "r = None" using ex ok nr len dir p by (cases r) (auto simp: execute_def)
  have "map snd ([] @ ?ins) = a_input_names a" using len by simp
  with place_inputs_ok[OF p good(1,2), of "[]"] good(3,4) r
  have lay: "laid_out sha dir ?ins files" by (simp add: laid_out_def)
  obtain argv where argv: "worker_argv a = Inr argv" using ex ok nr len dir p r by (cases "worker_argv a") (auto simp: execute_def)
  obtain pr files' where run: "we_run e argv files = (pr, files')" by fastforce
  have d: "deliver sha e dir (pr, files') server c1 = (res, server', cache')"
    using ex len dir p r argv run by (simp add: execute_def)
  have ec: "exit_code pr = 0" using d ok nr by (auto simp: deliver_def Let_def split: if_splits)
  obtain out where out: "files' (dir @ ''/out'') = Some out"
    using d ok nr ec by (auto simp: deliver_def Let_def split: option.splits)
  obtain h c2 where h: "cas_put_env sha (we_out_io e) out [] c1 = (h, c2)" by fastforce
  obtain st s2 where u: "upload sha (we_up e) (we_server_io e) h out server = (st, s2)" by fastforce
  have st: "st = Status_ok" "r_output res = h" "server' = s2"
    using d ok nr ec out h u by (auto simp: deliver_def Let_def split: if_splits)
  have "h = sha256_hex sha out \<or> h = []" using cas_store.put_answer[OF io(1) h] by blast
  with upload_ok(2)[OF u io(2) st(1)] st have "r_output res = sha256_hex sha out \<and> cas_has server' (r_output res) \<or> r_output res = []" by auto
  moreover have "ran_on sha e a out" unfolding ran_on_def using dir lay argv run ec out by blast
  ultimately show ?thesis by blast
qed

end
