(* ===== verification/Dc_State.thy ===== *)
theory Dc_State
  imports Dc_Preprocess
begin

text \<open>
  The client's saved state (\<open>src/dcc.cpp:35-124\<close>): stamps of files, the units of translation, the
  text written to \<open>.dcstate\<close> and the reader of it, and the decision whether a unit has to be
  preprocessed again. Reading goes through a model of \<open>std::istream\<close>: the characters that are left
  and whether the stream is still good. \<open>stat\<close> is a parameter.
\<close>

section \<open>Input streams\<close>

type_synonym istream = "string \<times> bool"

definition read_word :: "istream \<Rightarrow> string \<times> istream" where
  "read_word s =
     (let r = dropWhile is_space (fst s)
      in if \<not> snd s \<or> r = [] then ([], (r, False))
         else (takeWhile (\<lambda>c. \<not> is_space c) r, (dropWhile (\<lambda>c. \<not> is_space c) r, True)))"

text \<open>A number: blanks, a sign, digits. A stream that has failed or holds no more characters leaves the
  variable at the value \<open>x0\<close> it had. Without digits the value is 0 and the stream fails; a value out of
  range is the nearest bound and the stream fails.\<close>

definition digits_value :: "string \<Rightarrow> nat" where
  "digits_value ds = foldl (\<lambda>a c. 10 * a + digit_val c) 0 ds"

definition split_sign :: "string \<Rightarrow> bool \<times> string" where
  "split_sign r =
     (case r of [] \<Rightarrow> (False, []) | c # cs \<Rightarrow> if c = CHR ''-'' then (True, cs) else if c = CHR ''+'' then (False, cs) else (False, r))"

definition read_i64 :: "int \<Rightarrow> istream \<Rightarrow> int \<times> istream" where
  "read_i64 x0 s =
     (let (neg, r) = split_sign (dropWhile is_space (fst s)); ds = takeWhile is_digit r; rest = dropWhile is_digit r;
          x = (if neg then - int (digits_value ds) else int (digits_value ds))
      in if \<not> snd s \<or> dropWhile is_space (fst s) = [] then (x0, (rest, False))
         else if ds = [] then (0, (rest, False))
         else if x < - (2 ^ 63) then (- (2 ^ 63), (rest, False))
         else if x \<ge> 2 ^ 63 then (2 ^ 63 - 1, (rest, False))
         else (x, (rest, True)))"

text \<open>The unsigned count: a minus sign wraps around.\<close>

definition read_size :: "istream \<Rightarrow> nat \<times> istream" where
  "read_size s =
     (let (neg, r) = split_sign (dropWhile is_space (fst s)); ds = takeWhile is_digit r; rest = dropWhile is_digit r;
          x = digits_value ds
      in if \<not> snd s then (0, (fst s, False))
         else if ds = [] then (0, (rest, False))
         else if x \<ge> 2 ^ 64 then (2 ^ 64 - 1, (rest, False))
         else (if neg then (2 ^ 64 - x) mod 2 ^ 64 else x, (rest, True)))"

text \<open>\<open>std::getline(in >> std::ws, line)\<close>\<close>

definition read_rest_of_line :: "istream \<Rightarrow> string \<times> istream" where
  "read_rest_of_line s =
     (let r = dropWhile is_space (fst s)
      in if \<not> snd s \<or> r = [] then ([], (r, False))
         else (takeWhile (\<lambda>c. c \<noteq> nl) r, (drop 1 (dropWhile (\<lambda>c. c \<noteq> nl) r), True)))"

section \<open>Units\<close>

record file_stamp =
  fs_mtime :: int
  fs_size :: int
  fs_path :: string

definition no_stamp :: file_stamp where
  "no_stamp = \<lparr>fs_mtime = 0, fs_size = -1, fs_path = []\<rparr>"

record tu =
  u_src :: string
  u_cfg :: compile_config
  u_key :: string
  u_digest :: string
  u_text :: string
  u_cost :: int
  u_deps :: "file_stamp list"
  u_fresh :: bool
  u_error :: string

definition new_tu :: "string \<Rightarrow> compile_config \<Rightarrow> tu" where
  "new_tu src cfg = \<lparr>u_src = src, u_cfg = cfg, u_key = [], u_digest = [], u_text = [], u_cost = 0, u_deps = [], u_fresh = False, u_error = []\<rparr>"

definition no_config :: compile_config where
  "no_config = \<lparr>driver = [], lang = [], toolchain = [], pp_flags = [], cc_flags = [], debug = False\<rparr>"

text \<open>\<open>stat\<close>: seconds, nanoseconds and size of a path, if it exists.\<close>

type_synonym stat_fn = "string \<Rightarrow> (int \<times> int \<times> int) option"

definition stamp :: "stat_fn \<Rightarrow> string \<Rightarrow> string \<Rightarrow> file_stamp option" where
  "stamp stat root path =
     (let full = (if path \<noteq> [] \<and> path ! 0 = CHR ''/'' then path else root @ ''/'' @ path)
      in case stat full of
           None \<Rightarrow> None
         | Some (sec, nsec, sz) \<Rightarrow> Some \<lparr>fs_mtime = sec * 1000000000 + nsec, fs_size = sz, fs_path = path\<rparr>)"

section \<open>Reading and writing the state\<close>

primrec read_stamps :: "nat \<Rightarrow> istream \<Rightarrow> file_stamp list \<times> istream" where
  "read_stamps 0 s = ([], s)"
| "read_stamps (Suc n) s =
     (let (mt, s) = read_i64 (fs_mtime no_stamp) s; (sz, s) = read_i64 (fs_size no_stamp) s; (p, s) = read_rest_of_line s; (fs, s) = read_stamps n s
      in (\<lparr>fs_mtime = mt, fs_size = sz, fs_path = p\<rparr> # fs, s))"

definition read_unit :: "istream \<Rightarrow> tu \<times> istream" where
  "read_unit s =
     (let (src, s) = read_word s; (key, s) = read_word s; (dig, s) = read_word s; (cost, s) = read_i64 0 s;
          (n, s) = read_size s; (deps, s) = read_stamps n s
      in ((new_tu src no_config)\<lparr>u_key := key, u_digest := dig, u_cost := cost, u_deps := deps\<rparr>, s))"

lemma read_word_le: "length (fst (snd (read_word s))) \<le> length (fst s)"
  using length_dropWhile_le[of is_space "fst s"] length_dropWhile_le[of "\<lambda>c. \<not> is_space c" "dropWhile is_space (fst s)"]
  by (simp add: read_word_def Let_def)

lemma read_word_less:
  assumes "snd (snd (read_word s))"
  shows "length (fst (snd (read_word s))) < length (fst s)"
proof -
  let ?r = "dropWhile is_space (fst s)"
  have r: "?r \<noteq> []" using assms by (auto simp: read_word_def Let_def split: if_splits)
  then have "\<not> is_space (hd ?r)" by (rule hd_dropWhile)
  with r have "length (dropWhile (\<lambda>c. \<not> is_space c) ?r) < length ?r"
    by (cases ?r) (auto simp: less_Suc_eq_le length_dropWhile_le)
  moreover have "length ?r \<le> length (fst s)" by (rule length_dropWhile_le)
  ultimately show ?thesis using assms by (auto simp: read_word_def Let_def split: if_splits)
qed

lemma split_sign_le: "length (snd (split_sign r)) \<le> length r"
  by (simp add: split_sign_def split: list.splits)

lemma read_number_le: "length (fst (snd (read_i64 x s))) \<le> length (fst s)" "length (fst (snd (read_size s))) \<le> length (fst s)"
  using split_sign_le[of "dropWhile is_space (fst s)"] length_dropWhile_le[of is_space "fst s"]
    length_dropWhile_le[of is_digit "snd (split_sign (dropWhile is_space (fst s)))"]
  by (cases "split_sign (dropWhile is_space (fst s))"; auto simp: read_i64_def read_size_def Let_def)+

lemma read_line_le: "length (fst (snd (read_rest_of_line s))) \<le> length (fst s)"
  using length_dropWhile_le[of is_space "fst s"] length_dropWhile_le[of "\<lambda>c. c \<noteq> nl" "dropWhile is_space (fst s)"]
  by (auto simp: read_rest_of_line_def Let_def)

lemma read_stamps_le: "length (fst (snd (read_stamps n s))) \<le> length (fst s)"
proof (induction n arbitrary: s)
  case (Suc n)
  define s1 where "s1 = snd (read_i64 0 s)"
  define s2 where "s2 = snd (read_i64 (-1) s1)"
  define s3 where "s3 = snd (read_rest_of_line s2)"
  have "snd (read_stamps (Suc n) s) = snd (read_stamps n s3)"
    by (simp add: s1_def s2_def s3_def no_stamp_def Let_def split: prod.splits)
  moreover have "length (fst s3) \<le> length (fst s)"
    using read_number_le(1)[of 0 s] read_number_le(1)[of "-1" s1] read_line_le[of s2] by (simp add: s1_def s2_def s3_def)
  ultimately show ?case using Suc[of s3] by simp
qed simp

lemma read_unit_le: "length (fst (snd (read_unit s))) \<le> length (fst s)"
proof -
  define s1 where "s1 = snd (read_word s)"
  define s2 where "s2 = snd (read_word s1)"
  define s3 where "s3 = snd (read_word s2)"
  define s4 where "s4 = snd (read_i64 0 s3)"
  define s5 where "s5 = snd (read_size s4)"
  have "snd (read_unit s) = snd (read_stamps (fst (read_size s4)) s5)"
    by (simp add: read_unit_def s1_def s2_def s3_def s4_def s5_def Let_def split: prod.splits)
  with read_stamps_le[of "fst (read_size s4)" s5] show ?thesis
    using read_word_le[of s] read_word_le[of s1] read_word_le[of s2] read_number_le(1)[of 0 s3] read_number_le(2)[of s4]
    by (simp add: s1_def s2_def s3_def s4_def s5_def)
qed

function read_units :: "istream \<Rightarrow> (string \<rightharpoonup> tu) \<Rightarrow> (string \<rightharpoonup> tu)" where
  "read_units s m =
     (let (tag, s1) = read_word s
      in if \<not> snd s1 \<or> tag \<noteq> ''tu'' then m
         else let (u, s2) = read_unit s1 in read_units s2 (m(u_src u \<mapsto> u)))"
  by pat_completeness auto
termination
proof (relation "measure (\<lambda>(s, m). length (fst s))", goal_cases)
  case (2 s m x tag s1 y u s2)
  then show ?case using read_word_less[of s] read_unit_le[of s1] by (metis case_prod_conv in_measure le_less_trans snd_conv)
qed simp

declare read_units.simps [simp del]

definition load_state :: "string option \<Rightarrow> string \<Rightarrow> (string \<rightharpoonup> tu)" where
  "load_state file config =
     (case file of
        None \<Rightarrow> Map.empty
      | Some text \<Rightarrow>
          let (header, s) = read_word (text, True); (ver, s) = read_word s; (cfg, s) = read_word s
          in if \<not> snd s \<or> header \<noteq> ''dcstate'' \<or> ver \<noteq> ''1'' \<or> cfg \<noteq> config then Map.empty
             else read_units s Map.empty)"

definition stamp_line :: "file_stamp \<Rightarrow> string" where
  "stamp_line f = to_string (fs_mtime f) @ '' '' @ to_string (fs_size f) @ '' '' @ fs_path f @ [nl]"

definition unit_lines :: "tu \<Rightarrow> string" where
  "unit_lines u =
     ''tu '' @ u_src u @ '' '' @ u_key u @ '' '' @ u_digest u @ '' '' @ to_string (u_cost u) @ '' '' @
     to_string (int (length (u_deps u))) @ [nl] @ concat (map stamp_line (u_deps u))"

definition saved :: "tu \<Rightarrow> bool" where
  "saved u \<longleftrightarrow> u_error u = [] \<and> u_key u \<noteq> []"

definition state_text :: "string \<Rightarrow> tu list \<Rightarrow> string" where
  "state_text config units = ''dcstate 1 '' @ config @ [nl] @ concat (map unit_lines (filter saved units))"

section \<open>Is a unit still valid?\<close>

definition still_valid :: "stat_fn \<Rightarrow> string \<Rightarrow> tu \<Rightarrow> bool" where
  "still_valid stat root u \<longleftrightarrow>
     u_deps u \<noteq> [] \<and>
     list_all (\<lambda>f. case stamp stat root (fs_path f) of
                 None \<Rightarrow> False | Some n \<Rightarrow> fs_mtime n = fs_mtime f \<and> fs_size n = fs_size f) (u_deps u)"

definition run_preprocess :: "sha_fn \<Rightarrow> runner \<Rightarrow> stat_fn \<Rightarrow> string \<Rightarrow> tu \<Rightarrow> tu" where
  "run_preprocess sha run stat root u =
     (let p = preprocess sha run root (u_src u) (u_cfg u) in
      if \<not> pp_ok p then u\<lparr>u_error := pp_error p\<rparr>
      else u\<lparr>u_key := pp_key p, u_digest := pp_digest p, u_cost := int (length (pp_text p)), u_text := pp_text p, u_fresh := True,
             u_deps := List.map_filter (stamp stat root) (pp_deps p)\<rparr>)"

section \<open>What was written is read back\<close>

text \<open>Words and paths that survive the format, and numbers in range.\<close>

definition word_ok :: "string \<Rightarrow> bool" where
  "word_ok w \<longleftrightarrow> w \<noteq> [] \<and> (\<forall>c\<in>set w. \<not> is_space c)"

definition path_ok :: "string \<Rightarrow> bool" where
  "path_ok p \<longleftrightarrow> p \<noteq> [] \<and> \<not> is_space (hd p) \<and> nl \<notin> set p"

definition in_i64 :: "int \<Rightarrow> bool" where
  "in_i64 x \<longleftrightarrow> - (2 ^ 63) \<le> x \<and> x < 2 ^ 63"

definition storable :: "tu \<Rightarrow> bool" where
  "storable u \<longleftrightarrow> word_ok (u_src u) \<and> word_ok (u_key u) \<and> word_ok (u_digest u) \<and> in_i64 (u_cost u) \<and>
     length (u_deps u) < 2 ^ 64 \<and> (\<forall>f\<in>set (u_deps u). in_i64 (fs_mtime f) \<and> in_i64 (fs_size f) \<and> path_ok (fs_path f))"

definition restored :: "tu \<Rightarrow> tu" where
  "restored u = (new_tu (u_src u) no_config)\<lparr>u_key := u_key u, u_digest := u_digest u, u_cost := u_cost u, u_deps := u_deps u\<rparr>"

lemma read_word_append:
  assumes "word_ok w" "is_space c"
  shows "read_word (w @ c # r, True) = (w, (c # r, True))"
proof -
  have d: "dropWhile is_space (w @ c # r) = w @ c # r" using assms(1) by (cases w) (auto simp: word_ok_def)
  have "takeWhile (\<lambda>c. \<not> is_space c) (w @ c # r) = w" "dropWhile (\<lambda>c. \<not> is_space c) (w @ c # r) = c # r"
    using assms by (simp_all add: takeWhile_append2 dropWhile_append2 word_ok_def)
  then show ?thesis using assms(1) by (simp add: read_word_def d word_ok_def Let_def)
qed

lemma read_word_space: "is_space c \<Longrightarrow> read_word (c # r, b) = read_word (r, b)"
  by (simp add: read_word_def)

lemma space_simps [simp]: "is_space nl" "is_space (CHR '' '')" "\<not> is_digit nl" "\<not> is_digit (CHR '' '')"
  by (simp_all add: is_space_def is_digit_def)

lemma to_string_parts:
  obtains ds where "split_sign (to_string i @ r) = (i < 0, ds @ r)" "list_all is_digit ds" "ds \<noteq> []"
    "int (digits_value ds) = \<bar>i\<bar>"
proof (cases "i < 0")
  case True
  then show thesis
    using that[of "to_string_nat (nat (- i))"] to_string_nat_digits to_string_nat_value[of "nat (- i)"]
    by (simp add: to_string_def split_sign_def digits_value_def)
next
  case False
  let ?d = "to_string_nat (nat i)"
  obtain c cs where c: "?d = c # cs" by (cases ?d) auto
  then have "is_digit c" using to_string_nat_digits[of "nat i"] by simp
  then have "c \<noteq> CHR ''-''" "c \<noteq> CHR ''+''" by (auto simp: is_digit_def)
  then have sg: "split_sign (?d @ r) = (False, ?d @ r)" using c by (simp add: split_sign_def)
  show thesis
  proof (rule that)
    show "split_sign (to_string i @ r) = (i < 0, ?d @ r)" using False sg by (simp add: to_string_def)
    show "int (digits_value ?d) = \<bar>i\<bar>" using False to_string_nat_value[of "nat i"] by (simp add: digits_value_def)
  qed (rule to_string_nat_digits, rule to_string_nat_nonempty)
qed

lemma to_string_skip: "dropWhile is_space (to_string i @ r) = to_string i @ r"
  using to_string_no_space[of _ i] by (cases "to_string i") auto

lemma digits_split:
  assumes "list_all is_digit ds" "\<not> is_digit c"
  shows "takeWhile is_digit (ds @ c # r) = ds" "dropWhile is_digit (ds @ c # r) = c # r"
  using assms by (simp_all add: takeWhile_append2 dropWhile_append2 list_all_iff)

lemma read_i64_append:
  assumes "in_i64 i" "\<not> is_digit c"
  shows "read_i64 x (to_string i @ c # r, True) = (i, (c # r, True))"
proof -
  obtain ds where ds: "split_sign (to_string i @ c # r) = (i < 0, ds @ c # r)" "list_all is_digit ds" "ds \<noteq> []"
    "int (digits_value ds) = \<bar>i\<bar>" by (rule to_string_parts)
  have v: "(if i < 0 then - int (digits_value ds) else int (digits_value ds)) = i" using ds(4) by simp
  show ?thesis
    unfolding read_i64_def fst_conv snd_conv to_string_skip ds(1) Let_def prod.case digits_split[OF ds(2) assms(2)] v
    using ds(3) assms(1) by (simp add: in_i64_def)
qed

lemma read_i64_space: "is_space c \<Longrightarrow> read_i64 x (c # r, True) = read_i64 x (r, True)"
  by (simp add: read_i64_def)

lemma read_size_append:
  assumes "n < 2 ^ 64" "\<not> is_digit c"
  shows "read_size (to_string (int n) @ c # r, True) = (n, (c # r, True))"
proof -
  obtain ds where ds: "split_sign (to_string (int n) @ c # r) = (int n < 0, ds @ c # r)" "list_all is_digit ds" "ds \<noteq> []"
    "int (digits_value ds) = \<bar>int n\<bar>" by (rule to_string_parts)
  then have "digits_value ds = n" "split_sign (to_string (int n) @ c # r) = (False, ds @ c # r)" by simp_all
  with ds(3) digits_split[OF ds(2) assms(2)] assms(1) show ?thesis
    by (simp add: read_size_def to_string_skip Let_def)
qed

lemma read_size_space: "is_space c \<Longrightarrow> read_size (c # r, True) = read_size (r, True)"
  by (simp add: read_size_def)

lemma read_line_append:
  assumes "path_ok p"
  shows "read_rest_of_line (CHR '' '' # p @ nl # r, True) = (p, (r, True))"
proof -
  have d: "dropWhile is_space (p @ nl # r) = p @ nl # r" using assms by (cases p) (auto simp: path_ok_def)
  have n: "\<forall>c\<in>set p. c \<noteq> nl" using assms by (auto simp: path_ok_def)
  have "takeWhile (\<lambda>c. c \<noteq> nl) (p @ nl # r) = p" "dropWhile (\<lambda>c. c \<noteq> nl) (p @ nl # r) = nl # r"
    using n by (simp_all add: takeWhile_append2 dropWhile_append2)
  then show ?thesis using assms by (simp add: read_rest_of_line_def d path_ok_def Let_def)
qed

lemma read_stamps_append:
  assumes "\<forall>f\<in>set fs. in_i64 (fs_mtime f) \<and> in_i64 (fs_size f) \<and> path_ok (fs_path f)" "w = [] \<or> w = [nl]"
  shows "read_stamps (length fs) (w @ concat (map stamp_line fs) @ r, True) = (fs, ((if fs = [] then w else []) @ r, True))"
  using assms
proof (induction fs arbitrary: w)
  case (Cons f fs)
  have w: "read_i64 z (w @ to_string i @ CHR '' '' # x, True) = read_i64 z (to_string i @ CHR '' '' # x, True)" for i x z
    using Cons.prems(2) by (auto simp: read_i64_space)
  have f: "in_i64 (fs_mtime f)" "in_i64 (fs_size f)" "path_ok (fs_path f)" using Cons.prems(1) by simp_all
  from Cons.IH[of "[]"] Cons.prems(1) show ?case
    by (simp add: stamp_line_def w read_i64_append[OF f(1)] read_i64_append[OF f(2)] read_i64_space read_line_append[OF f(3)] Let_def)
qed simp

lemma read_unit_append:
  assumes "storable u"
  obtains b where "read_unit (drop 2 (unit_lines u) @ r, True) = (restored u, ((if b then [nl] else []) @ r, True))"
proof -
  have w: "word_ok (u_src u)" "word_ok (u_key u)" "word_ok (u_digest u)" "in_i64 (u_cost u)" "length (u_deps u) < 2 ^ 64"
    "\<forall>f\<in>set (u_deps u). in_i64 (fs_mtime f) \<and> in_i64 (fs_size f) \<and> path_ok (fs_path f)"
    using assms by (simp_all add: storable_def)
  have d: "drop 2 (unit_lines u) @ r = CHR '' '' # u_src u @ CHR '' '' # u_key u @ CHR '' '' # u_digest u @ CHR '' '' #
      to_string (u_cost u) @ CHR '' '' # to_string (int (length (u_deps u))) @ nl # concat (map stamp_line (u_deps u)) @ r"
    by (simp add: unit_lines_def)
  have st: "read_stamps (length (u_deps u)) (nl # concat (map stamp_line (u_deps u)) @ r, True) =
      (u_deps u, ((if u_deps u = [] then [nl] else []) @ r, True))"
    using read_stamps_append[OF w(6), of "[nl]" r] by simp
  have "read_unit (drop 2 (unit_lines u) @ r, True) = (restored u, ((if u_deps u = [] then [nl] else []) @ r, True))"
    unfolding d read_unit_def
    by (simp add: read_word_space read_word_append[OF w(1)] read_word_append[OF w(2)] read_word_append[OF w(3)] read_i64_space
      read_i64_append[OF w(4)] read_size_space read_size_append[OF w(5)] st restored_def Let_def)
  then show thesis by (rule that)
qed

lemma read_units_append:
  assumes "\<forall>u\<in>set us. storable u" "w = [] \<or> w = [nl]"
  shows "read_units (w @ concat (map unit_lines us), True) m = fold (\<lambda>u m. m(u_src u \<mapsto> restored u)) us m"
  using assms
proof (induction us arbitrary: w m)
  case Nil
  then show ?case by (auto simp: read_units.simps[of _ m] read_word_def)
next
  case (Cons u us)
  have tu: "word_ok ''tu''" by (simp add: word_ok_def is_space_def)
  have l: "unit_lines u @ x = ''tu'' @ CHR '' '' # tl (drop 2 (unit_lines u)) @ x" for x by (simp add: unit_lines_def)
  have l2: "CHR '' '' # tl (drop 2 (unit_lines u)) = drop 2 (unit_lines u)" by (simp add: unit_lines_def)
  have skip: "read_word (w @ x, True) = read_word (x, True)" for x using Cons.prems(2) by (auto simp: read_word_space)
  have tag: "read_word (w @ unit_lines u @ concat (map unit_lines us), True) =
      (''tu'', (drop 2 (unit_lines u) @ concat (map unit_lines us), True))"
    unfolding skip l using read_word_append[OF tu, of "CHR '' ''"] l2 by simp
  obtain b where b: "read_unit (drop 2 (unit_lines u) @ concat (map unit_lines us), True) =
      (restored u, ((if b then [nl] else []) @ concat (map unit_lines us), True))"
    using read_unit_append Cons.prems(1) by (metis list.set_intros(1))
  have src: "u_src (restored u) = u_src u" by (simp add: restored_def new_tu_def)
  have "read_units (w @ concat (map unit_lines (u # us)), True) m =
      read_units ((if b then [nl] else []) @ concat (map unit_lines us), True) (m(u_src u \<mapsto> restored u))"
    by (subst read_units.simps) (simp add: tag b src)
  also have "\<dots> = fold (\<lambda>u m. m(u_src u \<mapsto> restored u)) us (m(u_src u \<mapsto> restored u))"
    by (rule Cons.IH) (use Cons.prems(1) in simp_all)
  finally show ?case by (simp only: fold_Cons comp_apply)
qed

lemma load_state_text:
  assumes "word_ok config" "\<forall>u\<in>set (filter saved units). storable u"
  shows "load_state (Some (state_text config units)) config = fold (\<lambda>u m. m(u_src u \<mapsto> restored u)) (filter saved units) Map.empty"
proof -
  have w: "word_ok ''dcstate''" "word_ok ''1''" by (simp_all add: word_ok_def is_space_def)
  have t: "state_text config units = ''dcstate'' @ CHR '' '' # ''1'' @ CHR '' '' # config @ nl # concat (map unit_lines (filter saved units))"
    by (simp add: state_text_def)
  have "load_state (Some (state_text config units)) config = read_units ([nl] @ concat (map unit_lines (filter saved units)), True) Map.empty"
    unfolding t load_state_def option.case Let_def
    by (simp only: read_word_append[OF w(1) space_simps(2)] read_word_space[OF space_simps(2)] read_word_append[OF w(2) space_simps(2)]
      read_word_append[OF assms(1) space_simps(1)] prod.case) simp
  with read_units_append[OF assms(2), of "[nl]" Map.empty] show ?thesis by simp
qed

text \<open>A reader for another configuration sees nothing.\<close>

lemma load_state_other:
  assumes "word_ok config" "config' \<noteq> config"
  shows "load_state (Some (state_text config units)) config' = Map.empty"
proof -
  have w: "word_ok ''dcstate''" "word_ok ''1''" by (simp_all add: word_ok_def is_space_def)
  have t: "state_text config units = ''dcstate'' @ CHR '' '' # ''1'' @ CHR '' '' # config @ nl # concat (map unit_lines (filter saved units))"
    by (simp add: state_text_def)
  show ?thesis
    unfolding t load_state_def option.case Let_def
    by (simp only: read_word_append[OF w(1) space_simps(2)] read_word_space[OF space_simps(2)] read_word_append[OF w(2) space_simps(2)]
      read_word_append[OF assms(1) space_simps(1)] prod.case) (use assms(2) in simp)
qed

lemma fold_upd_map_of:
  assumes "distinct (map k us)"
  shows "fold (\<lambda>u m. m(k u \<mapsto> v u)) us m = m ++ map_of (map (\<lambda>u. (k u, v u)) us)"
  using assms
proof (induction us arbitrary: m)
  case (Cons u us)
  have "k u \<notin> dom (map_of (map (\<lambda>u. (k u, v u)) us))"
    using Cons.prems by (auto simp: dom_map_of_conv_image_fst image_image)
  then have "m(k u \<mapsto> v u) ++ map_of (map (\<lambda>u. (k u, v u)) us) = m ++ map_of (map (\<lambda>u. (k u, v u)) (u # us))"
    by (simp add: map_add_upd_left)
  with Cons show ?case by (simp only: fold_Cons comp_apply list.map distinct.simps)
qed simp

end
