(* ===== verification/Dc_Manifest.thy ===== *)
theory Dc_Manifest
  imports Dc_Util
begin

text \<open>
  \<open>src/manifest.cpp\<close>: reading a DCBUILD file. The file system is reached through \<open>glob(3)\<close>,
  which is the parameter \<open>glob\<close>: the paths a pattern expands to, in the order the call returns
  them, none when it fails. Exceptions are values: \<open>Inl\<close> of the message.
\<close>

section \<open>The code\<close>

record target =
  is_lib :: bool
  tname :: string
  sources :: "string list"
  libs :: "string list"

record manifest =
  cc :: string
  cxx :: string
  cflags :: "string list"
  ldflags :: "string list"
  targets :: "target list"

definition empty_manifest :: manifest where
  "empty_manifest = \<lparr>cc = ''gcc'', cxx = ''g++'', cflags = [], ldflags = [], targets = []\<rparr>"

definition is_glob_char :: "char \<Rightarrow> bool" where
  "is_glob_char c \<longleftrightarrow> c \<in> set ''*?[''"

definition at_line :: "nat \<Rightarrow> string \<Rightarrow> string" where
  "at_line line msg = ''DCBUILD:'' @ to_string (int line) @ '': '' @ msg"

definition expand :: "(string \<Rightarrow> string list) \<Rightarrow> string \<Rightarrow> string \<Rightarrow> nat \<Rightarrow> string + string list" where
  "expand glob root pattern line =
     (if find_if is_glob_char pattern 0 = None then Inr [pattern]
      else let full = root @ ''/'' @ pattern;
               out = map (drop (length root + 1)) (glob full)
           in if out = [] then Inl (at_line line (CHR 0x27 # pattern @ CHR 0x27 # '' matches nothing'')) else Inr out)"

text \<open>The words after the target's name: sources up to a colon, libraries after it.\<close>

fun read_items ::
    "(string \<Rightarrow> string list) \<Rightarrow> string \<Rightarrow> nat \<Rightarrow> string list \<Rightarrow> bool \<Rightarrow> target \<Rightarrow> string + target" where
  "read_items glob root line [] after_colon t = Inr t"
| "read_items glob root line (w # ws) after_colon t =
     (if w = '':'' then
        (if is_lib t then Inl (at_line line ''libraries can't depend on libraries here'')
         else read_items glob root line ws True t)
      else if after_colon then read_items glob root line ws True (t\<lparr>libs := libs t @ [w]\<rparr>)
      else case expand glob root w line of
             Inl e \<Rightarrow> Inl e
           | Inr ss \<Rightarrow> read_items glob root line ws False (t\<lparr>sources := sources t @ ss\<rparr>))"

definition read_target ::
    "(string \<Rightarrow> string list) \<Rightarrow> string \<Rightarrow> nat \<Rightarrow> string list \<Rightarrow> manifest \<times> string set \<Rightarrow> string + manifest \<times> string set" where
  "read_target glob root line w mn =
     (let (m, names) = mn; d = w ! 0 in
      if length w < 3 then Inl (at_line line (d @ '' needs a name and at least one source''))
      else let t = \<lparr>is_lib = (d = ''lib''), tname = w ! 1, sources = [], libs = []\<rparr> in
           if tname t \<in> names then Inl (at_line line (''duplicate target '' @ CHR 0x27 # tname t @ [CHR 0x27]))
           else case read_items glob root line (drop 2 w) False t of
                  Inl e \<Rightarrow> Inl e
                | Inr t' \<Rightarrow>
                    if sources t' = [] then Inl (at_line line (''target '' @ CHR 0x27 # tname t' @ CHR 0x27 # '' has no sources''))
                    else Inr (m\<lparr>targets := targets m @ [t']\<rparr>, insert (tname t) names))"

definition strip_comment :: "string \<Rightarrow> string" where
  "strip_comment raw = (case find_if (\<lambda>c. c = CHR ''#'') raw 0 of None \<Rightarrow> raw | Some h \<Rightarrow> substr raw 0 h)"

definition read_line ::
    "(string \<Rightarrow> string list) \<Rightarrow> string \<Rightarrow> nat \<Rightarrow> string \<Rightarrow> manifest \<times> string set \<Rightarrow> string + manifest \<times> string set" where
  "read_line glob root line raw mn =
     (let w = split_ws (strip_comment raw); (m, names) = mn in
      if w = [] then Inr mn
      else let d = w ! 0 in
        if d = ''cc'' \<or> d = ''cxx'' then
          (if length w \<noteq> 2 then Inl (at_line line (d @ '' takes one argument''))
           else Inr (if d = ''cc'' then m\<lparr>cc := w ! 1\<rparr> else m\<lparr>cxx := w ! 1\<rparr>, names))
        else if d = ''cflags'' then Inr (m\<lparr>cflags := cflags m @ drop 1 w\<rparr>, names)
        else if d = ''ldflags'' then Inr (m\<lparr>ldflags := ldflags m @ drop 1 w\<rparr>, names)
        else if d = ''lib'' \<or> d = ''bin'' then read_target glob root line w mn
        else Inl (at_line line (''unknown directive '' @ CHR 0x27 # d @ [CHR 0x27])))"

fun read_lines ::
    "(string \<Rightarrow> string list) \<Rightarrow> string \<Rightarrow> nat \<Rightarrow> string list \<Rightarrow> manifest \<times> string set \<Rightarrow> string + manifest \<times> string set" where
  "read_lines glob root line [] mn = Inr mn"
| "read_lines glob root line (raw # rest) mn =
     (case read_line glob root (line + 1) raw mn of
        Inl e \<Rightarrow> Inl e
      | Inr mn' \<Rightarrow> read_lines glob root (line + 1) rest mn')"

definition unknown_lib :: "target list \<Rightarrow> target \<times> string \<Rightarrow> bool" where
  "unknown_lib ts use \<longleftrightarrow> \<not> list_ex (\<lambda>u. is_lib u \<and> tname u = snd use) ts"

definition parse_manifest :: "(string \<Rightarrow> string list) \<Rightarrow> string \<Rightarrow> string \<Rightarrow> string + manifest" where
  "parse_manifest glob text root =
     (case read_lines glob root 0 (lines_of text) (empty_manifest, {}) of
        Inl e \<Rightarrow> Inl e
      | Inr (m, names) \<Rightarrow>
          (case filter (unknown_lib (targets m)) (concat (map (\<lambda>t. map (Pair t) (libs t)) (targets m))) of
             [] \<Rightarrow> Inr m
           | (t, l) # _ \<Rightarrow> Inl (''DCBUILD: bin '' @ CHR 0x27 # tname t @ CHR 0x27 # '' links unknown lib '' @ CHR 0x27 # l @ [CHR 0x27])))"

definition load_manifest :: "(string \<Rightarrow> string list) \<Rightarrow> fs \<Rightarrow> string \<Rightarrow> string + manifest" where
  "load_manifest glob fs root =
     (case fs (root @ ''/DCBUILD'') of
        None \<Rightarrow> Inl (''no DCBUILD in '' @ root)
      | Some text \<Rightarrow> parse_manifest glob text root)"

section \<open>What a manifest is\<close>

definition target_ok :: "target \<Rightarrow> bool" where
  "target_ok t \<longleftrightarrow>
     tname t \<noteq> [] \<and> (\<forall>c\<in>set (tname t). \<not> is_space c \<and> c \<noteq> CHR ''#'') \<and>
     sources t \<noteq> [] \<and> (is_lib t \<longrightarrow> libs t = [])"

definition manifest_ok :: "manifest \<Rightarrow> bool" where
  "manifest_ok m \<longleftrightarrow>
     distinct (map tname (targets m)) \<and> (\<forall>t\<in>set (targets m). target_ok t) \<and>
     (\<forall>t\<in>set (targets m). \<forall>l\<in>set (libs t). \<exists>u\<in>set (targets m). is_lib u \<and> tname u = l)"

definition lines_ok :: "manifest \<times> string set \<Rightarrow> bool" where
  "lines_ok mn \<longleftrightarrow>
     snd mn = set (map tname (targets (fst mn))) \<and> distinct (map tname (targets (fst mn))) \<and>
     (\<forall>t\<in>set (targets (fst mn)). target_ok t)"

lemma read_items_Inr:
  "read_items glob root line ws ac t = Inr t' \<Longrightarrow>
   tname t' = tname t \<and> is_lib t' = is_lib t \<and> (is_lib t \<longrightarrow> \<not> ac \<longrightarrow> libs t' = libs t) \<and>
   (\<exists>more. libs t' = libs t @ more)"
proof (induction glob root line ws ac t rule: read_items.induct)
  case (2 glob root line w ws ac t)
  then show ?case by (fastforce split: if_splits sum.splits)
qed simp

lemma strip_comment_no_hash: "c \<in> set (strip_comment raw) \<Longrightarrow> c \<noteq> CHR ''#''"
proof (cases "find_if (\<lambda>c. c = CHR ''#'') raw 0")
  case None
  assume "c \<in> set (strip_comment raw)"
  with None obtain i where "i < length raw" "raw ! i = c" by (auto simp: strip_comment_def in_set_conv_nth)
  with None show ?thesis by (auto simp: find_if_None)
next
  case (Some h)
  assume "c \<in> set (strip_comment raw)"
  with Some obtain i where "i < h" "raw ! i = c" by (auto simp: strip_comment_def substr_def in_set_conv_nth)
  with Some show ?thesis by (auto simp: find_if_Some)
qed

lemma split_ws_chars: "w \<in> set (split_ws s) \<Longrightarrow> set w \<subseteq> set s"
proof (induction s rule: split_ws.induct)
  case (1 s)
  let ?r = "dropWhile is_space s"
  show ?case
  proof (cases "?r = []")
    case True
    with 1 show ?thesis by (simp add: split_ws.simps[of s])
  next
    case False
    have sub: "set ?r \<subseteq> set s" by (meson set_dropWhileD subsetI)
    have "w = takeWhile (\<lambda>c. \<not> is_space c) ?r \<or> w \<in> set (split_ws (dropWhile (\<lambda>c. \<not> is_space c) ?r))"
      using 1(2) False unfolding split_ws.simps[of s] Let_def by (auto split: if_splits)
    then show ?thesis
    proof
      assume "w = takeWhile (\<lambda>c. \<not> is_space c) ?r"
      then show ?thesis using sub by (auto dest: set_takeWhileD)
    next
      assume "w \<in> set (split_ws (dropWhile (\<lambda>c. \<not> is_space c) ?r))"
      from 1(1)[OF refl False this] show ?thesis using sub by (meson set_dropWhileD subset_iff)
    qed
  qed
qed

lemma read_target_ok:
  assumes "read_target glob root line w mn = Inr mn'" "lines_ok mn"
    and "\<And>x. x \<in> set w \<Longrightarrow> x \<noteq> [] \<and> (\<forall>c\<in>set x. \<not> is_space c \<and> c \<noteq> CHR ''#'')"
  shows "lines_ok mn'"
proof -
  obtain m names where mn: "mn = (m, names)" by fastforce
  let ?t = "\<lparr>is_lib = (w ! 0 = ''lib''), tname = w ! 1, sources = [], libs = []\<rparr>"
  from assms(1) mn have len: "\<not> length w < 3" and new: "w ! 1 \<notin> names"
    by (auto simp: read_target_def Let_def split: if_splits)
  with assms(1) mn obtain t' where r: "read_items glob root line (drop 2 w) False ?t = Inr t'"
    and ne: "sources t' \<noteq> []" and mn': "mn' = (m\<lparr>targets := targets m @ [t']\<rparr>, insert (w ! 1) names)"
    by (auto simp: read_target_def Let_def split: if_splits sum.splits)
  have "w ! 1 \<in> set w" using len by simp
  with assms(3) have "w ! 1 \<noteq> [] \<and> (\<forall>c\<in>set (w ! 1). \<not> is_space c \<and> c \<noteq> CHR ''#'')" by blast
  moreover from read_items_Inr[OF r] have "tname t' = w ! 1" "is_lib t' \<longrightarrow> libs t' = []" by auto
  ultimately have "target_ok t'" using ne by (simp add: target_ok_def)
  with assms(2) new mn mn' \<open>tname t' = w ! 1\<close> show ?thesis by (auto simp: lines_ok_def)
qed

lemma read_line_ok:
  assumes "read_line glob root line raw mn = Inr mn'" "lines_ok mn"
  shows "lines_ok mn'"
proof (cases "\<exists>d. split_ws (strip_comment raw) ! 0 = d \<and> split_ws (strip_comment raw) \<noteq> [] \<and> (d = ''lib'' \<or> d = ''bin'')")
  case True
  then have "read_target glob root line (split_ws (strip_comment raw)) mn = Inr mn'"
    using assms(1) by (auto simp: read_line_def Let_def split: prod.splits)
  moreover have "x \<noteq> [] \<and> (\<forall>c\<in>set x. \<not> is_space c \<and> c \<noteq> CHR ''#'')"
    if "x \<in> set (split_ws (strip_comment raw))" for x
    using split_ws_words[OF that] split_ws_chars[OF that] strip_comment_no_hash by blast
  ultimately show ?thesis by (rule read_target_ok[OF _ assms(2)])
next
  case False
  then show ?thesis
    using assms by (auto simp: read_line_def lines_ok_def Let_def split: prod.splits if_splits)
qed

lemma read_lines_ok:
  "read_lines glob root line ls mn = Inr mn' \<Longrightarrow> lines_ok mn \<Longrightarrow> lines_ok mn'"
  by (induction glob root line ls mn rule: read_lines.induct) (auto dest: read_line_ok split: sum.splits)

lemma parse_manifest_ok:
  assumes "parse_manifest glob text root = Inr m"
  shows "manifest_ok m"
proof -
  from assms obtain names where r: "read_lines glob root 0 (lines_of text) (empty_manifest, {}) = Inr (m, names)"
    and f: "filter (unknown_lib (targets m)) (concat (map (\<lambda>t. map (Pair t) (libs t)) (targets m))) = []"
    by (auto simp: parse_manifest_def split: sum.splits list.splits prod.splits)
  have "lines_ok (empty_manifest, {})" by (simp add: lines_ok_def empty_manifest_def)
  from read_lines_ok[OF r this] have "distinct (map tname (targets m))" "\<forall>t\<in>set (targets m). target_ok t"
    by (auto simp: lines_ok_def)
  moreover have "\<exists>u\<in>set (targets m). is_lib u \<and> tname u = l" if "t \<in> set (targets m)" "l \<in> set (libs t)" for t l
  proof -
    have "(t, l) \<in> set (concat (map (\<lambda>t. map (Pair t) (libs t)) (targets m)))" using that by auto
    with f have "\<not> unknown_lib (targets m) (t, l)" by (auto simp: filter_empty_conv)
    then show ?thesis by (auto simp: unknown_lib_def list_ex_iff)
  qed
  ultimately show ?thesis by (simp add: manifest_ok_def)
qed

end
