(* ===== verification/Dc_Client.thy ===== *)
theory Dc_Client
  imports Dc_Worker Dc_State Dc_Manifest
begin

text \<open>
  The parts of the client's build (\<open>src/dcc.cpp:137-310\<close>): one unit per source file, their keys, what
  has to be uploaded and in which batches, the graph of compile, archive and link tasks, and the counts
  of the report. The loops over threads work on separate units and are maps. The state of the loops is
  kept as the code keeps it; \<open>std::map\<close>'s \<open>[]\<close> on a missing name gives 0. The lemmas show that the
  graph of a manifest that parses is accepted, unless a program names a library twice.
\<close>

section \<open>Units\<close>

definition lang_of :: "string \<Rightarrow> string" where
  "lang_of src =
     (let ext = (case rfind_if (\<lambda>c. c = CHR ''.'') src of None \<Rightarrow> [] | Some d \<Rightarrow> drop (d + 1) src)
      in if ext = ''cc'' \<or> ext = ''cpp'' \<or> ext = ''cxx'' \<or> ext = ''C'' then ''c++'' else ''c'')"

definition unit_for :: "manifest \<Rightarrow> string \<Rightarrow> string \<Rightarrow> tu" where
  "unit_for m tc s =
     (let lng = lang_of s in new_tu s (make_config (if lng = ''c'' then cc m else cxx m) lng tc (cflags m)))"

fun add_units :: "manifest \<Rightarrow> string \<Rightarrow> string list \<Rightarrow> tu list \<times> (string \<rightharpoonup> nat) \<Rightarrow> tu list \<times> (string \<rightharpoonup> nat)" where
  "add_units m tc [] st = st"
| "add_units m tc (s # ss) (us, ix) =
     (if ix s \<noteq> None then add_units m tc ss (us, ix)
      else add_units m tc ss (us @ [unit_for m tc s], ix(s \<mapsto> length us)))"

definition make_units :: "manifest \<Rightarrow> string \<Rightarrow> tu list \<times> (string \<rightharpoonup> nat)" where
  "make_units m tc = add_units m tc (concat (map sources (targets m))) ([], Map.empty)"

definition config_id :: "sha_fn \<Rightarrow> string \<Rightarrow> manifest \<Rightarrow> string" where
  "config_id sha tc m =
     substr (sha256_hex sha (tc @ [nl] @ cc m @ [nl] @ cxx m @ concat (map (\<lambda>f. nl # f) (cflags m)))) 0 16"

section \<open>Keys and uploads\<close>

definition prepare_unit :: "sha_fn \<Rightarrow> runner \<Rightarrow> stat_fn \<Rightarrow> string \<Rightarrow> (string \<rightharpoonup> tu) \<Rightarrow> tu \<Rightarrow> tu" where
  "prepare_unit sha run stat root old u =
     (case old (u_src u) of
        Some p \<Rightarrow> if still_valid stat root p
                   then u\<lparr>u_key := u_key p, u_digest := u_digest p, u_cost := u_cost p, u_deps := u_deps p\<rparr>
                   else run_preprocess sha run stat root u
      | None \<Rightarrow> run_preprocess sha run stat root u)"

text \<open>The units whose result is not cached, preprocessed now if only the key was reused.\<close>

definition need_unit :: "string list \<Rightarrow> tu \<Rightarrow> bool" where
  "need_unit cached u \<longleftrightarrow> u_key u \<notin> set cached"

definition refresh :: "sha_fn \<Rightarrow> runner \<Rightarrow> stat_fn \<Rightarrow> string \<Rightarrow> string list \<Rightarrow> tu \<Rightarrow> tu" where
  "refresh sha run stat root cached u =
     (if need_unit cached u \<and> \<not> u_fresh u then run_preprocess sha run stat root u else u)"

definition batch_limit :: int where
  "batch_limit = 32 * 2 ^ 20"

text \<open>The batches sent, in order: the batch being filled and its size, the digests still to send.\<close>

fun batches_from :: "tu list \<Rightarrow> string set \<Rightarrow> (string \<times> string) list \<Rightarrow> int \<Rightarrow> (string \<times> string) list list" where
  "batches_from [] send batch n = (if batch = [] then [] else [batch])"
| "batches_from (u # us) send batch n =
     (if u_digest u \<notin> send then batches_from us send batch n
      else let batch' = batch @ [(u_digest u, u_text u)]; n' = n + int (length (u_text u))
           in if n' > batch_limit then batch' # batches_from us (send - {u_digest u}) [] 0
              else batches_from us (send - {u_digest u}) batch' n')"

definition batches :: "tu list \<Rightarrow> string list \<Rightarrow> (string \<times> string) list list" where
  "batches us missing = batches_from us (set missing) [] 0"

section \<open>The graph\<close>

record graph_state =
  gs_tasks :: "task_spec list"
  gs_of_key :: "string \<rightharpoonup> nat"
  gs_unit_task :: "nat list"

definition compile_spec :: "nat \<Rightarrow> tu \<Rightarrow> task_spec" where
  "compile_spec i u =
     \<lparr>sp_id = int i, sp_kind = 0, sp_name = ''obj/'' @ u_src u @ ''.o'', sp_deps = [], sp_key = u_key u, sp_input = u_digest u,
      sp_args = [driver (u_cfg u), ''-x'', if lang (u_cfg u) = ''c'' then ''cpp-output'' else ''c++-cpp-output''] @ cc_flags (u_cfg u),
      sp_cost = u_cost u\<rparr>"

fun compile_tasks :: "tu list \<Rightarrow> graph_state \<Rightarrow> graph_state" where
  "compile_tasks [] g = g"
| "compile_tasks (u # us) g =
     (case gs_of_key g (u_key u) of
        Some i \<Rightarrow> compile_tasks us (g\<lparr>gs_unit_task := gs_unit_task g @ [i]\<rparr>)
      | None \<Rightarrow> let i = length (gs_tasks g)
                in compile_tasks us \<lparr>gs_tasks = gs_tasks g @ [compile_spec i u], gs_of_key = (gs_of_key g)(u_key u \<mapsto> i),
                     gs_unit_task = gs_unit_task g @ [i]\<rparr>)"

text \<open>The tasks of a target's sources, each once.\<close>

definition task_of :: "(string \<rightharpoonup> nat) \<Rightarrow> nat list \<Rightarrow> string \<Rightarrow> nat" where
  "task_of ix ut s = ut ! (case ix s of None \<Rightarrow> 0 | Some k \<Rightarrow> k)"

fun source_deps :: "(string \<rightharpoonup> nat) \<Rightarrow> nat list \<Rightarrow> string list \<Rightarrow> nat set \<Rightarrow> nat list" where
  "source_deps ix ut [] seen = []"
| "source_deps ix ut (s # ss) seen =
     (let t = task_of ix ut s
      in if t \<in> seen then source_deps ix ut ss seen else t # source_deps ix ut ss (insert t seen))"

definition archive_spec :: "(string \<rightharpoonup> nat) \<Rightarrow> nat list \<Rightarrow> nat \<Rightarrow> target \<Rightarrow> task_spec" where
  "archive_spec ix ut i tg =
     \<lparr>sp_id = int i, sp_kind = 1, sp_name = ''lib'' @ tname tg @ ''.a'', sp_deps = map int (source_deps ix ut (sources tg) {}),
      sp_key = [], sp_input = [], sp_args = [], sp_cost = 1000\<rparr>"

fun archive_tasks :: "(string \<rightharpoonup> nat) \<Rightarrow> nat list \<Rightarrow> target list \<Rightarrow> task_spec list \<times> (string \<rightharpoonup> nat) \<Rightarrow> task_spec list \<times> (string \<rightharpoonup> nat)" where
  "archive_tasks ix ut [] st = st"
| "archive_tasks ix ut (tg # tgs) (ts, lib) =
     (if \<not> is_lib tg then archive_tasks ix ut tgs (ts, lib)
      else archive_tasks ix ut tgs (ts @ [archive_spec ix ut (length ts) tg], lib(tname tg \<mapsto> length ts)))"

definition lib_index :: "(string \<rightharpoonup> nat) \<Rightarrow> string \<Rightarrow> nat" where
  "lib_index lib l = (case lib l of None \<Rightarrow> 0 | Some k \<Rightarrow> k)"

definition needs_cxx :: "target list \<Rightarrow> target \<Rightarrow> bool" where
  "needs_cxx tgs tg \<longleftrightarrow>
     list_ex (\<lambda>s. lang_of s = ''c++'') (sources tg) \<or>
     list_ex (\<lambda>l. list_ex (\<lambda>lt. is_lib lt \<and> tname lt = l \<and> list_ex (\<lambda>s. lang_of s = ''c++'') (sources lt)) tgs) (libs tg)"

definition link_spec :: "manifest \<Rightarrow> (string \<rightharpoonup> nat) \<Rightarrow> nat list \<Rightarrow> (string \<rightharpoonup> nat) \<Rightarrow> nat \<Rightarrow> target \<Rightarrow> task_spec" where
  "link_spec m ix ut lib i tg =
     \<lparr>sp_id = int i, sp_kind = 2, sp_name = tname tg,
      sp_deps = map int (source_deps ix ut (sources tg) {}) @ map (\<lambda>l. int (lib_index lib l)) (libs tg),
      sp_key = [], sp_input = [], sp_args = (if needs_cxx (targets m) tg then cxx m else cc m) # ldflags m, sp_cost = 5000\<rparr>"

fun link_tasks :: "manifest \<Rightarrow> (string \<rightharpoonup> nat) \<Rightarrow> nat list \<Rightarrow> (string \<rightharpoonup> nat) \<Rightarrow> target list \<Rightarrow> task_spec list \<Rightarrow> task_spec list" where
  "link_tasks m ix ut lib [] ts = ts"
| "link_tasks m ix ut lib (tg # tgs) ts =
     (if is_lib tg then link_tasks m ix ut lib tgs ts
      else link_tasks m ix ut lib tgs (ts @ [link_spec m ix ut lib (length ts) tg]))"

definition spec_tasks :: "manifest \<Rightarrow> (string \<rightharpoonup> nat) \<Rightarrow> tu list \<Rightarrow> task_spec list" where
  "spec_tasks m ix us =
     (let g = compile_tasks us \<lparr>gs_tasks = [], gs_of_key = Map.empty, gs_unit_task = []\<rparr>;
          (ts, lib) = archive_tasks ix (gs_unit_task g) (targets m) (gs_tasks g, Map.empty)
      in link_tasks m ix (gs_unit_task g) lib (targets m) ts)"

definition build_request :: "manifest \<Rightarrow> string \<Rightarrow> int \<Rightarrow> (string \<rightharpoonup> nat) \<Rightarrow> tu list \<Rightarrow> build_spec" where
  "build_request m tc parts ix us = \<lparr>bs_toolchain = tc, bs_tasks = spec_tasks m ix us, bs_partitions = parts\<rparr>"

text \<open>The files under \<open>out/\<close>: the archives and the programs, by task id.\<close>

definition output_files :: "task_spec list \<Rightarrow> (nat \<times> string) list" where
  "output_files ts = map (\<lambda>t. (nat (sp_id t), sp_name t)) (filter (\<lambda>t. sp_kind t \<noteq> 0) ts)"

section \<open>The counts of the report\<close>

record counts =
  n_cached :: nat
  n_compiled :: nat
  n_archived :: nat
  n_linked :: nat

fun count_report :: "task_spec list \<Rightarrow> task_status list \<Rightarrow> counts \<Rightarrow> counts" where
  "count_report ts [] c = c"
| "count_report ts (x # xs) c =
     (let c1 = (if ts_state x = TCached then c\<lparr>n_cached := n_cached c + 1\<rparr> else c);
          k = sp_kind (ts ! ts_id x);
          c2 = (if ts_state x \<noteq> TDone then c1
                else if k = 0 then c1\<lparr>n_compiled := n_compiled c1 + 1\<rparr>
                else if k = 1 then c1\<lparr>n_archived := n_archived c1 + 1\<rparr>
                else c1\<lparr>n_linked := n_linked c1 + 1\<rparr>)
      in count_report ts xs c2)"

section \<open>The units\<close>

definition index_ok :: "tu list \<times> (string \<rightharpoonup> nat) \<Rightarrow> bool" where
  "index_ok st \<longleftrightarrow> (\<forall>s k. snd st s = Some k \<longleftrightarrow> k < length (fst st) \<and> u_src (fst st ! k) = s)"

lemma unit_for_src [simp]: "u_src (unit_for m tc s) = s"
  by (simp add: unit_for_def new_tu_def Let_def)

lemma add_units_ok:
  assumes "add_units m tc ss st = st'" "index_ok st"
  shows "index_ok st' \<and> (\<forall>s\<in>set ss. snd st' s \<noteq> None) \<and> (\<forall>s. snd st s \<noteq> None \<longrightarrow> snd st' s \<noteq> None)"
  using assms
proof (induction m tc ss st rule: add_units.induct)
  case (1 m tc st)
  then show ?case by simp
next
  case (2 m tc s ss us ix)
  show ?case
  proof (cases "ix s")
    case None
    have "index_ok (us @ [unit_for m tc s], ix(s \<mapsto> length us))"
    proof -
      have ok: "ix x = Some k \<longleftrightarrow> k < length us \<and> u_src (us ! k) = x" for x k using 2(4) by (simp add: index_ok_def)
      then have "\<not> (k < length us \<and> u_src (us ! k) = s)" for k using None by (metis option.distinct(1))
      with ok show ?thesis by (auto simp: index_ok_def nth_append less_Suc_eq)
    qed
    with 2(2) 2(3) None show ?thesis by fastforce
  next
    case (Some k)
    with 2(1,3,4) show ?thesis by auto
  qed
qed

lemma make_units_ok:
  assumes "make_units m tc = (us, ix)" "t \<in> set (targets m)" "s \<in> set (sources t)"
  shows "\<exists>k<length us. ix s = Some k \<and> u_src (us ! k) = s"
proof -
  have "index_ok ([], Map.empty)" by (simp add: index_ok_def)
  with add_units_ok[OF assms(1)[unfolded make_units_def]] assms(2,3) have "index_ok (us, ix)" "ix s \<noteq> None" by auto
  then show ?thesis by (auto simp: index_ok_def)
qed

section \<open>The graph grows\<close>

text \<open>Ids count up from zero and every dependency comes before its task.\<close>

definition grows :: "task_spec list \<Rightarrow> bool" where
  "grows ts \<longleftrightarrow> (\<forall>i<length ts. sp_id (ts ! i) = int i \<and> (\<forall>d\<in>set (sp_deps (ts ! i)). 0 \<le> d \<and> d < int i))"

lemma grows_snoc:
  assumes "grows ts" "sp_id t = int (length ts)" "\<forall>d\<in>set (sp_deps t). 0 \<le> d \<and> d < int (length ts)"
  shows "grows (ts @ [t])"
  using assms by (auto simp: grows_def nth_append less_Suc_eq)

lemma grows_graph:
  assumes "grows ts"
  shows "valid_graph (graph_of ts)" "acyclic (dep_rel (graph_of ts))"
proof -
  show "valid_graph (graph_of ts)"
    using assms by (force simp: grows_def valid_graph_def graph_of_def)
  have "dep_rel (graph_of ts) \<subseteq> less_than"
  proof
    fix e assume "e \<in> dep_rel (graph_of ts)"
    then obtain d i where e: "e = (nat d, i)" "i < length ts" "d \<in> set (sp_deps (ts ! i))"
      by (auto simp: dep_rel_def deps_of_def graph_of_def)
    with assms have "0 \<le> d \<and> d < int i" by (auto simp: grows_def)
    with e(1) show "e \<in> less_than" by (simp add: nat_less_iff)
  qed
  then show "acyclic (dep_rel (graph_of ts))" by (rule acyclic_subset[rotated]) (simp add: wf_acyclic)
qed

definition compile_state :: "tu list \<Rightarrow> graph_state \<Rightarrow> bool" where
  "compile_state us g \<longleftrightarrow>
     grows (gs_tasks g) \<and> length (gs_unit_task g) = length us \<and>
     (\<forall>k i. gs_of_key g k = Some i \<longleftrightarrow> i < length (gs_tasks g) \<and> sp_key (gs_tasks g ! i) = k) \<and>
     (\<forall>j<length us. gs_unit_task g ! j < length (gs_tasks g) \<and> sp_key (gs_tasks g ! (gs_unit_task g ! j)) = u_key (us ! j)) \<and>
     (\<forall>t\<in>set (gs_tasks g). \<exists>u\<in>set us. \<exists>i. t = compile_spec i u)"

lemma compile_spec_simps [simp]:
  "sp_id (compile_spec i u) = int i" "sp_kind (compile_spec i u) = 0" "sp_deps (compile_spec i u) = []"
  "sp_key (compile_spec i u) = u_key u" "sp_input (compile_spec i u) = u_digest u"
  by (simp_all add: compile_spec_def)

lemma compile_tasks_ok:
  assumes "compile_state seen g"
  shows "compile_state (seen @ us) (compile_tasks us g)"
  using assms
proof (induction us arbitrary: seen g)
  case (Cons u us)
  define g1 where "g1 = (case gs_of_key g (u_key u) of Some i \<Rightarrow> g\<lparr>gs_unit_task := gs_unit_task g @ [i]\<rparr>
    | None \<Rightarrow> \<lparr>gs_tasks = gs_tasks g @ [compile_spec (length (gs_tasks g)) u], gs_of_key = (gs_of_key g)(u_key u \<mapsto> length (gs_tasks g)),
                gs_unit_task = gs_unit_task g @ [length (gs_tasks g)]\<rparr>)"
  have "compile_state (seen @ [u]) g1"
  proof (cases "gs_of_key g (u_key u)")
    case (Some i)
    then have "i < length (gs_tasks g)" "sp_key (gs_tasks g ! i) = u_key u" using Cons.prems by (auto simp: compile_state_def)
    moreover have "g1 = g\<lparr>gs_unit_task := gs_unit_task g @ [i]\<rparr>" by (simp add: g1_def Some)
    ultimately show ?thesis
      using Cons.prems unfolding compile_state_def by (auto simp: nth_append less_Suc_eq)
  next
    case None
    note c = Cons.prems[unfolded compile_state_def]
    have g1: "g1 = \<lparr>gs_tasks = gs_tasks g @ [compile_spec (length (gs_tasks g)) u], gs_of_key = (gs_of_key g)(u_key u \<mapsto> length (gs_tasks g)),
                gs_unit_task = gs_unit_task g @ [length (gs_tasks g)]\<rparr>" by (simp add: g1_def None)
    have new: "\<not> (i < length (gs_tasks g) \<and> sp_key (gs_tasks g ! i) = u_key u)" for i
      using c None by (metis option.distinct(1))
    have "grows (gs_tasks g1)" using c by (auto simp: g1 intro: grows_snoc)
    moreover have "gs_of_key g1 k = Some i \<longleftrightarrow> i < length (gs_tasks g1) \<and> sp_key (gs_tasks g1 ! i) = k" for k i
      using c new by (auto simp: g1 nth_append less_Suc_eq)
    moreover have "\<forall>j<length (seen @ [u]). gs_unit_task g1 ! j < length (gs_tasks g1) \<and>
        sp_key (gs_tasks g1 ! (gs_unit_task g1 ! j)) = u_key ((seen @ [u]) ! j)"
      using c by (auto simp: g1 nth_append less_Suc_eq)
    moreover have "\<forall>t\<in>set (gs_tasks g1). \<exists>v\<in>set (seen @ [u]). \<exists>i. t = compile_spec i v"
      using c by (auto simp: g1)
    ultimately show ?thesis using c by (simp add: compile_state_def g1)
  qed
  from Cons.IH[OF this] show ?case by (cases "gs_of_key g (u_key u)") (simp_all add: g1_def Let_def)
qed simp

lemma source_deps_set: "set (source_deps ix ut ss seen) = task_of ix ut ` set ss - seen"
  by (induction ix ut ss seen rule: source_deps.induct) (auto simp: Let_def)

lemma source_deps_distinct: "distinct (source_deps ix ut ss seen)"
  by (induction ix ut ss seen rule: source_deps.induct) (auto simp: Let_def source_deps_set)

section \<open>The request\<close>

lemma archive_tasks_eq:
  "archive_tasks ix ut tgs (ts, lib) =
     (let L = filter is_lib tgs; is = [length ts..<length ts + length L]
      in (ts @ map2 (archive_spec ix ut) is L, lib(map tname L [\<mapsto>] is)))"
proof (induction ix ut tgs "(ts, lib)" arbitrary: ts lib rule: archive_tasks.induct)
  case (2 ix ut tg tgs ts lib)
  then show ?case by (auto simp: Let_def upt_conv_Cons simp del: upt_Suc)
qed simp

lemma link_tasks_eq:
  "link_tasks m ix ut lib tgs ts =
     (let B = filter (\<lambda>t. \<not> is_lib t) tgs in ts @ map2 (link_spec m ix ut lib) [length ts..<length ts + length B] B)"
proof (induction m ix ut lib tgs ts rule: link_tasks.induct)
  case (2 m ix ut lib tg tgs ts)
  then show ?case by (auto simp: Let_def upt_conv_Cons simp del: upt_Suc)
qed simp

definition compiled :: "tu list \<Rightarrow> graph_state" where
  "compiled us = compile_tasks us \<lparr>gs_tasks = [], gs_of_key = Map.empty, gs_unit_task = []\<rparr>"

definition lib_names :: "manifest \<Rightarrow> nat \<Rightarrow> string \<rightharpoonup> nat" where
  "lib_names m n = Map.empty(map tname (filter is_lib (targets m)) [\<mapsto>] [n..<n + length (filter is_lib (targets m))])"

lemma spec_tasks_eq:
  "spec_tasks m ix us =
     (let g = compiled us; n = length (gs_tasks g); L = filter is_lib (targets m); B = filter (\<lambda>t. \<not> is_lib t) (targets m)
      in gs_tasks g @ map2 (archive_spec ix (gs_unit_task g)) [n..<n + length L] L @
         map2 (link_spec m ix (gs_unit_task g) (lib_names m n)) [n + length L..<n + length L + length B] B)"
  by (simp add: spec_tasks_def archive_tasks_eq link_tasks_eq compiled_def lib_names_def Let_def)

lemma compiled_ok: "compile_state us (compiled us)"
proof -
  have "compile_state [] \<lparr>gs_tasks = [], gs_of_key = Map.empty, gs_unit_task = []\<rparr>" by (simp add: compile_state_def grows_def)
  from compile_tasks_ok[OF this, of us] show ?thesis by (simp add: compiled_def)
qed

text \<open>The index covers the sources of the targets.\<close>

definition covers :: "manifest \<Rightarrow> (string \<rightharpoonup> nat) \<Rightarrow> tu list \<Rightarrow> bool" where
  "covers m ix us \<longleftrightarrow> (\<forall>t\<in>set (targets m). \<forall>s\<in>set (sources t). \<exists>k<length us. ix s = Some k \<and> u_src (us ! k) = s)"

lemma task_of_less:
  assumes "covers m ix us" "t \<in> set (targets m)" "s \<in> set (sources t)"
  shows "task_of ix (gs_unit_task (compiled us)) s < length (gs_tasks (compiled us))"
proof -
  obtain k where "k < length us" "ix s = Some k" using assms unfolding covers_def by blast
  with compiled_ok[of us] show ?thesis by (simp add: task_of_def compile_state_def)
qed

lemma source_deps_less:
  assumes "covers m ix us" "t \<in> set (targets m)" "d \<in> set (source_deps ix (gs_unit_task (compiled us)) (sources t) {})"
  shows "d < length (gs_tasks (compiled us))"
  using assms(3) task_of_less[OF assms(1,2)] by (auto simp: source_deps_set)

lemma lib_index_eq:
  assumes man: "manifest_ok m" and i: "i < length (filter is_lib (targets m))"
  shows "lib_index (lib_names m n) (tname (filter is_lib (targets m) ! i)) = n + i"
proof -
  let ?L = "filter is_lib (targets m)"
  have "distinct (map tname ?L)" using man by (simp add: manifest_ok_def distinct_map_filter)
  then have "lib_names m n (map tname ?L ! i) = Some ([n..<n + length ?L] ! i)"
    using i unfolding lib_names_def by (intro map_upds_nth) simp_all
  then show ?thesis using i by (simp add: lib_index_def)
qed

lemma lib_index_less:
  assumes man: "manifest_ok m" and t: "t \<in> set (targets m)" "l \<in> set (libs t)"
  shows "n \<le> lib_index (lib_names m n) l \<and> lib_index (lib_names m n) l < n + length (filter is_lib (targets m))"
proof -
  obtain u where "u \<in> set (targets m)" "is_lib u" "tname u = l" using man t unfolding manifest_ok_def by blast
  then obtain i where "i < length (filter is_lib (targets m))" "tname (filter is_lib (targets m) ! i) = l"
    using filter_index[of _ "targets m" is_lib] by blast
  with lib_index_eq[OF man, of i n] show ?thesis by simp
qed

lemma lib_index_inj:
  assumes man: "manifest_ok m" and t: "t \<in> set (targets m)"
  shows "inj_on (lib_index (lib_names m n)) (set (libs t))"
proof (rule inj_on_inverseI[where g = "\<lambda>i. tname (filter is_lib (targets m) ! (i - n))"])
  fix l assume "l \<in> set (libs t)"
  then obtain u where "u \<in> set (targets m)" "is_lib u" "tname u = l" using man t unfolding manifest_ok_def by blast
  then obtain i where "i < length (filter is_lib (targets m))" "tname (filter is_lib (targets m) ! i) = l"
    using filter_index[of _ "targets m" is_lib] by blast
  with lib_index_eq[OF man, of i n] show "tname (filter is_lib (targets m) ! (lib_index (lib_names m n) l - n)) = l" by auto
qed

lemma grows_append:
  assumes "grows ts" "length is = length xs" "is = [length ts..<length ts + length xs]"
    and "\<And>i x. x \<in> set xs \<Longrightarrow> sp_id (f i x) = int i"
    and "\<And>i x d. x \<in> set xs \<Longrightarrow> d \<in> set (sp_deps (f i x)) \<Longrightarrow> 0 \<le> d \<and> d < int (length ts)"
  shows "grows (ts @ map2 f is xs)"
proof -
  have "sp_id (map2 f is xs ! j) = int (length ts + j) \<and> (\<forall>d\<in>set (sp_deps (map2 f is xs ! j)). 0 \<le> d \<and> d < int (length ts + j))"
    if "j < length xs" for j
  proof -
    have "map2 f is xs ! j = f (length ts + j) (xs ! j)" using that assms(2,3) by simp
    moreover have "xs ! j \<in> set xs" using that by simp
    ultimately show ?thesis using assms(4,5) by fastforce
  qed
  note new = this
  show ?thesis unfolding grows_def
  proof (intro allI impI)
    fix i assume i: "i < length (ts @ map2 f is xs)"
    show "sp_id ((ts @ map2 f is xs) ! i) = int i \<and> (\<forall>d\<in>set (sp_deps ((ts @ map2 f is xs) ! i)). 0 \<le> d \<and> d < int i)"
    proof (cases "i < length ts")
      case True
      then show ?thesis using assms(1) by (simp add: nth_append grows_def)
    next
      case False
      then have "(ts @ map2 f is xs) ! i = map2 f is xs ! (i - length ts)" "length ts + (i - length ts) = i" by (simp_all add: nth_append)
      with new[of "i - length ts"] i False assms(2) show ?thesis by simp
    qed
  qed
qed

lemma set_map2_upt: "x \<in> set (map2 f [n..<n + length xs] xs) \<Longrightarrow> \<exists>i<length xs. x = f (n + i) (xs ! i)"
  by (force simp: in_set_conv_nth)

lemma map2_upt_mem: "i < length xs \<Longrightarrow> f (n + i) (xs ! i) \<in> set (map2 f [n..<n + length xs] xs)"
  using nth_mem[of i "map2 f [n..<n + length xs] xs"] by (simp del: set_map)

lemma archive_spec_simps [simp]:
  "sp_id (archive_spec ix ut i tg) = int i" "sp_kind (archive_spec ix ut i tg) = 1" "sp_name (archive_spec ix ut i tg) = ''lib'' @ tname tg @ ''.a''"
  "sp_deps (archive_spec ix ut i tg) = map int (source_deps ix ut (sources tg) {})"
  by (simp_all add: archive_spec_def)

lemma link_spec_simps [simp]:
  "sp_id (link_spec m ix ut lib i tg) = int i" "sp_kind (link_spec m ix ut lib i tg) = 2" "sp_name (link_spec m ix ut lib i tg) = tname tg"
  "sp_deps (link_spec m ix ut lib i tg) = map int (source_deps ix ut (sources tg) {}) @ map (\<lambda>l. int (lib_index lib l)) (libs tg)"
  by (simp_all add: link_spec_def)

lemma spec_tasks_grow:
  assumes cov: "covers m ix us" and man: "manifest_ok m"
  shows "grows (spec_tasks m ix us)"
proof -
  let ?g = "compiled us" and ?L = "filter is_lib (targets m)" and ?B = "filter (\<lambda>t. \<not> is_lib t) (targets m)"
  let ?n = "length (gs_tasks ?g)"
  let ?A = "map2 (archive_spec ix (gs_unit_task ?g)) [?n..<?n + length ?L] ?L"
  have g1: "grows (gs_tasks ?g @ ?A)"
  proof (rule grows_append)
    show "grows (gs_tasks ?g)" using compiled_ok by (simp add: compile_state_def)
    show "0 \<le> d \<and> d < int ?n" if "x \<in> set ?L" "d \<in> set (sp_deps (archive_spec ix (gs_unit_task ?g) i x))" for i x d
      using that source_deps_less[OF cov, of x] by auto
  qed simp_all
  have "grows ((gs_tasks ?g @ ?A) @ map2 (link_spec m ix (gs_unit_task ?g) (lib_names m ?n)) [?n + length ?L..<?n + length ?L + length ?B] ?B)"
  proof (rule grows_append[OF g1])
    show "0 \<le> d \<and> d < int (length (gs_tasks ?g @ ?A))"
      if x: "x \<in> set ?B" "d \<in> set (sp_deps (link_spec m ix (gs_unit_task ?g) (lib_names m ?n) i x))" for i x d
    proof -
      have t: "x \<in> set (targets m)" using x(1) by simp
      from x(2) consider s where "d = int s" "s \<in> set (source_deps ix (gs_unit_task ?g) (sources x) {})"
        | l where "d = int (lib_index (lib_names m ?n) l)" "l \<in> set (libs x)" by auto
      then show ?thesis
      proof cases
        case 1
        with source_deps_less[OF cov t] show ?thesis by fastforce
      next
        case 2
        with lib_index_less[OF man t, of l ?n] show ?thesis by simp
      qed
    qed
  qed (simp_all add: add.assoc)
  then show ?thesis by (simp add: spec_tasks_eq Let_def)
qed

lemma spec_tasks_cases:
  assumes "t \<in> set (spec_tasks m ix us)"
  obtains (compile) i u where "u \<in> set us" "t = compile_spec i u"
    | (archive) i tg where "tg \<in> set (targets m)" "is_lib tg" "t = archive_spec ix (gs_unit_task (compiled us)) i tg"
    | (link) i tg where "tg \<in> set (targets m)" "\<not> is_lib tg"
        "t = link_spec m ix (gs_unit_task (compiled us)) (lib_names m (length (gs_tasks (compiled us)))) i tg"
proof -
  let ?L = "filter is_lib (targets m)" and ?B = "filter (\<lambda>t. \<not> is_lib t) (targets m)"
  consider "t \<in> set (gs_tasks (compiled us))"
    | i where "i < length ?L" "t = archive_spec ix (gs_unit_task (compiled us)) (length (gs_tasks (compiled us)) + i) (?L ! i)"
    | i where "i < length ?B" "t = link_spec m ix (gs_unit_task (compiled us)) (lib_names m (length (gs_tasks (compiled us)))) (length (gs_tasks (compiled us)) + length ?L + i) (?B ! i)"
    using assms unfolding spec_tasks_eq Let_def set_append Un_iff by (metis set_map2_upt)
  then show thesis
  proof cases
    case 1
    with compiled_ok[of us] compile show thesis unfolding compile_state_def by blast
  next
    case (2 i)
    from filter_nth[OF this(1)] 2(2) archive[of "?L ! i"] show thesis by blast
  next
    case (3 i)
    from filter_nth[OF this(1)] 3(2) link[of "?B ! i"] show thesis by blast
  qed
qed

lemma spec_tasks_leaf: "leaf_compiles (spec_tasks m ix us)"
  unfolding leaf_compiles_def
proof (intro ballI impI)
  fix t assume "t \<in> set (spec_tasks m ix us)" "sp_kind t = 0"
  then show "sp_deps t = []" by (cases rule: spec_tasks_cases) auto
qed

lemma spec_tasks_good:
  assumes "\<forall>u\<in>set us. valid_hash (u_key u) \<and> valid_hash (u_digest u)"
  shows "find bad_compile (spec_tasks m ix us) = None"
  unfolding find_None_iff
proof
  assume "\<exists>t. t \<in> set (spec_tasks m ix us) \<and> bad_compile t"
  then obtain t where t: "t \<in> set (spec_tasks m ix us)" "bad_compile t" by blast
  from t(1) show False using t(2) assms by (cases rule: spec_tasks_cases) (auto simp: bad_compile_def)
qed

section \<open>When the coordinator takes it\<close>

lemma distinct_tagged:
  assumes "\<And>i x. x \<in> set (g i) \<Longrightarrow> tag x = i"
  shows "distinct (concat (map g [0..<n])) \<longleftrightarrow> (\<forall>i<n. distinct (g i))"
proof (induction n)
  case (Suc n)
  have "set (concat (map g [0..<n])) \<inter> set (g n) = {}" by (auto dest!: assms)
  with Suc show ?case by (auto simp: less_Suc_eq)
qed simp

lemma distinct_new_deps:
  "distinct (map dep_key (new_deps b ts)) \<longleftrightarrow> (\<forall>t\<in>set ts. distinct (map nat (sp_deps t)))"
proof -
  have one: "map dep_key (deps_of_spec b ts i) = map (\<lambda>d. (b, nat d, i)) (sp_deps (ts ! i))" for i
    by (rule nth_equalityI) (auto simp: deps_of_spec_def dep_key_def Let_def)
  have keys: "map dep_key (new_deps b ts) = concat (map (\<lambda>i. map (\<lambda>d. (b, nat d, i)) (sp_deps (ts ! i))) [0..<length ts])"
    by (simp add: new_deps_def map_concat one comp_def)
  have "distinct (map dep_key (new_deps b ts)) \<longleftrightarrow> (\<forall>i<length ts. distinct (map (\<lambda>d. (b, nat d, i)) (sp_deps (ts ! i))))"
    unfolding keys by (rule distinct_tagged[where tag = "\<lambda>x. snd (snd x)"]) auto
  also have "\<dots> \<longleftrightarrow> (\<forall>i<length ts. distinct (map nat (sp_deps (ts ! i))))" by (simp add: distinct_map inj_on_def)
  finally have "distinct (map dep_key (new_deps b ts)) \<longleftrightarrow> (\<forall>i<length ts. distinct (map nat (sp_deps (ts ! i))))" .
  then show ?thesis by (auto simp: all_set_conv_all_nth)
qed

lemma spec_tasks_distinct:
  assumes cov: "covers m ix us" and man: "manifest_ok m"
  shows "(\<forall>t\<in>set (spec_tasks m ix us). distinct (map nat (sp_deps t))) \<longleftrightarrow> (\<forall>tg\<in>set (targets m). distinct (libs tg))"
proof -
  let ?ut = "gs_unit_task (compiled us)" and ?n = "length (gs_tasks (compiled us))"
  have ds: "distinct (map nat (map int (source_deps ix ?ut ss {})))" for ss by (simp add: comp_def source_deps_distinct)
  have link: "distinct (map nat (sp_deps (link_spec m ix ?ut (lib_names m ?n) i tg))) \<longleftrightarrow> distinct (libs tg)" if tg: "tg \<in> set (targets m)" for i tg
  proof -
    have "distinct (map (lib_index (lib_names m ?n)) (libs tg)) \<longleftrightarrow> distinct (libs tg)"
      using lib_index_inj[OF man tg] by (auto simp: distinct_map)
    moreover have "set (source_deps ix ?ut (sources tg) {}) \<inter> lib_index (lib_names m ?n) ` set (libs tg) = {}"
      using source_deps_less[OF cov tg] lib_index_less[OF man tg, of _ ?n] by fastforce
    ultimately show ?thesis by (simp add: comp_def source_deps_distinct)
  qed
  show ?thesis
  proof
    assume all: "\<forall>t\<in>set (spec_tasks m ix us). distinct (map nat (sp_deps t))"
    show "\<forall>tg\<in>set (targets m). distinct (libs tg)"
    proof
      fix tg assume tg: "tg \<in> set (targets m)"
      show "distinct (libs tg)"
      proof (cases "is_lib tg")
        case True
        then show ?thesis using man tg by (auto simp: manifest_ok_def target_ok_def)
      next
        case False
        let ?B = "filter (\<lambda>t. \<not> is_lib t) (targets m)"
        from False tg obtain i where i: "i < length ?B" "?B ! i = tg" using filter_index[of tg "targets m" "\<lambda>t. \<not> is_lib t"] by blast
        then have "link_spec m ix ?ut (lib_names m ?n) (?n + length (filter is_lib (targets m)) + i) tg \<in> set (spec_tasks m ix us)"
          using map2_upt_mem[OF i(1), of "link_spec m ix ?ut (lib_names m ?n)" "?n + length (filter is_lib (targets m))"]
          unfolding spec_tasks_eq Let_def i(2) by simp
        with all link[OF tg] show ?thesis by blast
      qed
    qed
  next
    assume libs: "\<forall>tg\<in>set (targets m). distinct (libs tg)"
    show "\<forall>t\<in>set (spec_tasks m ix us). distinct (map nat (sp_deps t))"
    proof
      fix t assume "t \<in> set (spec_tasks m ix us)"
      then show "distinct (map nat (sp_deps t))" by (cases rule: spec_tasks_cases) (use libs link ds in auto)
    qed
  qed
qed

text \<open>The plan stops only at a compile task whose input is missing.\<close>

definition can_run :: "cas \<Rightarrow> (string \<rightharpoonup> string) \<Rightarrow> task_spec \<Rightarrow> bool" where
  "can_run cas hits t \<longleftrightarrow> sp_kind t = 0 \<longrightarrow> cas_has cas (sp_input t) \<or> sp_key t \<noteq> [] \<and> hits (sp_key t) \<noteq> None"

lemma plan_task_runs:
  assumes "can_run cas (pn_hits p) (ts ! i)"
  shows "\<exists>p'. plan_task sha cas db tc ts i p = (None, p') \<and> dom (pn_hits p) \<subseteq> dom (pn_hits p')"
  using assms by (auto simp: can_run_def plan_task_def Let_def split: list.split)

lemma plan_tasks_run:
  assumes "\<forall>i\<in>set is. can_run cas (pn_hits p) (ts ! i)"
  shows "\<exists>p'. plan_tasks sha cas db tc ts is p = (None, p')"
  using assms
proof (induction "is" arbitrary: p)
  case (Cons i "is")
  have "can_run cas (pn_hits p) (ts ! i)" using Cons.prems by simp
  from plan_task_runs[OF this] obtain p' where p: "plan_task sha cas db tc ts i p = (None, p')" "dom (pn_hits p) \<subseteq> dom (pn_hits p')" by blast
  have "\<forall>j\<in>set is. can_run cas (pn_hits p') (ts ! j)"
  proof
    fix j assume "j \<in> set is"
    then have "can_run cas (pn_hits p) (ts ! j)" using Cons.prems by simp
    with p(2) show "can_run cas (pn_hits p') (ts ! j)" unfolding can_run_def by blast
  qed
  from Cons.IH[OF this] p(1) show ?case by simp
qed simp

lemma submit_accepts:
  assumes cov: "covers m ix us" and man: "manifest_ok m" and good: "\<forall>u\<in>set us. valid_hash (u_key u) \<and> valid_hash (u_digest u)"
    and input: "\<forall>u\<in>set us. cas_has cas (u_digest u) \<or> u_key u \<in> c_key ` set (db_cache db)"
    and call: "submit_build sha cas (calm\<lparr>refuses := e\<rparr>) now (build_request m tc parts ix us) db = (st, rep, db')"
    and dup: "\<not> retryable e"
  shows "if \<forall>tg\<in>set (targets m). distinct (libs tg) then st = Status_ok \<and> sr_build rep = db_next_build db
    else st = Status_error Unavailable (''SubmitBuild: '' @ de_message e) \<and> db' = db"
proof -
  define spec where "spec = build_request m tc parts ix us"
  let ?ts = "spec_tasks m ix us"
  have ts: "bs_tasks spec = ?ts" "bs_toolchain spec = tc" by (simp_all add: spec_def build_request_def)
  note g = grows_graph[OF spec_tasks_grow[OF cov man]]
  obtain order where order: "topo_order (graph_of ?ts) = Inr order" "set order = {..<length ?ts}"
  proof (cases "topo_order (graph_of ?ts)")
    case (Inr order)
    with topo_order_Inr[OF Inr] show thesis by (intro that) (auto simp: topo_sorted_def)
  next
    case (Inl e)
    with topo_order_total[OF g] show thesis by auto
  qed
  let ?db1 = "insert_build tc (length ?ts) db"
  have "can_run cas (pn_hits (start_plan ?ts ?db1 0)) t" if t: "t \<in> set ?ts" for t
    using t
  proof (cases rule: spec_tasks_cases)
    case (compile i u)
    show ?thesis
    proof (cases "cas_has cas (u_digest u)")
      case False
      with input compile obtain c where c: "c \<in> set (db_cache ?db1)" "c_key c = u_key u" by (auto simp: insert_build_def)
      have "u_key u \<in> set (map sp_key (filter (\<lambda>t. sp_kind t = 0) ?ts))" using t compile by (force simp: image_iff)
      with cache_lookup_some[OF c(1)] c(2) good compile show ?thesis by (auto simp: can_run_def start_plan_def dest: valid_hash_no_dot)
    qed (use compile in \<open>simp add: can_run_def\<close>)
  qed (auto simp: can_run_def)
  then have "\<forall>i\<in>set order. can_run cas (pn_hits (start_plan ?ts ?db1 0)) (?ts ! i)" using order(2) by simp
  from plan_tasks_run[OF this] obtain p where p: "plan_tasks sha cas ?db1 tc ?ts order (start_plan ?ts ?db1 0) = (None, p)" by blast
  have bad: "find bad_compile ?ts = None" by (rule spec_tasks_good[OF good])
  note dist = distinct_new_deps[of "db_next_build db" ?ts] spec_tasks_distinct[OF cov man]
  define rank where "rank = upward_rank (graph_of ?ts)"
  define part where "part = partition_graph (graph_of ?ts) (if bs_partitions spec > 0 then bs_partitions spec else live_partitions now db)"
  have rf: "refuses (calm\<lparr>refuses := e\<rparr>) = e" by simp
  have run: "(st, rep, db') = (case run_txn (calm\<lparr>refuses := e\<rparr>) (submit_partial sha cas spec order) (submit sha cas e now spec order rank part) db 0 of
      (db', c, Returned b) \<Rightarrow> (Status_ok, \<lparr>sr_build = b, sr_cached = c\<rparr>, db')
    | (db', c, Raised_db e) \<Rightarrow> (Status_error Unavailable (''SubmitBuild: '' @ de_message e), \<lparr>sr_build = 0, sr_cached = c\<rparr>, db')
    | (db', c, Raised e) \<Rightarrow> (Status_error Failed_precondition e, \<lparr>sr_build = 0, sr_cached = c\<rparr>, db'))"
    using call[symmetric] unfolding spec_def[symmetric] by (simp only: submit_build_def ts bad order(1) Let_def rank_def part_def option.case sum.case rf)
  show ?thesis
  proof (cases "\<forall>tg\<in>set (targets m). distinct (libs tg)")
    case True
    with dist have "distinct (map dep_key (new_deps (db_next_build db) ?ts))" by simp
    then obtain c db2 where "submit sha cas e now spec order rank part db 0 = (c, Finished db2 (db_next_build db))"
      by (simp add: submit_def Let_def ts p)
    then have "run_txn (calm\<lparr>refuses := e\<rparr>) (submit_partial sha cas spec order) (submit sha cas e now spec order rank part) db 0 = (db2, c, Returned (db_next_build db))"
      by (simp add: run_txn_def calm_def transaction.simps)
    with run True show ?thesis by simp
  next
    case False
    with dist have "\<not> distinct (map dep_key (new_deps (db_next_build db) ?ts))" by simp
    then obtain c where "submit sha cas e now spec order rank part db 0 = (c, Throws_db e)"
      by (simp add: submit_def Let_def ts p)
    then have "run_txn (calm\<lparr>refuses := e\<rparr>) (submit_partial sha cas spec order) (submit sha cas e now spec order rank part) db 0 = (db, c, Raised_db e)"
      by (simp add: run_txn_def calm_def transaction.simps dup)
    with run False show ?thesis by (simp only: prod.case txn_result.case if_False Pair_inject) simp
  qed
qed

section \<open>Batches\<close>

definition blob_bytes :: "(string \<times> string) list \<Rightarrow> int" where
  "blob_bytes bs = sum_list (map (\<lambda>b. int (length (snd b))) bs)"

lemma blob_bytes_simps [simp]: "blob_bytes [] = 0" "blob_bytes (xs @ ys) = blob_bytes xs + blob_bytes ys" "blob_bytes [b] = int (length (snd b))"
  by (simp_all add: blob_bytes_def)

text \<open>A batch is sent as soon as it is over the limit: without its last blob it is not.\<close>

definition batch_ok :: "(string \<times> string) list \<Rightarrow> bool" where
  "batch_ok bs \<longleftrightarrow> bs \<noteq> [] \<and> blob_bytes (butlast bs) \<le> batch_limit"

lemma batches_from_ok:
  assumes "blob_bytes batch = n" "n \<le> batch_limit" "batch \<noteq> [] \<Longrightarrow> batch_ok batch"
  shows "list_all batch_ok (batches_from us send batch n)"
  using assms
proof (induction us send batch n rule: batches_from.induct)
  case (1 send batch n)
  then show ?case by simp
next
  case (2 u us send batch n)
  show ?case
  proof (cases "u_digest u \<in> send")
    case False
    with 2 show ?thesis by simp
  next
    case True
    let ?b = "batch @ [(u_digest u, u_text u)]"
    have ok: "batch_ok ?b" using 2(4,5) by (simp add: batch_ok_def)
    have n: "blob_bytes ?b = n + int (length (u_text u))" using 2(4) by simp
    show ?thesis
    proof (cases "n + int (length (u_text u)) > batch_limit")
      case over: True
      have "list_all batch_ok (batches_from us (send - {u_digest u}) [] 0)"
        by (rule 2(2)) (use True over in \<open>simp_all add: batch_limit_def\<close>)
      with True over ok show ?thesis by (simp add: Let_def)
    next
      case under: False
      have "list_all batch_ok (batches_from us (send - {u_digest u}) ?b (n + int (length (u_text u))))"
        by (rule 2(3)) (use True under ok n in simp_all)
      with True under show ?thesis by (simp add: Let_def)
    qed
  qed
qed

text \<open>All batches together: the first unit of every digest to send, in order.\<close>

fun first_blobs :: "tu list \<Rightarrow> string set \<Rightarrow> (string \<times> string) list" where
  "first_blobs [] send = []"
| "first_blobs (u # us) send = (if u_digest u \<in> send then (u_digest u, u_text u) # first_blobs us (send - {u_digest u}) else first_blobs us send)"

lemma concat_batches_from: "concat (batches_from us send batch n) = batch @ first_blobs us send"
  by (induction us send batch n rule: batches_from.induct) (auto simp: Let_def)

lemma first_blobs_ok:
  "distinct (map fst (first_blobs us send))" "set (map fst (first_blobs us send)) = send \<inter> u_digest ` set us"
  "(h, d) \<in> set (first_blobs us send) \<Longrightarrow> \<exists>u\<in>set us. u_digest u = h \<and> u_text u = d"
proof -
  show s: "set (map fst (first_blobs us send)) = send \<inter> u_digest ` set us" for us send
    by (induction us send rule: first_blobs.induct) auto
  show "distinct (map fst (first_blobs us send))"
    by (induction us send rule: first_blobs.induct) (use s in auto)
  show "(h, d) \<in> set (first_blobs us send) \<Longrightarrow> \<exists>u\<in>set us. u_digest u = h \<and> u_text u = d"
    by (induction us send rule: first_blobs.induct) (auto split: if_splits)
qed

section \<open>Units and sources\<close>

lemma covers_make_units:
  assumes "make_units m tc = (us0, ix)" "map u_src us = map u_src us0"
  shows "covers m ix us"
  unfolding covers_def
proof (intro ballI)
  fix t s assume "t \<in> set (targets m)" "s \<in> set (sources t)"
  from make_units_ok[OF assms(1) this] obtain k where "k < length us0" "ix s = Some k" "u_src (us0 ! k) = s" by blast
  moreover have "length us = length us0" using assms(2) by (metis length_map)
  ultimately show "\<exists>k<length us. ix s = Some k \<and> u_src (us ! k) = s" using assms(2) by (metis nth_map)
qed

section \<open>What a unit does not depend on\<close>

text \<open>A reused key: only the files that were read the last time are looked at, so the key stays when
  the preprocessor would now read another file, as after a new header that comes first on the path.\<close>

lemma reused_key_ignores_other_files:
  assumes "old (u_src u) = Some p" "still_valid stat root p"
    and "\<And>f. f \<in> set (u_deps p) \<Longrightarrow> stamp stat' root (fs_path f) = stamp stat root (fs_path f)"
  shows "prepare_unit sha run' stat' root old u = prepare_unit sha run stat root old u"
proof -
  have "still_valid stat' root p" using assms(2,3) by (simp add: still_valid_def list_all_iff)
  with assms(1,2) show ?thesis by (simp add: prepare_unit_def)
qed

text \<open>The units, those of C++ sources too, know the C compiler's version and not the C++ compiler's.\<close>

lemma units_ignore_cxx_version:
  assumes "\<And>a. run' [cc m, a] [] 30 False = run [cc m, a] [] 30 False"
  shows "make_units m (toolchain_id run' (cc m)) = make_units m (toolchain_id run (cc m))"
  using assms by (simp add: toolchain_id_def)

text \<open>The second preprocessing of a unit with a reused key: when it fails, the unit goes on with the old
  key and digest and without a text.\<close>

lemma refresh_failure_goes_on:
  assumes "need_unit cached u" "\<not> u_fresh u" "\<not> pp_ok (preprocess sha run root (u_src u) (u_cfg u))"
  shows "u_key (refresh sha run stat root cached u) = u_key u" "u_digest (refresh sha run stat root cached u) = u_digest u"
    "u_text (refresh sha run stat root cached u) = u_text u"
  using assms by (simp_all add: refresh_def run_preprocess_def Let_def)

end
