(* ===== verification/Dc_Progress.thy ===== *)
theory Dc_Progress
  imports Dc_Coordinator
begin

text \<open>
  What the invariant of the coordinator means for a build: its state is the verdict of its tasks, a
  build that runs always has a task that a worker can take or has taken, and from every reachable
  state it can be brought to its end.
\<close>

section \<open>The state of a build\<close>

definition tasks_of :: "nat \<Rightarrow> db \<Rightarrow> task_row list" where
  "tasks_of b db = filter (\<lambda>t. t_build t = b) (db_tasks db)"

definition verdict :: "nat \<Rightarrow> db \<Rightarrow> bstate" where
  "verdict b db =
     (if list_ex (\<lambda>t. t_state t = TFailed) (tasks_of b db) then BFailed
      else if list_all (\<lambda>t. fin (t_state t)) (tasks_of b db) then BDone
      else BRunning)"

lemma verdict_cases:
  "verdict b db = BFailed \<longleftrightarrow> (\<exists>t\<in>set (db_tasks db). t_build t = b \<and> t_state t = TFailed)"
  "verdict b db = BDone \<longleftrightarrow> (\<forall>t\<in>set (db_tasks db). t_build t = b \<longrightarrow> fin (t_state t))"
  "verdict b db = BRunning \<longleftrightarrow> (\<forall>t\<in>set (db_tasks db). t_build t = b \<longrightarrow> t_state t \<noteq> TFailed) \<and>
     (\<exists>t\<in>set (db_tasks db). t_build t = b \<and> \<not> fin (t_state t))"
  by (auto simp: verdict_def tasks_of_def list_ex_iff list_all_iff)

lemma consistent_verdict:
  assumes con: "consistent sha m C {} X W db" and r: "r \<in> set (db_builds db)"
  shows "b_id r \<notin> X \<Longrightarrow> b_state r = verdict (b_id r) db"
    and "b_state r \<noteq> BRunning \<Longrightarrow> b_state r = verdict (b_id r) db"
proof -
  have ok: "build_ok {} X db r" by (rule consistentD(6)[OF con r])
  show "b_state r = verdict (b_id r) db" if "b_state r \<noteq> BRunning"
    using ok that verdict_cases(1,2)[of "b_id r" db] by (cases "b_state r") (auto simp: build_ok_def)
  moreover show "b_state r = verdict (b_id r) db" if "b_id r \<notin> X"
    using ok that verdict_cases[of "b_id r" db] by (cases "b_state r") (auto simp: build_ok_def)
qed

section \<open>No build is stuck\<close>

lemma waits_for_live:
  assumes con: "consistent sha m C {} X {} db" and t: "t \<in> set (db_tasks db)" "\<not> fin (t_state t)"
    and nf: "\<forall>u\<in>set (db_tasks db). t_build u = t_build t \<longrightarrow> t_state u \<noteq> TFailed"
  shows "\<exists>u\<in>set (db_tasks db). t_build u = t_build t \<and> (t_state u = TReady \<or> t_state u = TRunning)"
proof -
  obtain rank :: "nat \<Rightarrow> nat \<Rightarrow> nat" where
    rank: "\<And>d. d \<in> set (db_deps db) \<Longrightarrow> rank (d_build d) (d_dep d) < rank (d_build d) (d_task d)"
    using consistentD(2)[OF con] unfolding deps_ok_def by blast
  show ?thesis
    using t nf
  proof (induction "rank (t_build t) (t_id t)" arbitrary: t rule: less_induct)
    case less
    show ?case
    proof (cases "t_state t = TWaiting")
      case False
      with less.prems show ?thesis by (cases "t_state t") auto
    next
      case True
      have tok: "task_ok sha m C {} {} db t" by (rule consistentD(5)[OF con less.prems(1)])
      with True have "0 < length (uncounted {} db (t_build t) (t_id t))" unfolding task_ok_def by (elim conjE) simp
      then have "hd (uncounted {} db (t_build t) (t_id t)) \<in> set (uncounted {} db (t_build t) (t_id t))" by simp
      then obtain d where "d \<in> set (uncounted {} db (t_build t) (t_id t))" ..
      then have d: "d \<in> set (db_deps db)" "d_build d = t_build t" "d_task d = t_id t" "\<not> fin_at db (t_build t) (d_dep d)"
        by (auto simp: uncounted_def dep_edges_def)
      have "task_rows (d_build d) (d_dep d) db \<noteq> []" using consistentD(2)[OF con] d(1) by (simp add: deps_ok_def)
      then have "hd (task_rows (t_build t) (d_dep d) db) \<in> set (task_rows (t_build t) (d_dep d) db)" using d(2) by simp
      then obtain u where "u \<in> set (task_rows (t_build t) (d_dep d) db)" ..
      with d(4) have u: "u \<in> set (db_tasks db)" "t_build u = t_build t" "t_id u = d_dep d" "\<not> fin (t_state u)"
        by (auto simp: fin_at_def task_rows_mem)
      have "rank (t_build u) (t_id u) < rank (t_build t) (t_id t)" using rank[OF d(1)] d(2,3) u(2,3) by simp
      from less.hyps[OF this u(1,4)] less.prems(3) u(2) show ?thesis by simp
    qed
  qed
qed

section \<open>A build can be brought to its end\<close>

lemma map_uid_upd_tasks: "(\<And>t. t_uid (f t) = t_uid t) \<Longrightarrow> map t_uid (db_tasks (upd_tasks P f db)) = map t_uid (db_tasks db)"
  by (simp add: upd_tasks_def map_upd_where_same)

lemma make_ready_uids:
  assumes "\<And>b i db db'. finish b i db = Some db' \<Longrightarrow> map t_uid (db_tasks db') = map t_uid (db_tasks db)"
    and "make_ready finish sha b i db = Some db'"
  shows "map t_uid (db_tasks db') = map t_uid (db_tasks db)"
  using assms(2)
  by (auto simp: make_ready_def Let_def mark_cached_def mark_ready_def map_uid_upd_tasks dest!: assms(1)
    split: list.splits)

lemma count_downs_uids:
  assumes "\<And>b i db db'. finish b i db = Some db' \<Longrightarrow> map t_uid (db_tasks db') = map t_uid (db_tasks db)"
  shows "count_downs finish sha b us db = Some db' \<Longrightarrow> map t_uid (db_tasks db') = map t_uid (db_tasks db)"
proof (induction us arbitrary: db)
  case (Cons u us)
  obtain db1 rs where cd: "count_down u db = (db1, rs)" by fastforce
  then have d1: "map t_uid (db_tasks db1) = map t_uid (db_tasks db)"
    by (auto simp: count_down_def Let_def map_uid_upd_tasks)
  from Cons.prems cd have "rs \<noteq> []" by auto
  then obtain p i rest where rs: "rs = (p, i) # rest" by (metis neq_Nil_conv prod.exhaust)
  with Cons.prems cd obtain db2 where
    "(if p = 0 then make_ready finish sha b i db1 else Some db1) = Some db2" "count_downs finish sha b us db2 = Some db'"
    by (auto split: option.splits)
  with Cons.IH make_ready_uids[OF assms] d1 show ?case by (auto split: if_splits)
qed simp

lemma finished_uids: "finished n sha now b i db = Some db' \<Longrightarrow> map t_uid (db_tasks db') = map t_uid (db_tasks db)"
proof (induction n arbitrary: b i db db')
  case (Suc n)
  from Suc.prems obtain db1 where "count_downs (finished n sha now) sha b (dependents b i db) db = Some db1"
    "db' = (if dependents b i db = [] then maybe_finish now b db1 else db1)"
    by (auto simp: Let_def split: option.splits)
  with count_downs_uids[OF Suc.IH] show ?case by (auto simp: maybe_finish_def Let_def)
qed simp

lemma complete_done_uids:
  assumes "complete_done sha cas now r db = Some (a, db')"
  shows "map t_uid (db_tasks db') = map t_uid (db_tasks db)"
proof (cases "filter (live_row (r_uid r)) (db_tasks db)")
  case (Cons t ts)
  with assms have "finish_task sha now (t_build t) (t_id t) (cache_put (text_of (t_key t)) (r_output r)
      (cas_size_of cas (r_output r)) (upd_tasks (live_row (r_uid r)) (mark_done r) db)) = Some db'"
    by (auto simp: complete_done_def Let_def)
  then have "map t_uid (db_tasks db') = map t_uid (db_tasks (upd_tasks (live_row (r_uid r)) (mark_done r) db))"
    unfolding finish_task_def by (simp only: finished_uids cache_put_simps)
  also have "\<dots> = map t_uid (db_tasks db)" by (rule map_uid_upd_tasks) (simp add: mark_done_def)
  finally show ?thesis .
qed (use assms in \<open>simp add: complete_done_def\<close>)

definition unfinished :: "nat \<Rightarrow> db \<Rightarrow> nat set" where
  "unfinished b db = t_uid ` {t \<in> set (db_tasks db). t_build t = b \<and> \<not> fin (t_state t)}"

lemma unfinished_shrinks:
  assumes ev: "evolves db db'" and ids: "map t_uid (db_tasks db') = map t_uid (db_tasks db)" and k: "keys_ok db'"
    and t: "t \<in> set (db_tasks db)" "t_build t = b" "\<not> fin (t_state t)"
    and t': "t' \<in> set (db_tasks db')" "t_uid t' = t_uid t" "fin (t_state t')"
  shows "unfinished b db' \<subset> unfinished b db"
proof
  have counterpart: "\<exists>v\<in>set (db_tasks db). t_uid v = t_uid u \<and> t_build v = t_build u \<and> (fin (t_state v) \<longrightarrow> u = v)"
    if u: "u \<in> set (db_tasks db')" for u
  proof -
    have "t_uid u \<in> set (map t_uid (db_tasks db))" using u unfolding ids[symmetric] by simp
    then obtain v where v: "v \<in> set (db_tasks db)" "t_uid v = t_uid u" by auto
    with ev obtain w where "w \<in> set (db_tasks db')" "same_cols v w" "terminal (t_state v) \<longrightarrow> w = v"
      unfolding evolves_def by blast
    moreover from this have "w = u" using same_key_same_row(2)[OF k _ u] v(2) by (simp add: same_cols_def)
    ultimately show ?thesis using v fin_terminal by (auto simp: same_cols_def)
  qed
  show "unfinished b db' \<subseteq> unfinished b db"
  proof
    fix x assume "x \<in> unfinished b db'"
    then obtain u where u: "u \<in> set (db_tasks db')" "x = t_uid u" "t_build u = b" "\<not> fin (t_state u)"
      by (auto simp: unfinished_def)
    with counterpart[OF u(1)] obtain v where "v \<in> set (db_tasks db)" "t_uid v = x" "t_build v = b" "\<not> fin (t_state v)" by auto
    then show "x \<in> unfinished b db" by (auto simp: unfinished_def)
  qed
  have "t_uid t \<in> unfinished b db" using t by (auto simp: unfinished_def)
  moreover have "t_uid t \<notin> unfinished b db'"
    using same_key_same_row(2)[OF k _ t'(1)] t'(2,3) by (auto simp: unfinished_def)
  ultimately show "unfinished b db' \<noteq> unfinished b db" by blast
qed

text \<open>A report that a task is done, with an output that is in the store.\<close>

definition good_report :: "task_row \<Rightarrow> string \<Rightarrow> task_result" where
  "good_report t h = \<lparr>r_uid = t_uid t, r_attempt = int (t_attempts t), r_worker = text_of (t_lease_owner t), r_ok = True,
     r_retryable = False, r_output = h, r_log = [], r_exec_ms = 0\<rparr>"

lemma complete_call_done:
  assumes ok: "coord_ok sha m s" and t: "t \<in> set (db_tasks (co_db s))" "t_state t = TReady \<or> t_state t = TRunning"
    and h: "cas_has (co_cas s) h"
    and s1: "s' = complete_call sha m calm now (good_report t h) s"
  shows "coord_ok sha m s'" "co_cas s' = co_cas s" "evolves (co_db s) (co_db s')"
    "unfinished (t_build t) (co_db s') \<subset> unfinished (t_build t) (co_db s)"
proof -
  let ?r = "good_report t h"
  have con: "consistent sha m (stored_hashes (co_cas s)) {} {} {} (co_db s)"
    using ok by (simp_all add: coord_ok_def)
  have live: "live_row (r_uid ?r) t" using t(2) by (simp add: live_row_def good_report_def)
  have out: "r_output ?r \<in> stored_hashes (co_cas s)" using h by (simp add: good_report_def stored_hashes_def)
  obtain u db' where u: "u \<in> set (db_tasks (co_db s))" "live_row (r_uid ?r) u"
    "complete_done sha (co_cas s) now ?r (co_db s) = Some (True, db')"
    "consistent sha m (stored_hashes (co_cas s)) {} {} {} db'" "evolves (co_db s) db'" "mark_done ?r u \<in> set (db_tasks db')"
    using complete_done_ok[OF con out, of "co_cas s" now] t(1) live by metis
  have ut: "u = t" using same_key_same_row(2)[OF consistentD(1)[OF con] u(1) t(1)] u(2) live by (simp add: live_row_def)
  have "complete_body sha m (co_cas s) now ?r (co_db s) = Some (True, db')"
    using u(3) by (simp add: complete_body_def good_report_def)
  then have "complete_task sha m (co_cas s) calm now ?r (co_db s) = (Status_ok, Some True, db')"
    using h by (simp add: complete_task_def complete_txn_def run_txn_calm good_report_def)
  then have s': "co_db s' = db'" "co_cas s' = co_cas s"
    by (simp_all add: s1 complete_call_def wake_workers_def)
  with u(4) show "coord_ok sha m s'" "co_cas s' = co_cas s" "evolves (co_db s) (co_db s')"
    using u(5) by (simp_all add: coord_ok_def)
  have nf: "\<not> fin (t_state t)" using t(2) by (auto simp: fin_def)
  show "unfinished (t_build t) (co_db s') \<subset> unfinished (t_build t) (co_db s)"
    unfolding s'(1)
    by (rule unfinished_shrinks[OF u(5) complete_done_uids[OF u(3)] consistentD(1)[OF u(4)] t(1) refl nf u(6)])
      (simp_all add: mark_done_def ut)
qed

lemma can_finish:
  assumes "coord_ok sha m s" "cas_has (co_cas s) h" "r \<in> set (db_builds (co_db s))" "b_state r = BRunning"
  shows "\<exists>s'. run_of (coord_step sha m lease False) s s' \<and>
    (\<exists>r'\<in>set (db_builds (co_db s')). b_id r' = b_id r \<and> b_state r' \<noteq> BRunning)"
  using assms
proof (induction "card (unfinished (b_id r) (co_db s))" arbitrary: s r rule: less_induct)
  case less
  have con: "consistent sha m (stored_hashes (co_cas s)) {} {} {} (co_db s)"
    using less.prems(1) by (simp add: coord_ok_def)
  have v: "verdict (b_id r) (co_db s) = BRunning" using consistent_verdict(1)[OF con less.prems(3)] less.prems(4) by simp
  then obtain t0 where t0: "t0 \<in> set (db_tasks (co_db s))" "t_build t0 = b_id r" "\<not> fin (t_state t0)"
    "\<forall>u\<in>set (db_tasks (co_db s)). t_build u = t_build t0 \<longrightarrow> t_state u \<noteq> TFailed"
    by (auto simp: verdict_cases(3))
  obtain t where t: "t \<in> set (db_tasks (co_db s))" "t_build t = b_id r" "t_state t = TReady \<or> t_state t = TRunning"
    using waits_for_live[OF con t0(1,3,4)] t0(2) by auto
  define s1 where "s1 = complete_call sha m calm 0 (good_report t h) s"
  note c = complete_call_done[OF less.prems(1) t(1,3) less.prems(2) s1_def]
  have step: "coord_step sha m lease False s s1" unfolding s1_def by (rule step_complete)
  obtain r1 where r1: "r1 \<in> set (db_builds (co_db s1))" "b_id r1 = b_id r"
    using c(3) less.prems(3) unfolding evolves_def by metis
  show ?case
  proof (cases "b_state r1 = BRunning")
    case False
    with r1 show ?thesis using run_step[of "coord_step sha m lease False" s s s1, OF run_refl step] by blast
  next
    case True
    have fin: "finite (unfinished b db)" for b db by (simp add: unfinished_def)
    have "card (unfinished (b_id r1) (co_db s1)) < card (unfinished (b_id r) (co_db s))"
      using psubset_card_mono[OF fin c(4)] t(2) r1(2) by simp
    from less.hyps[OF this c(1) _ r1(1) True] less.prems(2) c(2) obtain s' where
      s': "run_of (coord_step sha m lease False) s1 s'" "\<exists>r'\<in>set (db_builds (co_db s')). b_id r' = b_id r1 \<and> b_state r' \<noteq> BRunning"
      by auto
    from s'(1) have "run_of (coord_step sha m lease False) s s'"
      by (induction rule: run_of.induct) (use run_step[of "coord_step sha m lease False" s s s1, OF run_refl step] in \<open>auto intro: run_step\<close>)
    with s'(2) r1(2) show ?thesis by auto
  qed
qed

section \<open>Runs\<close>

lemma run_evolves:
  assumes "run_of (coord_step sha m lease faulty) s t" "coord_sound sha m s"
  shows "coord_sound sha m t \<and> evolves (co_db s) (co_db t) \<and> stored_hashes (co_cas s) \<subseteq> stored_hashes (co_cas t)"
  using assms
proof (induction rule: run_of.induct)
  case run_refl
  then show ?case by (simp add: evolves_refl)
next
  case (run_step u v)
  then have u: "coord_sound sha m u" "evolves (co_db s) (co_db u)" "stored_hashes (co_cas s) \<subseteq> stored_hashes (co_cas u)" by auto
  then obtain X where c: "consistent sha m (stored_hashes (co_cas u)) {} X {} (co_db u)"
    by (auto simp: coord_sound_def)
  note st = coord_step_cases(1,2)[OF run_step.hyps(2) c]
  from coord_sound_step[OF u(1) run_step.hyps(2)] evolves_trans[OF u(2) st(2)] u(3) st(1) show ?case by blast
qed

lemma coord_ok_sound: "coord_ok sha m s \<Longrightarrow> coord_sound sha m s"
  unfolding coord_ok_def coord_sound_def by (intro conjI exI[of _ "{}"]) auto

lemma coord_start_sound: "coord_start m s \<Longrightarrow> coord_sound sha m s"
  by (rule coord_faulty.inv_start)

text \<open>The invariant in every reachable state; only a round of the reaper cut short leaves builds whose state
  lags behind a failed task.\<close>

lemma run_consistent:
  assumes "coord_start m s0" "run_of (coord_step sha m lease faulty) s0 s"
  obtains X where "consistent sha m (stored_hashes (co_cas s)) {} X {} (co_db s)" "\<not> faulty \<longrightarrow> X = {}"
    "\<forall>b\<in>X. \<exists>t\<in>set (db_tasks (co_db s)). t_build t = b \<and> t_state t = TFailed"
proof (cases faulty)
  case True
  with that run_evolves[OF assms(2) coord_start_sound[OF assms(1)]] show thesis unfolding coord_sound_def by blast
next
  case False
  with assms(2) coord.inv_run[OF assms(1)] have "coord_ok sha m s" by simp
  with that[of "{}"] show thesis by (simp add: coord_ok_def)
qed

section \<open>Settled tasks\<close>

lemma final_report_settles:
  assumes con: "consistent sha m (stored_hashes cas) {} X {} db"
    and "r_ok r \<and> cas_has cas (r_output r) \<or> \<not> r_ok r \<and> \<not> r_retryable r"
    and body: "complete_body sha m cas now r db = Some (True, db')"
  shows "\<exists>t\<in>set (db_tasks db'). t_uid t = r_uid r \<and> terminal (t_state t)"
proof (cases "r_ok r")
  case True
  then have out: "r_output r \<in> stored_hashes cas" using assms(2) by (simp add: stored_hashes_def)
  from True body have "complete_done sha cas now r db = Some (True, db')" by (simp add: complete_body_def)
  with complete_done_ok[OF con out, of cas now] obtain t where "live_row (r_uid r) t" "mark_done r t \<in> set (db_tasks db')"
    by (metis Pair_inject option.inject)
  then show ?thesis by (intro bexI[of _ "mark_done r t"]) (simp_all add: mark_done_def live_row_def terminal_def)
next
  case False
  with body assms(2) have "complete_failed now r db = (True, db')" by (simp add: complete_body_def)
  with complete_failed_ok[OF con, of r now] obtain t where "live_row (r_uid r) t" "mark_failed r t \<in> set (db_tasks db')"
    by (metis Pair_inject)
  then show ?thesis by (intro bexI[of _ "mark_failed r t"]) (simp_all add: mark_failed_def live_row_def terminal_def)
qed

lemma settled_txn:
  assumes con: "consistent sha m (stored_hashes cas) {} X {} db"
    and t: "t \<in> set (db_tasks db)" "t_uid t = r_uid r" "terminal (t_state t)"
    and out: "r_ok r \<Longrightarrow> cas_has cas (r_output r)" and txn: "complete_txn sha m cas env now r db = (st, acc, d)"
  shows "acc \<noteq> Some True \<and> d = db"
proof -
  have "\<not> live_row (r_uid r) v \<and> \<not> attempt_row r v" if "v \<in> set (db_tasks db)" for v
    using same_key_same_row(2)[OF consistentD(1)[OF con] that t(1)] t(2,3)
    by (auto simp: live_row_def attempt_row_def terminal_def)
  then have "filter (live_row (r_uid r)) (db_tasks db) = []" "filter (attempt_row r) (db_tasks db) = []"
    by (simp_all add: filter_empty_conv)
  then have "complete_body sha m cas now r db = Some (False, db)"
    by (simp add: complete_body_def complete_done_def complete_retry_def complete_failed_def)
  with complete_txn_ok(4)[OF con _ txn] out show ?thesis by (cases acc) (auto simp: stored_hashes_def)
qed

lemma settled_not_accepted:
  assumes con: "consistent sha m (stored_hashes cas) {} X {} db"
    and t: "t \<in> set (db_tasks db)" "t_uid t = r_uid r" "terminal (t_state t)"
  shows "\<exists>st acc. complete_task sha m cas env now r db = (st, acc, db) \<and> acc \<noteq> Some True"
proof -
  define q where "q = (if r_ok r \<and> \<not> cas_has cas (r_output r) then retry_copy r ''output blob missing'' else r)"
  have q: "t_uid t = r_uid q" "r_ok q \<Longrightarrow> cas_has cas (r_output q)"
    using t(2) by (auto simp: q_def retry_copy_def split: if_splits)
  obtain st acc d where e: "complete_txn sha m cas env now q db = (st, acc, d)" by (metis prod_cases3)
  have "complete_task sha m cas env now r db = (st, acc, d)" using e unfolding complete_task_def q_def by (auto split: if_splits)
  moreover have "acc \<noteq> Some True \<and> d = db" by (rule settled_txn[OF con t(1) q(1) t(3) q(2) e])
  ultimately show ?thesis by blast
qed

section \<open>Rows of a submitted build\<close>

lemma submit_build_rows:
  assumes sound: "coord_sound sha m s" and leaf: "leaf_compiles (bs_tasks spec)"
    and call: "submit_build sha (co_cas s) env now spec (co_db s) = (Status_ok, rep, db')"
  defines "n \<equiv> length (bs_tasks spec)" and "g \<equiv> graph_of (bs_tasks spec)" and "b \<equiv> sr_build rep"
    and "part \<equiv> partition_graph (graph_of (bs_tasks spec)) (if bs_partitions spec > 0 then bs_partitions spec else live_partitions now (co_db s))"
  shows "valid_graph g" "acyclic (dep_rel g)" "b = db_next_build (co_db s)" "b \<in> b_id ` set (db_builds db')"
    and "db_deps db' = db_deps (co_db s) @ new_deps b (bs_tasks spec)"
    and "\<exists>pls. length pls = n \<and> db_tasks db' = db_tasks (co_db s) @
           map (new_task b (db_next_uid (co_db s)) (bs_toolchain spec) (bs_tasks spec) (upward_rank g) part pls) [0..<n]"
proof -
  obtain X where con: "consistent sha m (stored_hashes (co_cas s)) {} X {} (co_db s)"
    using sound by (auto simp: coord_sound_def)
  note o = submit_build_ok(3)[OF con leaf call, folded g_def part_def]
  then have sub: "valid_graph g" "acyclic (dep_rel g)" "b = db_next_build (co_db s)"
    "submitted sha (co_cas s) now spec (upward_rank g) part b (co_db s) db'" by (auto simp: b_def)
  then show "valid_graph g" "acyclic (dep_rel g)" "b = db_next_build (co_db s)" by blast+
  from sub(4) show "b \<in> b_id ` set (db_builds db')" "db_deps db' = db_deps (co_db s) @ new_deps b (bs_tasks spec)"
    by (auto simp: submitted_def Let_def)
  from sub(4) show "\<exists>pls. length pls = n \<and> db_tasks db' = db_tasks (co_db s) @
      map (new_task b (db_next_uid (co_db s)) (bs_toolchain spec) (bs_tasks spec) (upward_rank g) part pls) [0..<n]"
    by (auto simp: submitted_def Let_def n_def)
qed

text \<open>The tasks of a build are those of its specification, then and later.\<close>

definition has_tasks :: "nat \<Rightarrow> task_spec list \<Rightarrow> db \<Rightarrow> bool" where
  "has_tasks b ts db \<longleftrightarrow>
     b \<in> b_id ` set (db_builds db) \<and>
     (\<forall>i<length ts. \<exists>t\<in>set (db_tasks db). t_build t = b \<and> t_id t = i) \<and>
     (\<forall>t\<in>set (db_tasks db). t_build t = b \<longrightarrow> t_id t < length ts \<and> t_name t = sp_name (ts ! t_id t))"

lemma has_tasks_evolves:
  assumes has: "has_tasks b ts db" and ev: "evolves db db'"
  shows "has_tasks b ts db'"
proof -
  have "b \<in> b_id ` set (db_builds db')" using has ev unfolding has_tasks_def evolves_def image_iff by metis
  moreover have "\<exists>t\<in>set (db_tasks db'). t_build t = b \<and> t_id t = i" if i: "i < length ts" for i
  proof -
    obtain t where "t \<in> set (db_tasks db)" "t_build t = b" "t_id t = i" using has i by (auto simp: has_tasks_def)
    with ev show ?thesis unfolding evolves_def same_cols_def by metis
  qed
  moreover have "t_id t < length ts \<and> t_name t = sp_name (ts ! t_id t)" if t: "t \<in> set (db_tasks db')" "t_build t = b" for t
  proof -
    obtain u where u: "u \<in> set (db_tasks db)" "same_cols u t" using ev t has unfolding evolves_def has_tasks_def by blast
    with t(2) have "t_build u = b" "t_id t = t_id u" "t_name t = t_name u" by (simp_all add: same_cols_def)
    with has u(1) show ?thesis by (simp add: has_tasks_def)
  qed
  ultimately show ?thesis by (simp add: has_tasks_def)
qed

lemma submit_has_tasks:
  assumes sound: "coord_sound sha m s" and leaf: "leaf_compiles (bs_tasks spec)"
    and call: "submit_build sha (co_cas s) env now spec (co_db s) = (Status_ok, rep, db')"
  shows "has_tasks (sr_build rep) (bs_tasks spec) db'"
proof -
  note r = submit_build_rows[OF sound leaf call]
  define b where "b = sr_build rep"
  from r(6)[folded b_def] obtain u tc rank part pls where rows: "db_tasks db' = db_tasks (co_db s) @ map (new_task b u tc (bs_tasks spec) rank part pls) [0..<length (bs_tasks spec)]"
    by blast
  have k: "keys_ok (co_db s)" using sound by (auto simp: coord_sound_def dest: consistentD(1))
  have "t_build t \<noteq> b" if "t \<in> set (db_tasks (co_db s))" for t using k that r(3) by (force simp: keys_ok_def b_def)
  then show ?thesis using r(4) unfolding has_tasks_def rows b_def[symmetric] by (auto intro!: bexI)
qed

text \<open>The details of a finished build, as \<open>GetBuild\<close> lists them.\<close>

lemma full_status:
  assumes sound: "coord_sound sha m s" and has: "has_tasks b ts (co_db s)"
    and call: "get_build b True (co_db s) = (Status_ok, Some x)"
  shows "\<exists>r\<in>set (db_builds (co_db s)). b_id r = b \<and> b_state r = st_state x"
    and "i < length ts \<Longrightarrow> \<exists>t\<in>set (db_tasks (co_db s)). t_build t = b \<and> t_id t = i \<and> t_name t = sp_name (ts ! i) \<and> st_tasks x ! i = status_of t"
proof -
  let ?rows = "sort_key t_id (filter (\<lambda>t. t_build t = b) (db_tasks (co_db s)))"
  obtain r rs where r: "filter (\<lambda>r. b_id r = b) (db_builds (co_db s)) = r # rs" "st_state x = b_state r" "st_tasks x = map status_of ?rows"
    using call by (auto simp: get_build_def split: list.splits)
  then have "r \<in> set (filter (\<lambda>r. b_id r = b) (db_builds (co_db s)))" by simp
  with r(2) show "\<exists>r\<in>set (db_builds (co_db s)). b_id r = b \<and> b_state r = st_state x" by auto
  have "distinct (map (\<lambda>t. (t_build t, t_id t)) (db_tasks (co_db s)))" using sound by (auto simp: coord_sound_def keys_ok_def dest!: consistentD(1))
  then have "distinct (map t_id (filter (\<lambda>t. t_build t = b) (db_tasks (co_db s))))"
    by (auto simp: distinct_map inj_on_def distinct_map_filter)
  then have "distinct (map t_id ?rows)" by (simp add: distinct_map)
  moreover have "set (map t_id ?rows) = set [0..<length ts]" using has by (auto simp: has_tasks_def)
  ultimately have ids: "map t_id ?rows = [0..<length ts]" by (intro sorted_distinct_set_unique) simp_all
  show "\<exists>t\<in>set (db_tasks (co_db s)). t_build t = b \<and> t_id t = i \<and> t_name t = sp_name (ts ! i) \<and> st_tasks x ! i = status_of t" if i: "i < length ts"
  proof -
    have len: "i < length ?rows" using ids i by (metis length_map length_upt minus_nat.diff_0)
    have "?rows ! i \<in> set ?rows" using len by (rule nth_mem)
    then have t: "?rows ! i \<in> set (db_tasks (co_db s))" "t_build (?rows ! i) = b" by simp_all
    have "map t_id ?rows ! i = [0..<length ts] ! i" by (simp only: ids)
    then have id: "t_id (?rows ! i) = i" using len i by simp
    with t has have "t_name (?rows ! i) = sp_name (ts ! i)" by (auto simp: has_tasks_def)
    with t id len r(3) show ?thesis by (intro bexI[of _ "?rows ! i"]) simp_all
  qed
qed

end
