(* ===== verification/Dc_Build.thy ===== *)
theory Dc_Build
  imports Dc_Client Dc_Progress
begin

text \<open>
  \<open>dcc build\<close> from the manifest to the exit code (\<open>src/dcc.cpp:150-406\<close>), against a coordinator that
  other clients, workers and the reaper use at the same time: before every attempt of a call the rest
  of the system may have taken any steps (\<open>ce_world\<close>), and the network may lose the request or the
  reply (\<open>ce_net\<close>). An exception is a \<open>Thrown\<close> outcome; \<open>main\<close> prints it and exits with 1. The loop
  that polls \<open>GetBuild\<close> has no bound, so the whole is a partial function: \<open>None\<close> is a build that is
  polled forever. The lemmas show that a build that exits with 0 leaves the finished outputs of its
  tasks in the output directory.
\<close>

section \<open>Surroundings\<close>

datatype call = Check_cache | Find_missing | Put_blobs nat | Submit_build | Poll_build nat | Get_full | Get_blob nat

record client_env =
  ce_glob :: "string \<Rightarrow> string list"
  ce_run :: runner
  ce_stat :: stat_fn
  ce_net :: "call \<Rightarrow> nat \<Rightarrow> link"
  ce_world :: "call \<Rightarrow> nat \<Rightarrow> coord \<Rightarrow> coord"
  ce_put_io :: "nat \<Rightarrow> nat \<Rightarrow> nat \<Rightarrow> put_env"
  ce_txn :: "nat \<Rightarrow> txn_env"
  ce_now :: "nat \<Rightarrow> int"
  ce_write :: "string \<Rightarrow> string \<Rightarrow> put_env"

datatype outcome = Thrown string | Exits nat

text \<open>A call of the stub under \<open>with_retry\<close>, with its default of eight attempts.\<close>

definition stub :: "client_env \<Rightarrow> call \<Rightarrow> (nat \<Rightarrow> coord \<Rightarrow> rpc_status \<times> 'r \<times> coord) \<Rightarrow> 'r \<Rightarrow> coord \<Rightarrow> rpc_status \<times> 'r \<times> coord" where
  "stub e c handler r0 s = remote (ce_net e c) (\<lambda>k s. handler k (ce_world e c k s)) 8 r0 s"

definition reading :: "(coord \<Rightarrow> rpc_status \<times> 'r) \<Rightarrow> nat \<Rightarrow> coord \<Rightarrow> rpc_status \<times> 'r \<times> coord" where
  "reading f k s = (case f s of (st, r) \<Rightarrow> (st, r, s))"

definition write_out :: "client_env \<Rightarrow> string \<Rightarrow> string \<Rightarrow> fs \<Rightarrow> fs" where
  "write_out e path data files = snd (write_file_atomic (fst (ce_write e path data)) (snd (ce_write e path data)) path data files)"

section \<open>The steps of a build\<close>

text \<open>The keys of all units: reused from the saved state, or from the preprocessor.\<close>

definition prepare_units :: "sha_fn \<Rightarrow> client_env \<Rightarrow> string \<Rightarrow> manifest \<Rightarrow> string \<Rightarrow> fs \<Rightarrow> tu list" where
  "prepare_units sha e root m tc files =
     map (prepare_unit sha (ce_run e) (ce_stat e) root (load_state (files (root @ ''/.dcstate'')) (config_id sha tc m)))
       (fst (make_units m tc))"

definition send_handler :: "sha_fn \<Rightarrow> client_env \<Rightarrow> nat \<Rightarrow> (string \<times> string) list \<Rightarrow> nat \<Rightarrow> coord \<Rightarrow> rpc_status \<times> unit \<times> coord" where
  "send_handler sha e i bs k s =
     (fst (put_blobs sha (ce_put_io e i k) bs 0 0 (co_cas s)), (), put_call sha (ce_put_io e i k) bs s)"

fun send_batches :: "sha_fn \<Rightarrow> client_env \<Rightarrow> nat \<Rightarrow> (string \<times> string) list list \<Rightarrow> coord \<Rightarrow> rpc_status \<times> coord" where
  "send_batches sha e i [] s = (Status_ok, s)"
| "send_batches sha e i (bs # rest) s =
     (case stub e (Put_blobs i) (send_handler sha e i bs) () s of
        (st, _, s') \<Rightarrow> if st \<noteq> Status_ok then (st, s') else send_batches sha e (i + 1) rest s')"

definition submit_handler :: "sha_fn \<Rightarrow> client_env \<Rightarrow> build_spec \<Rightarrow> nat \<Rightarrow> coord \<Rightarrow> rpc_status \<times> submit_reply \<times> coord" where
  "submit_handler sha e spec k s =
     (case submit_build sha (co_cas s) (ce_txn e k) (ce_now e k) spec (co_db s) of
        (st, rep, _) \<Rightarrow> (st, rep, submit_call sha (ce_txn e k) (ce_now e k) spec s))"

text \<open>The reply of \<open>GetBuild\<close>; it is there whenever the status is OK.\<close>

definition status_handler :: "nat \<Rightarrow> bool \<Rightarrow> nat \<Rightarrow> coord \<Rightarrow> rpc_status \<times> build_status option \<times> coord" where
  "status_handler b full = reading (\<lambda>s. get_build b full (co_db s))"

definition running_reply :: "build_status option \<Rightarrow> bool" where
  "running_reply bs \<longleftrightarrow> (case bs of None \<Rightarrow> False | Some x \<Rightarrow> st_state x = BRunning)"

partial_function (option) poll_build :: "client_env \<Rightarrow> nat \<Rightarrow> nat \<Rightarrow> coord \<Rightarrow> (rpc_status \<times> coord) option" where
  "poll_build e b i s =
     (case stub e (Poll_build i) (status_handler b False) None s of
        (st, bs, s') \<Rightarrow>
          if st \<noteq> Status_ok then Some (st, s')
          else if \<not> running_reply bs then Some (st, s')
          else poll_build e b (i + 1) s')"

text \<open>One output: kept when the file there has the right contents, else downloaded, checked and
  written; whether the write worked is not looked at. An exception leaves what was written before it.\<close>

definition fetch_output :: "sha_fn \<Rightarrow> client_env \<Rightarrow> nat \<Rightarrow> string \<Rightarrow> string \<Rightarrow> string \<Rightarrow> coord \<Rightarrow> fs \<Rightarrow> string option \<times> fs \<times> coord" where
  "fetch_output sha e i path name digest s files =
     (if (case files path of None \<Rightarrow> False | Some d \<Rightarrow> sha256_hex sha d = digest) then (None, files, s)
      else case stub e (Get_blob i) (reading (\<lambda>s. get_blob digest (co_cas s))) [] s of
             (st, d, s') \<Rightarrow>
               if st \<noteq> Status_ok \<or> sha256_hex sha d \<noteq> digest then (Some (''download of '' @ name @ '' failed''), files, s')
               else (None, write_out e path d files, s'))"

fun fetch_outputs :: "sha_fn \<Rightarrow> client_env \<Rightarrow> string \<Rightarrow> task_status list \<Rightarrow> nat \<Rightarrow> (nat \<times> string) list \<Rightarrow> coord \<Rightarrow> fs \<Rightarrow> string option \<times> fs \<times> coord" where
  "fetch_outputs sha e out sts i [] s files = (None, files, s)"
| "fetch_outputs sha e out sts i ((t, name) # rest) s files =
     (case fetch_output sha e i (out @ ''/'' @ name) name (ts_output (sts ! t)) s files of
        (Some msg, files', s') \<Rightarrow> (Some msg, files', s')
      | (None, files', s') \<Rightarrow> fetch_outputs sha e out sts (i + 1) rest s' files')"

definition save_state :: "client_env \<Rightarrow> string \<Rightarrow> string \<Rightarrow> tu list \<Rightarrow> fs \<Rightarrow> fs" where
  "save_state e root config us files = write_out e (root @ ''/.dcstate'') (state_text config us) files"

text \<open>After the submission: poll, read the details, fetch and save.\<close>

definition collect :: "sha_fn \<Rightarrow> client_env \<Rightarrow> string \<Rightarrow> string \<Rightarrow> string \<Rightarrow> tu list \<Rightarrow> build_spec \<Rightarrow> nat \<Rightarrow> coord \<Rightarrow> fs \<Rightarrow> (outcome \<times> fs \<times> coord) option" where
  "collect sha e root out config us spec b s files =
     (case poll_build e b 0 s of
        None \<Rightarrow> None
      | Some (st, s1) \<Rightarrow>
          if st \<noteq> Status_ok then Some (Thrown (''status: '' @ status_message st), files, s1)
          else case stub e Get_full (status_handler b True) None s1 of
                 (st, bs, s2) \<Rightarrow>
                   (case bs of
                      Some x \<Rightarrow>
                        if st \<noteq> Status_ok then Some (Thrown (''status: '' @ status_message st), files, s2)
                        else if st_state x = BFailed then Some (Exits 1, save_state e root config us files, s2)
                        else (case fetch_outputs sha e out (st_tasks x) 0 (output_files (bs_tasks spec)) s2 files of
                                (Some msg, files', s3) \<Rightarrow> Some (Thrown msg, files', s3)
                              | (None, files', s3) \<Rightarrow> Some (Exits 0, save_state e root config us files', s3))
                    | None \<Rightarrow> Some (Thrown (''status: '' @ status_message st), files, s2)))"

definition upload_and_submit :: "sha_fn \<Rightarrow> client_env \<Rightarrow> string \<Rightarrow> manifest \<Rightarrow> string \<Rightarrow> int \<Rightarrow> tu list \<Rightarrow> coord \<Rightarrow> (string + tu list \<times> build_spec \<times> nat) \<times> coord" where
  "upload_and_submit sha e root m tc parts us s =
     (case stub e Check_cache (reading (\<lambda>s. (Status_ok, check_cache (map u_key us) (co_db s)))) [] s of
        (st, cached, s) \<Rightarrow>
      if st \<noteq> Status_ok then (Inl (''coordinator: '' @ status_message st), s) else
      let us' = map (refresh sha (ce_run e) (ce_stat e) root cached) us;
          need = map (refresh sha (ce_run e) (ce_stat e) root cached) (filter (need_unit cached) us) in
      case stub e Find_missing (reading (\<lambda>s. (Status_ok, find_missing (map u_digest need) (co_cas s)))) [] s of
        (st, missing, s) \<Rightarrow>
      if st \<noteq> Status_ok then (Inl (''coordinator: '' @ status_message st), s) else
      case send_batches sha e 0 (batches need missing) s of
        (st, s) \<Rightarrow>
      if st \<noteq> Status_ok then (Inl (''upload: '' @ status_message st), s) else
      let spec = build_request m tc parts (snd (make_units m tc)) us' in
      case stub e Submit_build (submit_handler sha e spec) \<lparr>sr_build = 0, sr_cached = 0\<rparr> s of
        (st, rep, s) \<Rightarrow>
      if st \<noteq> Status_ok then (Inl (''submit: '' @ status_message st), s)
      else (Inr (us', spec, sr_build rep), s))"

definition dcc_build :: "sha_fn \<Rightarrow> client_env \<Rightarrow> string \<Rightarrow> string \<Rightarrow> int \<Rightarrow> fs \<Rightarrow> coord \<Rightarrow> (outcome \<times> fs \<times> coord) option" where
  "dcc_build sha e root out parts files s =
     (case load_manifest (ce_glob e) files root of
        Inl msg \<Rightarrow> Some (Thrown msg, files, s)
      | Inr m \<Rightarrow>
          let tc = toolchain_id (ce_run e) (cc m) in
          if tc = [] then Some (Thrown (''can'' @ [CHR 0x27] @ ''t run '' @ cc m @ '' --version''), files, s)
          else
            let us = prepare_units sha e root m tc files in
            if list_ex (\<lambda>u. u_error u \<noteq> []) us then Some (Exits 1, files, s)
            else case upload_and_submit sha e root m tc parts us s of
                   (Inl msg, s') \<Rightarrow> Some (Thrown msg, files, s')
                 | (Inr (us', spec, b), s') \<Rightarrow> collect sha e root out (config_id sha tc m) us' spec b s' files)"

section \<open>Calls are runs of the system\<close>

definition steady :: "sha_fn \<Rightarrow> nat \<Rightarrow> int \<Rightarrow> bool \<Rightarrow> client_env \<Rightarrow> bool" where
  "steady sha m lease faulty e \<longleftrightarrow>
     (\<forall>c k s. run_of (coord_step sha m lease faulty) s (ce_world e c k s)) \<and> (\<forall>i k j. put_env_ok (ce_put_io e i k j))"

lemma run_of_trans: "run_of R b c \<Longrightarrow> run_of R a b \<Longrightarrow> run_of R a c"
  by (induction rule: run_of.induct) (auto intro: run_step)

lemma stub_run:
  assumes st: "steady sha m lease faulty e" and h: "\<And>k u. run_of (coord_step sha m lease faulty) u (snd (snd (handler k u)))"
    and call: "stub e c handler r0 s = (st, r, s')"
  shows "run_of (coord_step sha m lease faulty) s s'"
    and "st = Status_ok \<Longrightarrow> \<exists>k u. run_of (coord_step sha m lease faulty) s u \<and> handler k u = (Status_ok, r, s')"
proof -
  let ?R = "coord_step sha m lease faulty" and ?f = "\<lambda>k s. handler k (ce_world e c k s)"
  have w: "run_of ?R u (ce_world e c k u)" for k u using st by (simp add: steady_def)
  have keeps: "\<And>k u. run_of ?R s u \<Longrightarrow> run_of ?R s (snd (snd (?f k u)))" by (meson h w run_of_trans)
  note call' = call[unfolded stub_def]
  have eight: "0 < (8::nat)" by simp
  show "run_of ?R s s'" by (rule remote_spec(1)[where f = ?f and I = "run_of ?R s", OF _ run_refl call' eight]) (rule keeps)
  show "\<exists>k u. run_of ?R s u \<and> handler k u = (Status_ok, r, s')" if ok: "st = Status_ok"
  proof -
    obtain k u where u: "run_of ?R s u" "?f k u = (Status_ok, r, s')"
      using remote_spec(2)[where f = ?f and I = "run_of ?R s", OF keeps run_refl call' eight ok] ok by auto
    have "run_of ?R s (ce_world e c k u)" by (rule run_of_trans[OF w u(1)])
    with u(2) show ?thesis by blast
  qed
qed

lemma reading_run: "run_of R u (snd (snd (reading f k u)))"
  by (simp add: reading_def run_refl split: prod.split)

lemma reading_iff [simp]: "reading f k u = (st, r, v) \<longleftrightarrow> f u = (st, r) \<and> v = u"
  by (auto simp: reading_def split: prod.splits)

lemma send_run:
  assumes "steady sha m lease faulty e"
  shows "run_of (coord_step sha m lease faulty) u (snd (snd (send_handler sha e i bs k u)))"
proof -
  have "coord_step sha m lease faulty u (put_call sha (ce_put_io e i k) bs u)" by (rule step_put) (use assms in \<open>simp add: steady_def\<close>)
  then show ?thesis by (simp add: send_handler_def) (rule run_step, rule run_refl)
qed

lemma send_batches_run:
  assumes "steady sha m lease faulty e" "send_batches sha e i bss s = (st, s')"
  shows "run_of (coord_step sha m lease faulty) s s'"
  using assms(2)
proof (induction bss arbitrary: i s)
  case Nil
  then show ?case by (simp add: run_refl)
next
  case (Cons bs bss)
  obtain st1 u s1 where c: "stub e (Put_blobs i) (send_handler sha e i bs) () s = (st1, u, s1)" by (metis prod_cases3)
  have r: "run_of (coord_step sha m lease faulty) s s1" by (rule stub_run(1)[OF assms(1) send_run[OF assms(1)] c])
  show ?case
  proof (cases "st1 = Status_ok")
    case True
    then have "send_batches sha e (i + 1) bss s1 = (st, s')" using Cons.prems c by simp
    from run_of_trans[OF Cons.IH[OF this] r] show ?thesis .
  next
    case False
    with Cons.prems c r show ?thesis by simp
  qed
qed

lemma submit_run:
  assumes "leaf_compiles (bs_tasks spec)"
  shows "run_of (coord_step sha m lease faulty) u (snd (snd (submit_handler sha e spec k u)))"
proof -
  have "snd (snd (submit_handler sha e spec k u)) = submit_call sha (ce_txn e k) (ce_now e k) spec u"
    by (simp add: submit_handler_def split: prod.split)
  with step_submit[OF assms] show ?thesis by (metis run_refl run_step)
qed

lemma status_handler_run: "run_of R u (snd (snd (status_handler b full k u)))"
  by (simp add: status_handler_def reading_run)

lemma poll_build_run:
  assumes st: "steady sha m lease faulty e" and call: "poll_build e b i s = Some y"
  shows "run_of (coord_step sha m lease faulty) s (snd y) \<and>
    (fst y = Status_ok \<longrightarrow> (\<exists>bs. get_build b False (co_db (snd y)) = (Status_ok, bs) \<and> \<not> running_reply bs))"
proof -
  let ?R = "coord_step sha m lease faulty"
  let ?P = "\<lambda>e b i s y. steady sha m lease faulty e \<longrightarrow> run_of ?R s (snd y) \<and>
      (fst y = Status_ok \<longrightarrow> (\<exists>bs. get_build b False (co_db (snd y)) = (Status_ok, bs) \<and> \<not> running_reply bs))"
  have "?P e b i s y"
  proof (rule poll_build.raw_induct[of ?P, OF _ call])
    fix f e b i s y
    assume IH: "\<And>b i s ba y. f b i s ba = Some y \<Longrightarrow> ?P b i s ba y"
      and body: "(case stub e (Poll_build i) (status_handler b False) None s of
        (st, bs, s') \<Rightarrow> if st \<noteq> Status_ok then Some (st, s') else if \<not> running_reply bs then Some (st, s') else f e b (i + 1) s') = Some y"
    show "?P e b i s y"
    proof
      assume st: "steady sha m lease faulty e"
      obtain st1 bs s1 where c: "stub e (Poll_build i) (status_handler b False) None s = (st1, bs, s1)" by (metis prod_cases3)
      note r = stub_run[OF st status_handler_run c]
      show "run_of ?R s (snd y) \<and> (fst y = Status_ok \<longrightarrow> (\<exists>bs. get_build b False (co_db (snd y)) = (Status_ok, bs) \<and> \<not> running_reply bs))"
      proof (cases "st1 = Status_ok \<and> running_reply bs")
        case True
        with body c have "f e b (i + 1) s1 = Some y" by simp
        from IH[OF this] st have "run_of ?R s1 (snd y)" "fst y = Status_ok \<longrightarrow> (\<exists>bs. get_build b False (co_db (snd y)) = (Status_ok, bs) \<and> \<not> running_reply bs)"
          by simp_all
        with run_of_trans[OF this(1) r(1)] show ?thesis by blast
      next
        case False
        with body c have y: "y = (st1, s1)" by (auto split: if_splits)
        with False r show ?thesis by (auto simp: status_handler_def)
      qed
    qed
  qed
  with st show ?thesis by blast
qed

section \<open>Fetched outputs\<close>

text \<open>Writes that keep everything, and paths that are not one another's temporary names.\<close>

definition writes_well :: "client_env \<Rightarrow> bool" where
  "writes_well e \<longleftrightarrow> (\<forall>p d. open_ok (fst (ce_write e p d)) \<and> write_ok (fst (ce_write e p d)) \<and> rename_ok (fst (ce_write e p d)) \<and>
     length d \<le> landed (fst (ce_write e p d)) \<and> put_env_ok (ce_write e p d))"

definition apart :: "client_env \<Rightarrow> string set \<Rightarrow> bool" where
  "apart e ps \<longleftrightarrow> (\<forall>p\<in>ps. \<forall>q\<in>ps. \<forall>d. q \<noteq> p @ snd (ce_write e p d))"

lemma write_out_new:
  assumes "writes_well e"
  shows "write_out e p d files p = Some d"
proof -
  have "snd (ce_write e p d) \<noteq> []" using assms by (auto simp: writes_well_def put_env_ok_def tmp_suffix_def)
  then show ?thesis using assms by (simp add: write_out_def write_file_atomic_def writes_well_def Let_def)
qed

lemma write_out_old:
  assumes "q \<noteq> p" "q \<noteq> p @ snd (ce_write e p d)"
  shows "write_out e p d files q = files q"
  using assms by (simp add: write_out_def write_file_atomic_def Let_def)

lemma fetch_output_ok:
  assumes st: "steady sha m lease faulty e" and w: "writes_well e"
    and call: "fetch_output sha e i path name digest s files = (None, files', s')"
  shows "run_of (coord_step sha m lease faulty) s s'"
    and "\<exists>d. files' path = Some d \<and> sha256_hex sha d = digest"
    and "\<exists>d. \<forall>q. q \<noteq> path \<and> q \<noteq> path @ snd (ce_write e path d) \<longrightarrow> files' q = files q"
proof -
  let ?h = "reading (\<lambda>s. get_blob digest (co_cas s))"
  have "run_of (coord_step sha m lease faulty) s s' \<and> (\<exists>d. files' path = Some d \<and> sha256_hex sha d = digest) \<and>
      (\<exists>d. \<forall>q. q \<noteq> path \<and> q \<noteq> path @ snd (ce_write e path d) \<longrightarrow> files' q = files q)" (is ?G)
  proof (cases "case files path of None \<Rightarrow> False | Some d \<Rightarrow> sha256_hex sha d = digest")
    case True
    with call show ?thesis by (auto simp: fetch_output_def run_refl split: option.splits)
  next
    case False
    obtain st1 d s1 where c: "stub e (Get_blob i) ?h [] s = (st1, d, s1)" by (metis prod_cases3)
    have eq: "s' = s1" "files' = write_out e path d files" "sha256_hex sha d = digest"
      using call c False by (simp_all add: fetch_output_def split: if_splits)
    have "run_of (coord_step sha m lease faulty) s s1" by (rule stub_run(1)[OF st _ c]) (simp add: reading_run)
    moreover have "files' path = Some d" unfolding eq by (rule write_out_new[OF w])
    moreover have "\<forall>q. q \<noteq> path \<and> q \<noteq> path @ snd (ce_write e path d) \<longrightarrow> files' q = files q"
      unfolding eq by (simp add: write_out_old)
    ultimately show ?thesis using eq by blast
  qed
  then show "run_of (coord_step sha m lease faulty) s s'" "\<exists>d. files' path = Some d \<and> sha256_hex sha d = digest"
    "\<exists>d. \<forall>q. q \<noteq> path \<and> q \<noteq> path @ snd (ce_write e path d) \<longrightarrow> files' q = files q" by blast+
qed

lemma fetch_outputs_ok:
  assumes st: "steady sha m lease faulty e" and w: "writes_well e"
    and call: "fetch_outputs sha e out sts i fs s files = (None, files', s')"
    and ap: "apart e ((\<lambda>(t, n). out @ ''/'' @ n) ` set fs)" and dist: "distinct (map snd fs)"
  shows "run_of (coord_step sha m lease faulty) s s' \<and>
    (\<forall>(t, n)\<in>set fs. \<exists>d. files' (out @ ''/'' @ n) = Some d \<and> sha256_hex sha d = ts_output (sts ! t)) \<and>
    (\<forall>q. (\<forall>(t, n)\<in>set fs. q \<noteq> out @ ''/'' @ n \<and> (\<forall>d. q \<noteq> out @ ''/'' @ n @ snd (ce_write e (out @ ''/'' @ n) d))) \<longrightarrow> files' q = files q)"
  using call ap dist
proof (induction fs arbitrary: i s files)
  case Nil
  then show ?case by (simp add: run_refl)
next
  case (Cons tn fs)
  obtain t n where tn: "tn = (t, n)" by fastforce
  let ?p = "out @ ''/'' @ n"
  obtain r files1 s1 where f: "fetch_output sha e i ?p n (ts_output (sts ! t)) s files = (r, files1, s1)" by (metis prod_cases3)
  have r: "r = None" using Cons.prems(1) f by (cases r) (simp_all add: tn)
  note one = fetch_output_ok[OF st w f[unfolded r]]
  have "fetch_outputs sha e out sts (i + 1) fs s1 files1 = (None, files', s')" using Cons.prems(1) f by (simp add: tn r)
  from Cons.IH[OF this] Cons.prems(2,3) have IH: "run_of (coord_step sha m lease faulty) s1 s'"
    "\<forall>(t, n)\<in>set fs. \<exists>d. files' (out @ ''/'' @ n) = Some d \<and> sha256_hex sha d = ts_output (sts ! t)"
    "\<And>q. (\<forall>(t, n)\<in>set fs. q \<noteq> out @ ''/'' @ n \<and> (\<forall>d. q \<noteq> out @ ''/'' @ n @ snd (ce_write e (out @ ''/'' @ n) d))) \<Longrightarrow> files' q = files1 q"
    by (auto simp: apart_def)
  have "files' ?p = files1 ?p"
  proof (rule IH(3), clarify)
    fix t' n' assume m: "(t', n') \<in> set fs"
    then have "n' \<noteq> n" using Cons.prems(3) by (force simp: tn)
    moreover have "?p \<noteq> (out @ ''/'' @ n') @ snd (ce_write e (out @ ''/'' @ n') d)" for d
      using Cons.prems(2) m unfolding apart_def tn by force
    ultimately show "?p \<noteq> out @ ''/'' @ n' \<and> (\<forall>d. ?p \<noteq> out @ ''/'' @ n' @ snd (ce_write e (out @ ''/'' @ n') d))" by simp
  qed
  with one(2) have "\<exists>d. files' ?p = Some d \<and> sha256_hex sha d = ts_output (sts ! t)" by simp
  moreover have "files' q = files q"
    if q: "\<forall>(t, n)\<in>set (tn # fs). q \<noteq> out @ ''/'' @ n \<and> (\<forall>d. q \<noteq> out @ ''/'' @ n @ snd (ce_write e (out @ ''/'' @ n) d))" for q
  proof -
    have "files' q = files1 q" using q by (intro IH(3)) simp
    moreover have "files1 q = files q" using one(3) q by (auto simp: tn)
    ultimately show ?thesis by simp
  qed
  ultimately show ?case using run_of_trans[OF IH(1) one(1)] IH(2) by (simp add: tn)
qed

section \<open>The outputs of the targets\<close>

definition target_file :: "target \<Rightarrow> string" where
  "target_file tg = (if is_lib tg then ''lib'' @ tname tg @ ''.a'' else tname tg)"

lemma output_names:
  "map snd (output_files (spec_tasks m ix us)) = map target_file (filter is_lib (targets m) @ filter (\<lambda>t. \<not> is_lib t) (targets m))"
proof -
  let ?L = "filter is_lib (targets m)" and ?B = "filter (\<lambda>t. \<not> is_lib t) (targets m)" and ?g = "compiled us"
  let ?n = "length (gs_tasks ?g)"
  have c: "filter (\<lambda>t. sp_kind t \<noteq> 0) (gs_tasks ?g) = []"
    using compiled_ok[of us] by (force simp: filter_empty_conv compile_state_def)
  have k: "filter (\<lambda>t. sp_kind t \<noteq> 0) (map2 f is xs) = map2 f is xs" if "\<And>i x. sp_kind (f i x) \<noteq> 0" for f :: "nat \<Rightarrow> target \<Rightarrow> task_spec" and "is" xs
    using that by (intro filter_True) auto
  have n: "map snd (output_files ts) = map sp_name (filter (\<lambda>t. sp_kind t \<noteq> 0) ts)" for ts
    by (simp add: output_files_def comp_def)
  have a: "map sp_name (map2 (archive_spec ix (gs_unit_task ?g)) [?n..<?n + length ?L] ?L) = map target_file ?L"
    by (rule map2_const_snd) (simp_all add: target_file_def)
  have l: "map sp_name (map2 (link_spec m ix (gs_unit_task ?g) (lib_names m ?n)) [?n + length ?L..<?n + length ?L + length ?B] ?B) = map target_file ?B"
    by (rule map2_const_snd) (simp_all add: target_file_def)
  show ?thesis unfolding n spec_tasks_eq Let_def filter_append c by (simp del: map_map add: k a l)
qed

lemma output_names_targets:
  "distinct (map snd (output_files (spec_tasks m ix us))) \<longleftrightarrow> distinct (map target_file (targets m))"
  "snd ` set (output_files (spec_tasks m ix us)) = target_file ` set (targets m)"
proof -
  show "distinct (map snd (output_files (spec_tasks m ix us))) \<longleftrightarrow> distinct (map target_file (targets m))"
    unfolding output_names by (rule distinct_map_split)
  have "set (map snd (output_files (spec_tasks m ix us))) = target_file ` set (targets m)"
    unfolding output_names by auto
  then show "snd ` set (output_files (spec_tasks m ix us)) = target_file ` set (targets m)" by simp
qed

lemma output_files_mem:
  assumes "valid_graph (graph_of ts)" "(t, n) \<in> set (output_files ts)"
  shows "t < length ts \<and> sp_name (ts ! t) = n"
proof -
  obtain j where j: "j < length ts" "t = nat (sp_id (ts ! j))" "n = sp_name (ts ! j)"
    using assms(2) by (auto simp: output_files_def in_set_conv_nth)
  moreover have "sp_id (ts ! j) = int j" using assms(1) j(1) by (auto simp: valid_graph_def graph_of_def)
  ultimately show ?thesis by simp
qed

lemma get_build_row:
  assumes "get_build b full db = (Status_ok, r)"
  shows "\<exists>x. r = Some x \<and> (\<exists>q\<in>set (db_builds db). b_id q = b \<and> b_state q = st_state x)"
proof (cases "filter (\<lambda>r. b_id r = b) (db_builds db)")
  case (Cons q qs)
  with filter_head[OF Cons] assms show ?thesis by (auto simp: get_build_def)
qed (use assms in \<open>simp add: get_build_def\<close>)

text \<open>What a finished build leaves behind: every target's task is finished, and the file of the target
  holds the task's output.\<close>

definition built :: "sha_fn \<Rightarrow> string \<Rightarrow> manifest \<Rightarrow> nat \<Rightarrow> fs \<Rightarrow> db \<Rightarrow> bool" where
  "built sha out m b files db \<longleftrightarrow>
     (\<exists>r\<in>set (db_builds db). b_id r = b \<and> b_state r = BDone) \<and>
     (\<forall>tg\<in>set (targets m). \<exists>t\<in>set (db_tasks db). t_build t = b \<and> t_name t = target_file tg \<and> fin (t_state t) \<and>
        (\<exists>d. files (out @ ''/'' @ target_file tg) = Some d \<and> t_output t = Some (sha256_hex sha d)))"

lemma collect_ok:
  assumes env: "steady sha m lease faulty e" "writes_well e" and sound: "coord_sound sha m s"
    and has: "has_tasks b (bs_tasks spec) (co_db s)" and g: "valid_graph (graph_of (bs_tasks spec))"
    and spec: "bs_tasks spec = spec_tasks man ix us"
    and call: "collect sha e root out config us spec b s files = Some (Exits 0, files', s')"
    and dist: "distinct (map target_file (targets man))"
    and ap: "apart e (insert (root @ ''/.dcstate'') ((\<lambda>tg. out @ ''/'' @ target_file tg) ` set (targets man)))"
    and st: "root @ ''/.dcstate'' \<notin> (\<lambda>tg. out @ ''/'' @ target_file tg) ` set (targets man)"
  shows "run_of (coord_step sha m lease faulty) s s'" "built sha out man b files' (co_db s')"
proof -
  let ?R = "coord_step sha m lease faulty" and ?ts = "bs_tasks spec"
  obtain st1 s1 where p: "poll_build e b 0 s = Some (st1, s1)" "st1 = Status_ok"
    using call by (cases "poll_build e b 0 s") (auto simp: collect_def split: if_splits)
  have r1: "run_of ?R s s1" and p1: "\<exists>bs. get_build b False (co_db s1) = (Status_ok, bs) \<and> \<not> running_reply bs"
    using poll_build_run[OF env(1) p(1)] p(2) by auto
  obtain st2 bs s2 where c: "stub e Get_full (status_handler b True) None s1 = (st2, bs, s2)" by (metis prod_cases3)
  have c2: "collect sha e root out config us spec b s files = (case bs of
      Some x \<Rightarrow> if st2 \<noteq> Status_ok then Some (Thrown (''status: '' @ status_message st2), files, s2)
        else if st_state x = BFailed then Some (Exits 1, save_state e root config us files, s2)
        else (case fetch_outputs sha e out (st_tasks x) 0 (output_files (bs_tasks spec)) s2 files of
                (Some msg, files', s3) \<Rightarrow> Some (Thrown msg, files', s3)
              | (None, files', s3) \<Rightarrow> Some (Exits 0, save_state e root config us files', s3))
    | None \<Rightarrow> Some (Thrown (''status: '' @ status_message st2), files, s2))"
    unfolding collect_def p using p(2) c by simp
  obtain x where x: "bs = Some x" "st2 = Status_ok" "st_state x \<noteq> BFailed"
    using call unfolding c2 by (cases bs) (auto split: if_splits)
  obtain r files1 s3 where f: "fetch_outputs sha e out (st_tasks x) 0 (output_files ?ts) s2 files = (r, files1, s3)" by (metis prod_cases3)
  have f1: "r = None" "s' = s3" "files' = save_state e root config us files1"
    using call x f unfolding c2 by (auto split: option.splits)
  note r2 = stub_run[OF env(1) status_handler_run c]
  have full: "get_build b True (co_db s2) = (Status_ok, Some x)" using r2(2)[OF x(2)] x(1) by (auto simp: status_handler_def)
  have names: "(\<lambda>(t, n). out @ ''/'' @ n) ` set (output_files ?ts) = (\<lambda>tg. out @ ''/'' @ target_file tg) ` set (targets man)"
    using output_names_targets(2)[of man ix us] unfolding spec by (simp add: case_prod_beta) (metis image_image)
  have "apart e ((\<lambda>(t, n). out @ ''/'' @ n) ` set (output_files ?ts))" using ap unfolding names by (auto simp: apart_def)
  moreover have "distinct (map snd (output_files ?ts))" using dist by (simp add: spec output_names_targets(1))
  ultimately have fo: "run_of ?R s2 s3"
    "\<forall>(t, n)\<in>set (output_files ?ts). \<exists>d. files1 (out @ ''/'' @ n) = Some d \<and> sha256_hex sha d = ts_output (st_tasks x ! t)"
    using fetch_outputs_ok[OF env f[unfolded f1(1)]] by blast+
  have r12: "run_of ?R s s2" by (rule run_of_trans[OF r2(1) r1])
  show "run_of ?R s s'" unfolding f1(2) by (rule run_of_trans[OF fo(1) r12])
  have s2: "coord_sound sha m s2" "evolves (co_db s) (co_db s2)" using run_evolves[OF r12 sound] by blast+
  have has2: "has_tasks b ?ts (co_db s2)" by (rule has_tasks_evolves[OF has s2(2)])
  note fs = full_status[OF s2(1) has2 full]
  have ev3: "evolves (co_db s2) (co_db s')" using run_evolves[OF fo(1) s2(1)] f1(2) by simp
  obtain q where q: "q \<in> set (db_builds (co_db s2))" "b_id q = b" "b_state q = st_state x" using fs(1) by blast
  obtain q1 where q1: "q1 \<in> set (db_builds (co_db s1))" "b_id q1 = b" "b_state q1 \<noteq> BRunning"
    using p1 get_build_row by (fastforce simp: running_reply_def)
  have "evolves (co_db s1) (co_db s2)" using run_evolves[OF r2(1)] run_evolves[OF r1 sound] by blast
  with q1 have q2: "q1 \<in> set (db_builds (co_db s2))" unfolding evolves_def by metis
  obtain X where con: "consistent sha m (stored_hashes (co_cas s2)) {} X {} (co_db s2)" using s2(1) by (auto simp: coord_sound_def)
  have "distinct (map b_id (db_builds (co_db s2)))" using consistentD(1)[OF con] by (simp add: keys_ok_def)
  then have "inj_on b_id (set (db_builds (co_db s2)))" by (simp add: distinct_map)
  then have "q = q1" using q(1,2) q1(2) q2 by (simp add: inj_onD)
  then have settled: "b_state q = BDone" using q1(3) q(3) x(3) by (cases "b_state q") auto
  have allfin: "fin (t_state t)" if "t \<in> set (db_tasks (co_db s2))" "t_build t = b" for t
    using consistent_verdict(2)[OF con q(1)] settled verdict_cases(2)[of b "co_db s2"] q(2) that by simp
  show "built sha out man b files' (co_db s')"
    unfolding built_def
  proof (intro conjI ballI)
    show "\<exists>r\<in>set (db_builds (co_db s')). b_id r = b \<and> b_state r = BDone"
      using ev3 q(1,2) settled unfolding evolves_def by (metis bstate.distinct(1))
  next
    fix tg assume tg: "tg \<in> set (targets man)"
    then obtain t where o: "(t, target_file tg) \<in> set (output_files ?ts)"
      using output_names_targets(2)[of man ix us] unfolding spec by (metis imageE imageI prod.collapse)
    show "\<exists>t\<in>set (db_tasks (co_db s')). t_build t = b \<and> t_name t = target_file tg \<and> fin (t_state t) \<and>
        (\<exists>d. files' (out @ ''/'' @ target_file tg) = Some d \<and> t_output t = Some (sha256_hex sha d))"
    proof -
      have tn: "t < length ?ts" "sp_name (?ts ! t) = target_file tg" using output_files_mem[OF g o] by simp_all
      obtain u where u: "u \<in> set (db_tasks (co_db s2))" "t_build u = b" "t_name u = target_file tg" "st_tasks x ! t = status_of u"
        using fs(2)[OF tn(1)] tn(2) by auto
      have uf: "fin (t_state u)" by (rule allfin[OF u(1,2)])
      then obtain h where h: "t_output u = Some h" using consistentD(5)[OF con u(1)] by (auto simp: task_ok_def)
      obtain d where d: "files1 (out @ ''/'' @ target_file tg) = Some d" "sha256_hex sha d = h"
        using bspec[OF fo(2) o] u(4) h by (auto simp: status_of_def text_of_def)
      have "files' (out @ ''/'' @ target_file tg) = files1 (out @ ''/'' @ target_file tg)"
        unfolding f1(3) save_state_def
      proof (rule write_out_old)
        show "out @ ''/'' @ target_file tg \<noteq> root @ ''/.dcstate''" using st tg by (metis (no_types, lifting) imageI)
        show "out @ ''/'' @ target_file tg \<noteq> (root @ ''/.dcstate'') @ snd (ce_write e (root @ ''/.dcstate'') d)" for d
          using ap tg unfolding apart_def by blast
      qed
      moreover have "u \<in> set (db_tasks (co_db s'))" using ev3 u(1) uf unfolding evolves_def terminal_def fin_def by metis
      ultimately show ?thesis using u(2,3) uf h d by auto
    qed
  qed
qed

text \<open>Everything before the build was submitted.\<close>

lemma upload_and_submit_ok:
  assumes env: "steady sha m lease faulty e" and sound: "coord_sound sha m s"
    and call: "upload_and_submit sha e root man tc parts us s = (Inr (us', spec, b), s')"
  shows "run_of (coord_step sha m lease faulty) s s'" "has_tasks b (bs_tasks spec) (co_db s')" "valid_graph (graph_of (bs_tasks spec))"
    and "bs_tasks spec = spec_tasks man (snd (make_units man tc)) us'"
proof -
  let ?R = "coord_step sha m lease faulty"
  obtain st1 cached s1 where c1: "stub e Check_cache (reading (\<lambda>s. (Status_ok, check_cache (map u_key us) (co_db s)))) [] s = (st1, cached, s1)"
    by (metis prod_cases3)
  define us1 where "us1 = map (refresh sha (ce_run e) (ce_stat e) root cached) us"
  define need where "need = map (refresh sha (ce_run e) (ce_stat e) root cached) (filter (need_unit cached) us)"
  obtain st2 missing s2 where c2: "stub e Find_missing (reading (\<lambda>s. (Status_ok, find_missing (map u_digest need) (co_cas s)))) [] s1 = (st2, missing, s2)"
    by (metis prod_cases3)
  obtain st3 s3 where c3: "send_batches sha e 0 (batches need missing) s2 = (st3, s3)" by fastforce
  define sp where "sp = build_request man tc parts (snd (make_units man tc)) us1"
  obtain st4 rep s4 where c4: "stub e Submit_build (submit_handler sha e sp) \<lparr>sr_build = 0, sr_cached = 0\<rparr> s3 = (st4, rep, s4)"
    by (metis prod_cases3)
  note eqs = c1 us1_def[symmetric] need_def[symmetric] c2 c3 sp_def[symmetric] c4
  have ok: "st1 = Status_ok" "st2 = Status_ok" "st3 = Status_ok" "st4 = Status_ok" and eq: "us' = us1" "spec = sp" "b = sr_build rep" "s' = s4"
    using call by (auto simp: upload_and_submit_def Let_def eqs split: if_splits)
  have leaf: "leaf_compiles (bs_tasks sp)" by (simp add: sp_def build_request_def spec_tasks_leaf)
  have "run_of ?R s s1" "run_of ?R s1 s2" by (rule stub_run(1)[OF env reading_run c1], rule stub_run(1)[OF env reading_run c2])
  then have "run_of ?R s s2" by (rule run_of_trans[rotated])
  then have r3: "run_of ?R s s3" by (rule run_of_trans[OF send_batches_run[OF env c3]])
  note r4 = stub_run[OF env submit_run[OF leaf] c4]
  show "run_of ?R s s'" unfolding eq by (rule run_of_trans[OF r4(1) r3])
  obtain k u where u: "run_of ?R s3 u" "submit_handler sha e sp k u = (Status_ok, rep, s4)" using r4(2)[OF ok(4)] by blast
  then obtain db' where sb: "submit_build sha (co_cas u) (ce_txn e k) (ce_now e k) sp (co_db u) = (Status_ok, rep, db')" "co_db s4 = db'"
    by (auto simp: submit_handler_def submit_call_def wake_workers_def split: prod.splits)
  have "coord_sound sha m u" using run_evolves[OF run_of_trans[OF u(1) r3] sound] by blast
  from submit_has_tasks[OF this leaf sb(1)] submit_build_rows(1)[OF this leaf sb(1)] sb(2)
  show "has_tasks b (bs_tasks spec) (co_db s')" "valid_graph (graph_of (bs_tasks spec))" by (simp_all add: eq)
  show "bs_tasks spec = spec_tasks man (snd (make_units man tc)) us'" by (simp add: eq sp_def build_request_def)
qed

text \<open>What \<open>main\<close> needs of the surroundings for the files it writes.\<close>

definition files_apart :: "client_env \<Rightarrow> string \<Rightarrow> string \<Rightarrow> manifest \<Rightarrow> bool" where
  "files_apart e root out man \<longleftrightarrow>
     distinct (map target_file (targets man)) \<and>
     apart e (insert (root @ ''/.dcstate'') ((\<lambda>tg. out @ ''/'' @ target_file tg) ` set (targets man))) \<and>
     root @ ''/.dcstate'' \<notin> (\<lambda>tg. out @ ''/'' @ target_file tg) ` set (targets man)"

lemma dcc_build_ok:
  assumes env: "steady sha m lease faulty e" "writes_well e" and sound: "coord_sound sha m s"
    and man: "load_manifest (ce_glob e) files root = Inr man" "files_apart e root out man"
    and call: "dcc_build sha e root out parts files s = Some (Exits 0, files', s')"
  shows "\<exists>b. built sha out man b files' (co_db s')" "run_of (coord_step sha m lease faulty) s s'"
proof -
  let ?tc = "toolchain_id (ce_run e) (cc man)" and ?us = "prepare_units sha e root man (toolchain_id (ce_run e) (cc man)) files"
  obtain r s1 where up: "upload_and_submit sha e root man ?tc parts ?us s = (r, s1)" by fastforce
  obtain us' spec b where r: "r = Inr (us', spec, b)"
    and col: "collect sha e root out (config_id sha ?tc man) us' spec b s1 files = Some (Exits 0, files', s')"
    using call man(1) up by (cases r) (auto simp: dcc_build_def Let_def split: if_splits)
  note u = upload_and_submit_ok[OF env(1) sound up[unfolded r]]
  have "coord_sound sha m s1" using run_evolves[OF u(1) sound] by blast
  from collect_ok[OF env this u(2,3,4) col] man(2) run_of_trans[OF _ u(1)]
  show "\<exists>b. built sha out man b files' (co_db s')" "run_of (coord_step sha m lease faulty) s s'"
    by (auto simp: files_apart_def)
qed

end
