(* ===== verification/Dc_Main.thy ===== *)
theory Dc_Main
  imports Dc_Build
begin

text \<open>
  The three programs around their parts: the option loops of the \<open>main\<close> functions of \<open>dcc.cpp\<close>,
  \<open>worker.cpp\<close> and \<open>coordinator.cpp\<close>, what \<open>dcc\<close> does with an exception, and how long the coordinator
  tries to reach its database. An argument list is \<open>argv\<close> without the program's name. \<open>atoi\<close> on a
  number beyond \<open>int\<close> is undefined in C and left unbounded here; \<open>atof\<close> is a parameter.
\<close>

section \<open>Option loops\<close>

text \<open>How the loop ends: with options, with a value missing (exit 1), or with the usage text.\<close>

datatype 'o cli = Parsed 'o | Needs_value string | Usage_text int

definition atoi :: "string \<Rightarrow> int" where
  "atoi s =
     (let (neg, r) = split_sign (dropWhile is_space s); x = int (digits_value (takeWhile is_digit r))
      in if neg then - x else x)"

text \<open>The shape the three loops share: an option with a value, a flag, or something else, which ends the
  loop or goes on. \<open>valued a\<close> is the effect of option \<open>a\<close> on its value, if it takes one.\<close>

fun option_loop :: "(string \<Rightarrow> (string \<Rightarrow> 'o \<Rightarrow> 'o) option) \<Rightarrow> (string \<Rightarrow> 'o \<Rightarrow> 'o cli + 'o) \<Rightarrow> string list \<Rightarrow> 'o \<Rightarrow> 'o cli" where
  "option_loop valued other [] opts = Parsed opts"
| "option_loop valued other [a] opts =
     (case valued a of
        Some f \<Rightarrow> Needs_value a
      | None \<Rightarrow> (case other a opts of Inl r \<Rightarrow> r | Inr opts' \<Rightarrow> Parsed opts'))"
| "option_loop valued other (a # v # rest) opts =
     (case valued a of
        Some f \<Rightarrow> option_loop valued other rest (f v opts)
      | None \<Rightarrow> (case other a opts of Inl r \<Rightarrow> r | Inr opts' \<Rightarrow> option_loop valued other (v # rest) opts'))"

section \<open>\<open>GetStats\<close>\<close>

text \<open>The counters in the order of their names, and the memory of the process as a counter of its own.\<close>

record 'd stat_line =
  sl_name :: string
  sl_count :: int
  sl_ms :: 'd
  sl_bytes :: int

definition stats_reply :: "'d \<Rightarrow> int \<Rightarrow> (string \<times> 'd stat_entry) list \<Rightarrow> 'd stat_line list" where
  "stats_reply zero rss snap =
     map (\<lambda>(name, x). \<lparr>sl_name = name, sl_count = s_count x, sl_ms = s_ms x, sl_bytes = s_bytes x\<rparr>) snap @
     [\<lparr>sl_name = ''mem.peak_rss_kb'', sl_count = 1, sl_ms = zero, sl_bytes = rss\<rparr>]"

text \<open>\<open>dcc stats\<close>: the exit code, and the table it prints, one line per counter with its average.\<close>

definition show_stats :: "'d \<Rightarrow> ('d \<Rightarrow> int \<Rightarrow> 'd) \<Rightarrow> rpc_status \<Rightarrow> 'd stat_line list \<Rightarrow> nat \<times> (string \<times> int \<times> 'd \<times> 'd \<times> int) list" where
  "show_stats zero quot st ls =
     (if st \<noteq> Status_ok then (1, [])
      else (0, map (\<lambda>x. (sl_name x, sl_count x, sl_ms x, if sl_count x \<noteq> 0 then quot (sl_ms x) (sl_count x) else zero, sl_bytes x)) ls))"

section \<open>\<open>dcc\<close>\<close>

record dcc_options =
  do_cmd :: string
  do_root :: string
  do_addr :: string
  do_out :: string
  do_json :: string
  do_jobs :: int
  do_partitions :: int
  do_stats :: bool

definition dcc_defaults :: "string option \<Rightarrow> dcc_options" where
  "dcc_defaults env =
     \<lparr>do_cmd = [], do_root = ''.'', do_addr = (case env of Some e \<Rightarrow> e | None \<Rightarrow> ''localhost:7070''), do_out = ''out'', do_json = [],
      do_jobs = 0, do_partitions = 0, do_stats = False\<rparr>"

definition dcc_valued :: "string \<Rightarrow> (string \<Rightarrow> dcc_options \<Rightarrow> dcc_options) option" where
  "dcc_valued a =
     (if a = ''-C'' then Some (\<lambda>v. do_root_update (\<lambda>_. v))
      else if a = ''--coordinator'' then Some (\<lambda>v. do_addr_update (\<lambda>_. v))
      else if a = ''--out'' then Some (\<lambda>v. do_out_update (\<lambda>_. v))
      else if a = ''-j'' then Some (\<lambda>v. do_jobs_update (\<lambda>_. atoi v))
      else if a = ''--partitions'' then Some (\<lambda>v. do_partitions_update (\<lambda>_. atoi v))
      else if a = ''--json'' then Some (\<lambda>v. do_json_update (\<lambda>_. v))
      else None)"

text \<open>\<open>a[0]\<close> of the empty argument is the terminating zero, not a dash.\<close>

definition dcc_other :: "string \<Rightarrow> dcc_options \<Rightarrow> dcc_options cli + dcc_options" where
  "dcc_other a opts =
     (if a = ''--stats'' then Inr (opts\<lparr>do_stats := True\<rparr>)
      else if do_cmd opts = [] \<and> (a = [] \<or> hd a \<noteq> CHR ''-'') then Inr (opts\<lparr>do_cmd := a\<rparr>)
      else Inl (Parsed (opts\<lparr>do_cmd := ''help''\<rparr>)))"

definition dcc_args :: "string option \<Rightarrow> string list \<Rightarrow> dcc_options cli" where
  "dcc_args env args = option_loop dcc_valued dcc_other args (dcc_defaults env)"

definition output_dir :: "dcc_options \<Rightarrow> string" where
  "output_dir opts = (if do_out opts = ''out'' then do_root opts @ ''/out'' else do_out opts)"

text \<open>The exit code: an exception of the command is 1, so is everything but \<open>build\<close> and \<open>stats\<close>; \<open>stats\<close> is
  what \<open>with_retry\<close> answered for \<open>GetStats\<close>.\<close>

definition dcc_main :: "sha_fn \<Rightarrow> client_env \<Rightarrow> (dcc_options \<Rightarrow> rpc_status \<times> 'd stat_line list) \<Rightarrow> 'd \<Rightarrow> ('d \<Rightarrow> int \<Rightarrow> 'd) \<Rightarrow> string option \<Rightarrow> string list \<Rightarrow> fs \<Rightarrow> coord \<Rightarrow> (nat \<times> fs \<times> coord) option" where
  "dcc_main sha e stats zero quot env args files s =
     (case dcc_args env args of
        Parsed opts \<Rightarrow>
          if do_cmd opts = ''build'' then
            map_option (\<lambda>(r, files', s'). (case r of Exits n \<Rightarrow> n | Thrown _ \<Rightarrow> 1, files', s'))
              (dcc_build sha e (do_root opts) (output_dir opts) (do_partitions opts) files s)
          else if do_cmd opts = ''stats'' then Some (case stats opts of (st, ls) \<Rightarrow> fst (show_stats zero quot st ls), files, s)
          else Some (1, files, s)
      | _ \<Rightarrow> Some (1, files, s))"

section \<open>\<open>dc-worker\<close> and \<open>dc-coordinator\<close>\<close>

record 'd worker_options =
  wo_addr :: string
  wo_id :: string
  wo_slots :: int
  wo_cache :: string
  wo_driver :: string
  wo_fail_rate :: 'd
  wo_crash_after :: int

definition worker_defaults :: "'d \<Rightarrow> string \<Rightarrow> int \<Rightarrow> 'd worker_options" where
  "worker_defaults zero host pid =
     \<lparr>wo_addr = ''localhost:7070'', wo_id = host @ ''-'' @ to_string pid, wo_slots = 2, wo_cache = ''/tmp/dc-worker-cache'', wo_driver = ''gcc'',
      wo_fail_rate = zero, wo_crash_after = 0\<rparr>"

definition worker_valued :: "(string \<Rightarrow> 'd) \<Rightarrow> string \<Rightarrow> (string \<Rightarrow> 'd worker_options \<Rightarrow> 'd worker_options) option" where
  "worker_valued atof a =
     (if a = ''--coordinator'' then Some (\<lambda>v. wo_addr_update (\<lambda>_. v))
      else if a = ''--id'' then Some (\<lambda>v. wo_id_update (\<lambda>_. v))
      else if a = ''--slots'' then Some (\<lambda>v. wo_slots_update (\<lambda>_. max 1 (atoi v)))
      else if a = ''--cache'' then Some (\<lambda>v. wo_cache_update (\<lambda>_. v))
      else if a = ''--driver'' then Some (\<lambda>v. wo_driver_update (\<lambda>_. v))
      else if a = ''--fail-rate'' then Some (\<lambda>v. wo_fail_rate_update (\<lambda>_. atof v))
      else if a = ''--crash-after'' then Some (\<lambda>v. wo_crash_after_update (\<lambda>_. atoi v))
      else None)"

definition usage_exit :: "string \<Rightarrow> int" where
  "usage_exit a = (if a = ''-h'' \<or> a = ''--help'' then 0 else 1)"

definition worker_args :: "(string \<Rightarrow> 'd) \<Rightarrow> 'd worker_options \<Rightarrow> string list \<Rightarrow> 'd worker_options cli" where
  "worker_args atof defaults args = option_loop (worker_valued atof) (\<lambda>a opts. Inl (Usage_text (usage_exit a))) args defaults"

record coord_options =
  co_listen :: string
  co_dbname :: string
  co_casdir :: string
  co_lease :: int
  co_attempts :: int
  co_pool :: int
  co_durable :: bool

definition coord_defaults :: "string option \<Rightarrow> coord_options" where
  "coord_defaults env =
     \<lparr>co_listen = ''0.0.0.0:7070'', co_dbname = (case env of Some e \<Rightarrow> e | None \<Rightarrow> ''host=localhost dbname=distcompile user=postgres''),
      co_casdir = ''/var/lib/distcompile/cas'', co_lease = 20, co_attempts = 3, co_pool = 8, co_durable = False\<rparr>"

definition coord_valued :: "string \<Rightarrow> (string \<Rightarrow> coord_options \<Rightarrow> coord_options) option" where
  "coord_valued a =
     (if a = ''--listen'' then Some (\<lambda>v. co_listen_update (\<lambda>_. v))
      else if a = ''--db'' then Some (\<lambda>v. co_dbname_update (\<lambda>_. v))
      else if a = ''--cas'' then Some (\<lambda>v. co_casdir_update (\<lambda>_. v))
      else if a = ''--lease'' then Some (\<lambda>v. co_lease_update (\<lambda>_. atoi v))
      else if a = ''--max-attempts'' then Some (\<lambda>v. co_attempts_update (\<lambda>_. atoi v))
      else if a = ''--db-pool'' then Some (\<lambda>v. co_pool_update (\<lambda>_. atoi v))
      else None)"

definition coord_other :: "string \<Rightarrow> coord_options \<Rightarrow> coord_options cli + coord_options" where
  "coord_other a opts = (if a = ''--durable'' then Inr (opts\<lparr>co_durable := True\<rparr>) else Inl (Usage_text (usage_exit a)))"

definition coord_args :: "string option \<Rightarrow> string list \<Rightarrow> coord_options cli" where
  "coord_args env args = option_loop coord_valued coord_other args (coord_defaults env)"

definition connection_info :: "coord_options \<Rightarrow> string" where
  "connection_info opts =
     co_dbname opts @ (if co_durable opts then [] else '' options='' @ [CHR 0x27] @ ''-c synchronous_commit=off'' @ [CHR 0x27])"

text \<open>The service is set up again until it works, at most 31 times: the number of attempts made, or the
  last exception.\<close>

function start_service :: "(nat \<Rightarrow> string option) \<Rightarrow> nat \<Rightarrow> string + nat" where
  "start_service fails i =
     (case fails i of
        None \<Rightarrow> Inr (i + 1)
      | Some msg \<Rightarrow> if i \<ge> 30 then Inl msg else start_service fails (i + 1))"
  by pat_completeness auto
termination by (relation "measure (\<lambda>(fails, i). 31 - i)") auto

declare start_service.simps [simp del]

section \<open>Facts\<close>

text \<open>Exit code 0 means that the command was done.\<close>

lemma dcc_main_zero:
  assumes "dcc_main sha e stats zero quot env args files s = Some (0, files', s')"
  shows "\<exists>opts. dcc_args env args = Parsed opts \<and>
    (do_cmd opts = ''build'' \<and> dcc_build sha e (do_root opts) (output_dir opts) (do_partitions opts) files s = Some (Exits 0, files', s') \<or>
     do_cmd opts = ''stats'' \<and> fst (stats opts) = Status_ok \<and> files' = files \<and> s' = s)"
  using assms
  by (auto simp: dcc_main_def show_stats_def split: cli.splits if_splits prod.splits outcome.splits) (metis outcome.exhaust)

text \<open>What every option keeps, the loop keeps.\<close>

lemma option_loop_keeps:
  assumes "option_loop valued other args opts = Parsed opts'" "P opts"
    and "\<And>a f v opts. valued a = Some f \<Longrightarrow> P opts \<Longrightarrow> P (f v opts)"
    and "\<And>a opts opts'. other a opts = Inr opts' \<or> other a opts = Inl (Parsed opts') \<Longrightarrow> P opts \<Longrightarrow> P opts'"
  shows "P opts'"
  using assms
proof (induction valued other args opts rule: option_loop.induct)
  case (1 valued other opts)
  then show ?case by simp
next
  case (2 valued other a opts)
  show ?case using 2(1,2) 2(4)[of a opts opts'] by (cases "valued a"; cases "other a opts") auto
next
  case (3 valued other a v rest opts)
  show ?case
  proof (cases "valued a")
    case (Some f)
    show ?thesis by (rule 3(2)[OF Some]) (use 3(3-6) Some in auto)
  next
    case None
    show ?thesis
    proof (cases "other a opts")
      case (Inl r)
      with 3(3,4,6) None show ?thesis by auto
    next
      case (Inr opts2)
      have p: "P opts2" using 3(6)[of a opts opts2] Inr 3(4) by blast
      have o: "option_loop valued other (v # rest) opts2 = Parsed opts'" using 3(3) None Inr by simp
      show ?thesis by (rule 3(1)[OF None Inr o p]) (fact 3(5), fact 3(6))
    qed
  qed
qed

text \<open>A worker always has a slot.\<close>

lemma worker_has_slots:
  assumes "worker_args atof defaults args = Parsed opts" "1 \<le> wo_slots defaults"
  shows "1 \<le> wo_slots opts"
  using assms unfolding worker_args_def
  by (rule option_loop_keeps) (auto simp: worker_valued_def split: if_splits)

lemma atoi_to_string: "atoi (to_string i) = i"
proof -
  obtain ds where ds: "split_sign (to_string i @ []) = (i < 0, ds @ [])" "list_all is_digit ds" "int (digits_value ds) = \<bar>i\<bar>"
    using to_string_parts[of i "[]"] by metis
  have "takeWhile is_digit ds = ds" using ds(2) by (simp add: list_all_iff)
  with ds to_string_skip[of i "[]"] show ?thesis by (simp add: atoi_def Let_def del: takeWhile_eq_all_conv)
qed

text \<open>The command line of given options is read back as these options.\<close>

definition dcc_line :: "dcc_options \<Rightarrow> string list" where
  "dcc_line opts =
     [do_cmd opts, ''-C'', do_root opts, ''--coordinator'', do_addr opts, ''--out'', do_out opts, ''-j'', to_string (do_jobs opts),
      ''--partitions'', to_string (do_partitions opts), ''--json'', do_json opts] @ (if do_stats opts then [''--stats''] else [])"

lemma dcc_valued_simps:
  "dcc_valued ''-C'' = Some (\<lambda>v. do_root_update (\<lambda>_. v))" "dcc_valued ''--coordinator'' = Some (\<lambda>v. do_addr_update (\<lambda>_. v))"
  "dcc_valued ''--out'' = Some (\<lambda>v. do_out_update (\<lambda>_. v))" "dcc_valued ''-j'' = Some (\<lambda>v. do_jobs_update (\<lambda>_. atoi v))"
  "dcc_valued ''--partitions'' = Some (\<lambda>v. do_partitions_update (\<lambda>_. atoi v))" "dcc_valued ''--json'' = Some (\<lambda>v. do_json_update (\<lambda>_. v))"
  "dcc_valued ''--stats'' = None" "c \<noteq> CHR ''-'' \<Longrightarrow> dcc_valued (c # cs) = None"
  by (simp_all add: dcc_valued_def)

lemma dcc_args_line:
  assumes "do_cmd opts \<noteq> []" "hd (do_cmd opts) \<noteq> CHR ''-''"
  shows "dcc_args env (dcc_line opts) = Parsed opts"
proof -
  obtain c cs where c: "do_cmd opts = c # cs" "c \<noteq> CHR ''-''" using assms by (cases "do_cmd opts") auto
  let ?o = "\<lparr>do_cmd = c # cs, do_root = do_root opts, do_addr = do_addr opts, do_out = do_out opts, do_json = do_json opts,
      do_jobs = do_jobs opts, do_partitions = do_partitions opts, do_stats = False\<rparr>"
  have cmd: "dcc_other (c # cs) (dcc_defaults env) = Inr ((dcc_defaults env)\<lparr>do_cmd := c # cs\<rparr>)"
    using c(2) by (auto simp: dcc_other_def dcc_defaults_def)
  have st: "dcc_other ''--stats'' o1 = Inr (o1\<lparr>do_stats := True\<rparr>)" for o1 by (simp add: dcc_other_def)
  have "dcc_args env (dcc_line opts) = option_loop dcc_valued dcc_other (if do_stats opts then [''--stats''] else []) ?o"
    unfolding dcc_args_def dcc_line_def c(1) append_Cons append_Nil option_loop.simps dcc_valued_simps(8)[OF c(2)] option.case cmd sum.case
    by (simp only: option_loop.simps dcc_valued_simps option.case atoi_to_string) (simp add: dcc_defaults_def)
  also have "\<dots> = Parsed (?o\<lparr>do_stats := do_stats opts\<rparr>)" by (simp add: dcc_valued_simps st)
  also have "?o\<lparr>do_stats := do_stats opts\<rparr> = opts" using c(1) by (cases opts) simp
  finally show ?thesis .
qed

text \<open>An output directory that is called \<open>out\<close> is not the one asked for, when the root is another one.\<close>

lemma out_named_out:
  "\<exists>opts. dcc_args env [''build'', ''-C'', ''p'', ''--out'', ''out''] = Parsed opts \<and> output_dir opts = ''p/out''"
  by (simp add: dcc_args_def dcc_valued_def dcc_other_def dcc_defaults_def output_dir_def)

lemma start_service_spec:
  assumes "i \<le> 30"
  shows "case start_service fails i of
      Inr n \<Rightarrow> i < n \<and> n \<le> 31 \<and> fails (n - 1) = None \<and> (\<forall>j. i \<le> j \<and> j < n - 1 \<longrightarrow> fails j \<noteq> None)
    | Inl msg \<Rightarrow> fails 30 = Some msg \<and> (\<forall>j. i \<le> j \<and> j \<le> 30 \<longrightarrow> fails j \<noteq> None)"
  using assms
proof (induction fails i rule: start_service.induct)
  case (1 fails i)
  show ?case
  proof (cases "fails i")
    case None
    with 1(2) show ?thesis by (auto simp: start_service.simps[of fails i])
  next
    case (Some msg)
    show ?thesis
    proof (cases "i = 30")
      case True
      with Some have "start_service fails i = Inl msg" by (simp add: start_service.simps[of fails 30])
      with Some True show ?thesis by auto
    next
      case False
      have le: "(i \<le> j) = (j = i \<or> i + 1 \<le> j)" for j by auto
      have "start_service fails i = start_service fails (i + 1)" using Some False 1(2) by (simp add: start_service.simps[of fails i])
      with 1(1)[OF Some] False 1(2) Some show ?thesis by (auto simp: le split: sum.splits)
    qed
  qed
qed

end
