(* ===== verification/Dc_Conn.thy ===== *)
theory Dc_Conn
  imports Dc_Db
begin

text \<open>
  The connections of \<open>src/db.cpp:9-63\<close>: opening one, what \<open>exec\<close> makes of a result of libpq, the script that
  sets up the schema, and the pool's constructor; then the constructor of the coordinator's service, which
  needs a first connection from the pool (\<open>src/coordinator.cpp:74-78\<close>). What the server answers is a parameter.
  The lemmas show which rows the callers see, and when the service starts, throws or waits for ever.
\<close>

section \<open>Results\<close>

text \<open>An answer with its rows (none for a command), SQL \<open>NULL\<close> as \<open>None\<close>; or an error with its SQLSTATE, if it
  has one, and its message.\<close>

datatype pg_result = Answered "string option list list" | Refused "string option" string

record rows =
  rows_v :: "string list list"
  rows_null :: "bool list list"

definition conn_exec :: "string \<Rightarrow> pg_result \<Rightarrow> db_error + rows" where
  "conn_exec tag res =
     (case res of
        Refused code msg \<Rightarrow> Inl \<lparr>de_message = tag @ '': '' @ msg, de_state = (case code of Some c \<Rightarrow> c | None \<Rightarrow> [])\<rparr>
      | Answered vs \<Rightarrow> Inr \<lparr>rows_v = map (map (\<lambda>x. case x of Some s \<Rightarrow> s | None \<Rightarrow> [])) vs,
                           rows_null = map (map (\<lambda>x. x = None)) vs\<rparr>)"

text \<open>\<open>at\<close> and \<open>is_null\<close> do not check their indices: \<open>None\<close> is an access that is not there.\<close>

definition rows_at :: "rows \<Rightarrow> nat \<Rightarrow> nat \<Rightarrow> string option" where
  "rows_at rs i j = (if i < length (rows_v rs) \<and> j < length (rows_v rs ! i) then Some (rows_v rs ! i ! j) else None)"

definition rows_is_null :: "rows \<Rightarrow> nat \<Rightarrow> nat \<Rightarrow> bool option" where
  "rows_is_null rs i j = (if i < length (rows_null rs) \<and> j < length (rows_null rs ! i) then Some (rows_null rs ! i ! j) else None)"

definition exec_script :: "pg_result \<Rightarrow> db_error option" where
  "exec_script res = (case res of Refused code msg \<Rightarrow> Some \<lparr>de_message = ''script: '' @ msg, de_state = []\<rparr> | Answered vs \<Rightarrow> None)"

section \<open>Opening connections\<close>

text \<open>\<open>connect i\<close> is the error of the \<open>i\<close>-th attempt, \<open>None\<close> if it works.\<close>

definition new_conn :: "string option \<Rightarrow> db_error option" where
  "new_conn failure = map_option (\<lambda>m. \<lparr>de_message = ''connect: '' @ m, de_state = []\<rparr>) failure"

fun open_conns :: "(nat \<Rightarrow> string option) \<Rightarrow> nat \<Rightarrow> nat \<Rightarrow> bool list \<Rightarrow> db_error + bool list" where
  "open_conns connect i 0 opened = Inr opened"
| "open_conns connect i (Suc n) opened =
     (case new_conn (connect i) of Some e \<Rightarrow> Inl e | None \<Rightarrow> open_conns connect (i + 1) n (opened @ [True]))"

definition new_pool :: "(nat \<Rightarrow> string option) \<Rightarrow> int \<Rightarrow> db_error + pool" where
  "new_pool connect conns =
     (case open_conns connect 0 (nat conns) [] of Inl e \<Rightarrow> Inl e | Inr cs \<Rightarrow> Inr \<lparr>idle = cs, leased = 0\<rparr>)"

text \<open>The constructor of the service: the pool, one connection from it (opened once more when it
  broke meanwhile: \<open>again\<close>), the schema.\<close>

datatype service_start = Started pool | Start_throws string | Start_waits

definition new_service :: "(nat \<Rightarrow> string option) \<Rightarrow> int \<Rightarrow> string option \<Rightarrow> pg_result \<Rightarrow> service_start" where
  "new_service connect conns again script =
     (case new_pool connect conns of
        Inl e \<Rightarrow> Start_throws (de_message e)
      | Inr p \<Rightarrow>
          (case pool_get (again = None) p of
             Blocked \<Rightarrow> Start_waits
           | Get_throws p' \<Rightarrow> Start_throws (''connect: '' @ (case again of Some m \<Rightarrow> m | None \<Rightarrow> []))
           | Got c p' \<Rightarrow>
               (case exec_script script of Some e \<Rightarrow> Start_throws (de_message e) | None \<Rightarrow> Started (give_back c p'))))"

section \<open>What callers see\<close>

lemma conn_exec_rows:
  assumes "conn_exec tag (Answered vs) = Inr rs" "i < length vs" "j < length (vs ! i)"
  shows "rows_is_null rs i j = Some (vs ! i ! j = None)"
    and "rows_at rs i j = Some (case vs ! i ! j of Some s \<Rightarrow> s | None \<Rightarrow> [])"
  using assms by (auto simp: conn_exec_def rows_at_def rows_is_null_def)

text \<open>An empty text and a \<open>NULL\<close> look the same to a caller that only reads \<open>at\<close>.\<close>

lemma null_reads_empty:
  assumes "conn_exec tag (Answered vs) = Inr rs" "i < length vs" "j < length (vs ! i)" "conn_exec tag (Answered ws) = Inr qs"
    and "ws = vs[i := (vs ! i)[j := Some []]]" "vs ! i ! j = None"
  shows "rows_at qs i j = rows_at rs i j"
  using assms conn_exec_rows(2)[OF assms(1-3)] conn_exec_rows(2)[OF assms(4), of i j] by simp

lemma exec_error_retryable:
  "conn_exec tag (Refused code msg) = Inl e \<Longrightarrow> retryable e \<longleftrightarrow> code = Some ''40P01'' \<or> code = Some ''40001''"
  by (auto simp: conn_exec_def retryable_def split: option.splits)

lemma open_conns_spec:
  "case open_conns connect i n opened of
     Inr cs \<Rightarrow> cs = opened @ replicate n True \<and> (\<forall>j. i \<le> j \<and> j < i + n \<longrightarrow> connect j = None)
   | Inl e \<Rightarrow> \<exists>j m. i \<le> j \<and> j < i + n \<and> connect j = Some m \<and> e = \<lparr>de_message = ''connect: '' @ m, de_state = []\<rparr>"
proof (induction n arbitrary: i opened)
  case (Suc n)
  show ?case
  proof (cases "connect i")
    case (Some m)
    then show ?thesis by (auto simp: new_conn_def)
  next
    case None
    have le: "(i \<le> j \<and> j < i + Suc n) \<longleftrightarrow> j = i \<or> i + 1 \<le> j \<and> j < (i + 1) + n" for j by auto
    show ?thesis
    proof (cases "open_conns connect (i + 1) n (opened @ [True])")
      case (Inl e)
      with Suc.IH[of "i + 1" "opened @ [True]"] obtain j m where
        "i + 1 \<le> j" "j < i + 1 + n" "connect j = Some m" "e = \<lparr>de_message = ''connect: '' @ m, de_state = []\<rparr>" by auto
      with Inl None show ?thesis by (auto simp: new_conn_def intro!: exI[of _ j])
    next
      case (Inr cs)
      have IH: "cs = (opened @ [True]) @ replicate n True" "\<forall>j. i + 1 \<le> j \<and> j < i + 1 + n \<longrightarrow> connect j = None"
        using Suc.IH[of "i + 1" "opened @ [True]"] Inr by simp_all
      have "connect j = None" if "i \<le> j \<and> j < i + Suc n" for j using that None IH(2) unfolding le by auto
      moreover have "open_conns connect i (Suc n) opened = Inr cs" using Inr None by (simp add: new_conn_def)
      ultimately show ?thesis using IH(1) by simp
    qed
  qed
qed auto

lemma new_pool_spec:
  "case new_pool connect conns of
     Inr p \<Rightarrow> p = \<lparr>idle = replicate (nat conns) True, leased = 0\<rparr> \<and> (\<forall>j < nat conns. connect j = None)
   | Inl e \<Rightarrow> \<exists>j m. j < nat conns \<and> connect j = Some m \<and> de_message e = ''connect: '' @ m"
  using open_conns_spec[where connect = connect and i = 0 and n = "nat conns" and opened = "[]"] by (auto simp: new_pool_def split: sum.splits)

text \<open>With a connection to give, the service starts when the server is there; with a pool of no connections
  the constructor waits for ever, whatever the server does, and the retries of \<open>main\<close> are never reached.\<close>

lemma service_starts:
  assumes "0 < conns" "\<And>i. connect i = None" "exec_script script = None"
  shows "new_service connect conns again script = Started \<lparr>idle = replicate (nat conns) True, leased = 0\<rparr>"
proof -
  obtain n where n: "nat conns = Suc n" using assms(1) by (cases "nat conns") auto
  have "new_pool connect conns = Inr \<lparr>idle = replicate (nat conns) True, leased = 0\<rparr>"
    using new_pool_spec[where connect = connect and conns = conns] assms(2) by (auto split: sum.splits)
  moreover have "replicate (Suc n) True = replicate n True @ [True]" by (simp add: replicate_append_same)
  ultimately show ?thesis unfolding n using assms(3)
    by (simp add: new_service_def pool_get_def give_back_def Let_def n del: replicate_Suc)
qed

lemma empty_pool_waits: "conns \<le> 0 \<Longrightarrow> new_service connect conns again script = Start_waits"
  by (simp add: new_service_def new_pool_def pool_get_def)

end
