(* ===== verification/Dc_Parallel.thy ===== *)
theory Dc_Parallel
  imports Dc_Prelude
begin

text \<open>
  \<open>parallel_for\<close> of \<open>src/dcc.cpp:126-135\<close>: \<open>jobs\<close> threads take the next index from one atomic counter until it
  has passed the end, and run the body on it. The body works on its own element of a vector (a unit), so one
  run of it is one step. The lemmas show that whatever the threads do, every element is worked on exactly
  once and the loop ends: the loops over units elsewhere in this development are therefore maps.
\<close>

section \<open>Threads and steps\<close>

datatype thread = Fetching | Working nat | Joined

record 'u par =
  pa_next :: nat
  pa_threads :: "thread list"
  pa_units :: "'u list"

definition par_start :: "nat \<Rightarrow> 'u list \<Rightarrow> 'u par" where
  "par_start jobs us = \<lparr>pa_next = 0, pa_threads = replicate jobs Fetching, pa_units = us\<rparr>"

inductive par_step :: "('u \<Rightarrow> 'u) \<Rightarrow> nat \<Rightarrow> 'u par \<Rightarrow> 'u par \<Rightarrow> bool" for f :: "'u \<Rightarrow> 'u" and n :: nat where
  par_fetch: "t < length (pa_threads s) \<Longrightarrow> pa_threads s ! t = Fetching \<Longrightarrow> pa_next s < n \<Longrightarrow>
     par_step f n s (s\<lparr>pa_next := pa_next s + 1, pa_threads := (pa_threads s)[t := Working (pa_next s)]\<rparr>)"
| par_stop: "t < length (pa_threads s) \<Longrightarrow> pa_threads s ! t = Fetching \<Longrightarrow> \<not> pa_next s < n \<Longrightarrow>
     par_step f n s (s\<lparr>pa_next := pa_next s + 1, pa_threads := (pa_threads s)[t := Joined]\<rparr>)"
| par_work: "t < length (pa_threads s) \<Longrightarrow> pa_threads s ! t = Working i \<Longrightarrow>
     par_step f n s (s\<lparr>pa_threads := (pa_threads s)[t := Fetching], pa_units := (pa_units s)[i := f (pa_units s ! i)]\<rparr>)"

section \<open>Every element once\<close>

definition par_ok :: "('u \<Rightarrow> 'u) \<Rightarrow> 'u list \<Rightarrow> 'u par \<Rightarrow> bool" where
  "par_ok f us s \<longleftrightarrow>
     length (pa_units s) = length us \<and>
     (\<forall>t i. t < length (pa_threads s) \<and> pa_threads s ! t = Working i \<longrightarrow> i < pa_next s \<and> i < length us) \<and>
     (\<forall>t u i. t < length (pa_threads s) \<and> u < length (pa_threads s) \<and> pa_threads s ! t = Working i \<and> pa_threads s ! u = Working i \<longrightarrow> t = u) \<and>
     (\<forall>i<length us. pa_units s ! i = (if i < pa_next s \<and> Working i \<notin> set (pa_threads s) then f (us ! i) else us ! i)) \<and>
     (Joined \<in> set (pa_threads s) \<longrightarrow> length us \<le> pa_next s)"

lemma par_okI:
  assumes "length (pa_units s) = length us"
    and "\<And>t i. t < length (pa_threads s) \<Longrightarrow> pa_threads s ! t = Working i \<Longrightarrow> i < pa_next s \<and> i < length us"
    and "\<And>t u i. t < length (pa_threads s) \<Longrightarrow> u < length (pa_threads s) \<Longrightarrow> pa_threads s ! t = Working i \<Longrightarrow> pa_threads s ! u = Working i \<Longrightarrow> t = u"
    and "\<And>i. i < length us \<Longrightarrow> pa_units s ! i = (if i < pa_next s \<and> Working i \<notin> set (pa_threads s) then f (us ! i) else us ! i)"
    and "Joined \<in> set (pa_threads s) \<Longrightarrow> length us \<le> pa_next s"
  shows "par_ok f us s"
  using assms unfolding par_ok_def by blast

lemma par_okD:
  assumes "par_ok f us s"
  shows "length (pa_units s) = length us"
    and "t < length (pa_threads s) \<Longrightarrow> pa_threads s ! t = Working i \<Longrightarrow> i < pa_next s \<and> i < length us"
    and "t < length (pa_threads s) \<Longrightarrow> u < length (pa_threads s) \<Longrightarrow> pa_threads s ! t = Working i \<Longrightarrow> pa_threads s ! u = Working i \<Longrightarrow> t = u"
    and "i < length us \<Longrightarrow> pa_units s ! i = (if i < pa_next s \<and> Working i \<notin> set (pa_threads s) then f (us ! i) else us ! i)"
    and "Joined \<in> set (pa_threads s) \<Longrightarrow> length us \<le> pa_next s"
  using assms unfolding par_ok_def by blast+

lemma par_ok_start: "par_ok f us (par_start jobs us)"
  by (rule par_okI) (auto simp: par_start_def)

lemma set_update_other: "t < length xs \<Longrightarrow> x \<noteq> xs ! t \<Longrightarrow> x \<in> set (xs[t := y]) \<longleftrightarrow> x = y \<or> x \<in> set xs"
  by (auto simp: in_set_conv_nth nth_list_update)

lemma par_ok_step:
  assumes ok: "par_ok f us s" and step: "par_step f (length us) s s'"
  shows "par_ok f us s'"
  using step
proof cases
  case (par_fetch t)
  note D = par_okD[OF ok]
  have w: "x \<in> set ((pa_threads s)[t := Working (pa_next s)]) \<longleftrightarrow> x = Working (pa_next s) \<or> x \<in> set (pa_threads s)" if "x \<noteq> Fetching" for x
    using par_fetch(3) that by (subst set_update_other[OF par_fetch(2)]) auto
  show ?thesis unfolding par_fetch(1)
  proof (rule par_okI, goal_cases)
    case (2 u i)
    with D(2)[of u i] par_fetch(4) show ?case by (auto simp: nth_list_update[OF par_fetch(2)] split: if_splits)
  next
    case (3 u v i)
    with D(2)[of u i] D(2)[of v i] D(3)[of u v i] show ?case by (auto simp: nth_list_update[OF par_fetch(2)] split: if_splits)
  next
    case (4 i)
    with D(4)[OF 4] show ?case by (auto simp: w less_Suc_eq)
  next
    case 5
    with D(5) show ?case by (auto simp: w)
  qed (simp add: D(1))
next
  case (par_stop t)
  note D = par_okD[OF ok]
  have w: "x \<in> set ((pa_threads s)[t := Joined]) \<longleftrightarrow> x = Joined \<or> x \<in> set (pa_threads s)" if "x \<noteq> Fetching" for x
    using par_stop(3) that by (subst set_update_other[OF par_stop(2)]) auto
  show ?thesis unfolding par_stop(1)
  proof (rule par_okI, goal_cases)
    case (2 u i)
    with D(2)[of u i] show ?case by (auto simp: nth_list_update[OF par_stop(2)] split: if_splits)
  next
    case (3 u v i)
    with D(3)[of u v i] show ?case by (auto simp: nth_list_update[OF par_stop(2)] split: if_splits)
  next
    case (4 i)
    with D(4)[OF 4] par_stop(4) show ?case by (auto simp: w)
  next
    case 5
    with par_stop(4) show ?case by simp
  qed (simp add: D(1))
next
  case (par_work t i)
  note D = par_okD[OF ok]
  have j: "Joined \<in> set ((pa_threads s)[t := Fetching]) \<longleftrightarrow> Joined \<in> set (pa_threads s)"
    using par_work(3) by (subst set_update_other[OF par_work(2)]) auto
  have w: "Working k \<in> set ((pa_threads s)[t := Fetching]) \<longleftrightarrow> k \<noteq> i \<and> Working k \<in> set (pa_threads s)" for k
  proof (cases "k = i")
    case True
    have "pa_threads s ! u \<noteq> Working i" if "u < length (pa_threads s)" "u \<noteq> t" for u
      using D(3)[OF that(1) par_work(2) _ par_work(3)] that(2) by blast
    with True show ?thesis by (auto simp: in_set_conv_nth nth_list_update[OF par_work(2)] split: if_splits)
  next
    case False
    with par_work(3) show ?thesis by (subst set_update_other[OF par_work(2)]) auto
  qed
  have i: "i < pa_next s" "i < length us" "Working i \<in> set (pa_threads s)"
    using D(2)[OF par_work(2,3)] nth_mem[OF par_work(2)] par_work(3) by simp_all
  show ?thesis unfolding par_work(1)
  proof (rule par_okI, goal_cases)
    case (2 u k)
    with D(2)[of u k] show ?case by (auto simp: nth_list_update[OF par_work(2)] split: if_splits)
  next
    case (3 u v k)
    with D(3)[of u v k] show ?case by (auto simp: nth_list_update[OF par_work(2)] split: if_splits)
  next
    case (4 k)
    with D(4)[OF 4] D(4)[OF i(2)] i D(1) show ?case by (cases "k = i") (simp_all add: w)
  next
    case 5
    with D(5) show ?case by (simp add: j)
  qed (simp add: D(1))
qed

interpretation par: invariant_of "\<lambda>s. s = par_start jobs us" "par_step f (length us)" "par_ok f us" for f us jobs
  by unfold_locales (simp add: par_ok_start, rule par_ok_step)

lemma par_length: "run_of (par_step f n) s s' \<Longrightarrow> length (pa_threads s') = length (pa_threads s)"
  by (induction rule: run_of.induct) (auto elim: par_step.cases)

lemma par_result:
  assumes "run_of (par_step f (length us)) (par_start jobs us) s" "0 < jobs" "list_all (\<lambda>t. t = Joined) (pa_threads s)"
  shows "pa_units s = map f us"
proof -
  have ok: "par_ok f us s" by (rule par.inv_run[OF refl assms(1)])
  have "length (pa_threads s) = jobs" using par_length[OF assms(1)] by (simp add: par_start_def)
  then obtain t where "t \<in> set (pa_threads s)" using assms(2) by (cases "pa_threads s") auto
  with assms(3) have "Joined \<in> set (pa_threads s)" "\<And>i. Working i \<notin> set (pa_threads s)" by (auto simp: list_all_iff)
  with par_okD[OF ok] show ?thesis by (intro nth_equalityI) auto
qed

section \<open>The loop ends\<close>

primrec thread_left :: "thread \<Rightarrow> nat" where
  "thread_left Fetching = 1"
| "thread_left (Working i) = 2"
| "thread_left Joined = 0"

definition par_left :: "nat \<Rightarrow> 'u par \<Rightarrow> nat" where
  "par_left n s = 2 * (n - pa_next s) + sum_list (map thread_left (pa_threads s))"

lemma sum_list_change:
  "t < length xs \<Longrightarrow> sum_list (map w (xs[t := y])) + w (xs ! t) = sum_list (map w xs) + (w y :: nat)"
  by (induction xs arbitrary: t) (auto split: nat.splits simp: less_Suc_eq_0_disj)

lemma par_step_less: "par_step f n s s' \<Longrightarrow> par_left n s' < par_left n s"
proof (induction rule: par_step.induct)
  case (par_fetch t s)
  from sum_list_change[OF par_fetch(1), of thread_left "Working (pa_next s)"] par_fetch(2,3) show ?case by (simp add: par_left_def)
next
  case (par_stop t s)
  from sum_list_change[OF par_stop(1), of thread_left Joined] par_stop(2,3) show ?case by (simp add: par_left_def)
next
  case (par_work t s i)
  from sum_list_change[OF par_work(1), of thread_left Fetching] par_work(2) show ?case by (simp add: par_left_def)
qed

lemma par_goes_on:
  assumes "\<not> list_all (\<lambda>t. t = Joined) (pa_threads s)"
  shows "\<exists>s'. par_step f n s s'"
proof -
  obtain t where t: "t < length (pa_threads s)" "pa_threads s ! t \<noteq> Joined" using assms by (auto simp: list_all_length)
  show ?thesis
  proof (cases "pa_threads s ! t")
    case Fetching
    with t show ?thesis by (cases "pa_next s < n") (blast intro: par_fetch par_stop)+
  next
    case (Working i)
    with t show ?thesis by (blast intro: par_work)
  qed (use t in simp)
qed

end
