(* ===== verification/Dc_Race.thy ===== *)
theory Dc_Race
  imports Dc_Progress
begin

text \<open>
  Two completions at the same time. Elsewhere transactions follow one another; PostgreSQL's default, READ
  COMMITTED, which \<open>transaction\<close> (\<open>src/db.h\<close>) does not change, lets them overlap: a statement sees what was
  committed before it and what its own transaction wrote. \<open>side_by_side\<close> is the outcome of two transactions
  that both ran on the same rows and then committed, where neither had to wait for the other.
  \<open>finished\<close> (\<open>src/coordinator.cpp:459-462\<close>) counts the open tasks of a build only at tasks that nothing
  waits for; the last lemma shows that two such tasks can miss each other, and that nothing repairs it.
\<close>

section \<open>The rows of one build stay\<close>

definition builds_at :: "nat \<Rightarrow> db \<Rightarrow> build_row list" where
  "builds_at b db = filter (\<lambda>r. b_id r = b) (db_builds db)"

lemma builds_at_same: "db_builds db' = db_builds db \<Longrightarrow> builds_at b db' = builds_at b db"
  by (simp add: builds_at_def)

lemma builds_at_simps [simp]:
  "builds_at b (upd_tasks P f db) = builds_at b db" "builds_at b (cache_hit k db) = builds_at b db"
  "builds_at b (cache_put k h n db) = builds_at b db"
  by (rule builds_at_same, simp add: upd_tasks_def)+

lemma maybe_finish_builds_at: "c \<noteq> b \<Longrightarrow> builds_at b (maybe_finish now c db) = builds_at b db"
  by (auto simp: maybe_finish_def Let_def set_build_def builds_at_def intro!: filter_upd_where_other)

lemma make_ready_builds_at:
  assumes "\<And>i db db'. finish c i db = Some db' \<Longrightarrow> builds_at b db' = builds_at b db"
    and "make_ready finish sha c i db = Some db'"
  shows "builds_at b db' = builds_at b db"
  using assms(2)
  by (auto simp: make_ready_def Let_def mark_cached_def mark_ready_def dest!: assms(1) split: list.splits)

lemma count_downs_builds_at:
  assumes "\<And>i db db'. finish c i db = Some db' \<Longrightarrow> builds_at b db' = builds_at b db"
  shows "count_downs finish sha c us db = Some db' \<Longrightarrow> builds_at b db' = builds_at b db"
proof (induction us arbitrary: db)
  case (Cons u us)
  obtain db1 rs where cd: "count_down u db = (db1, rs)" by fastforce
  then have d1: "builds_at b db1 = builds_at b db"
    by (auto simp: count_down_def Let_def)
  from Cons.prems cd have "rs \<noteq> []" by auto
  then obtain p i rest where rs: "rs = (p, i) # rest" by (metis neq_Nil_conv prod.exhaust)
  with Cons.prems cd obtain db2 where
    "(if p = 0 then make_ready finish sha c i db1 else Some db1) = Some db2" "count_downs finish sha c us db2 = Some db'"
    by (auto split: option.splits)
  with Cons.IH make_ready_builds_at[OF assms] d1 show ?case by (auto split: if_splits)
qed simp

lemma finished_builds_at: "c \<noteq> b \<Longrightarrow> finished n sha now c i db = Some db' \<Longrightarrow> builds_at b db' = builds_at b db"
proof (induction n arbitrary: i db db')
  case (Suc n)
  from Suc.prems obtain db1 where "count_downs (finished n sha now) sha c (dependents c i db) db = Some db1"
    "db' = (if dependents c i db = [] then maybe_finish now c db1 else db1)"
    by (auto simp: Let_def split: option.splits)
  with count_downs_builds_at[OF Suc.IH[OF Suc.prems(1)]] maybe_finish_builds_at[OF Suc.prems(1)] show ?case by auto
qed simp

text \<open>A build all of whose tasks have ended.\<close>

definition at_rest :: "nat \<Rightarrow> db \<Rightarrow> bool" where
  "at_rest b db \<longleftrightarrow> b \<in> b_id ` set (db_builds db) \<and> (\<forall>t\<in>set (db_tasks db). t_build t = b \<longrightarrow> fin (t_state t))"

lemma complete_body_builds_at:
  assumes rest: "at_rest b db" and body: "complete_body sha m cas now r db = Some (a, db')"
  shows "builds_at b db' = builds_at b db"
proof -
  have other: "t_build t \<noteq> b" if "filter P (db_tasks db) = t # ts" "\<And>s. P s \<Longrightarrow> \<not> fin (t_state s)" for P t ts
    using filter_head[OF that(1)] that(2) rest by (auto simp: at_rest_def)
  have live: "\<And>s. live_row (r_uid r) s \<Longrightarrow> \<not> fin (t_state s)" and att: "\<And>s. attempt_row r s \<Longrightarrow> \<not> fin (t_state s)"
    by (auto simp: live_row_def attempt_row_def fin_def)
  consider "r_ok r" | "\<not> r_ok r" "r_retryable r" | "\<not> r_ok r" "\<not> r_retryable r" by blast
  then show ?thesis
  proof cases
    case 1
    with body have d: "complete_done sha cas now r db = Some (a, db')" by (simp add: complete_body_def)
    show ?thesis
    proof (cases "filter (live_row (r_uid r)) (db_tasks db)")
      case (Cons t ts)
      with d have f: "finish_task sha now (t_build t) (t_id t) (cache_put (text_of (t_key t)) (r_output r)
          (cas_size_of cas (r_output r)) (upd_tasks (live_row (r_uid r)) (mark_done r) db)) = Some db'"
        by (auto simp: complete_done_def Let_def)
      from finished_builds_at[OF other[OF Cons live] f[unfolded finish_task_def]] show ?thesis by simp
    qed (use d in \<open>simp add: complete_done_def\<close>)
  next
    case 2
    with body have d: "db' = snd (complete_retry m now r db)" by (simp add: complete_body_def)
    show ?thesis
    proof (cases "filter (attempt_row r) (db_tasks db)")
      case (Cons t ts)
      with d maybe_finish_builds_at[OF other[OF Cons att]] show ?thesis by (simp add: complete_retry_def Let_def)
    qed (use d in \<open>simp add: complete_retry_def\<close>)
  next
    case 3
    with body have d: "db' = snd (complete_failed now r db)" by (simp add: complete_body_def)
    show ?thesis
    proof (cases "filter (live_row (r_uid r)) (db_tasks db)")
      case (Cons t ts)
      with d maybe_finish_builds_at[OF other[OF Cons live]] show ?thesis by (simp add: complete_failed_def Let_def)
    qed (use d in \<open>simp add: complete_failed_def\<close>)
  qed
qed

lemma complete_task_builds_at:
  assumes rest: "at_rest b db" and call: "complete_task sha m cas env now r db = (st, acc, db')"
  shows "builds_at b db' = builds_at b db"
proof -
  obtain q where "complete_txn sha m cas env now q db = (st, acc, db')"
    using call by (auto simp: complete_task_def split: if_splits)
  then obtain d c res where t: "run_txn env (\<lambda>_ _ u. u) (\<lambda>db u. (u, case complete_body sha m cas now q db of
      None \<Rightarrow> Throws ''undefined row'' | Some (a, db') \<Rightarrow> Finished db' a)) db () = (d, c, res)" "db' = d"
    by (auto simp: complete_txn_def split: prod.splits txn_result.splits)
  from t(1) show ?thesis
  proof (cases rule: run_txn_cases)
    case (returned a rj)
    then have "complete_body sha m cas now q db = Some (a, d)" by (auto split: option.splits)
    from complete_body_builds_at[OF rest this] t(2) show ?thesis by simp
  next
    case (landed a rj e j)
    then have "complete_body sha m cas now q db = Some (a, d)" by (auto split: option.splits)
    from complete_body_builds_at[OF rest this] t(2) show ?thesis by simp
  qed (simp add: t(2))
qed

lemma submit_build_builds_at:
  assumes rest: "at_rest b db" and k: "keys_ok db" and call: "submit_build sha cas env now spec db = (st, rep, db')"
  shows "builds_at b db' = builds_at b db"
proof (cases "find bad_compile (bs_tasks spec) = None \<and> (\<exists>order. topo_order (graph_of (bs_tasks spec)) = Inr order)")
  case False
  then have "db' = db"
    using call by (cases "find bad_compile (bs_tasks spec)"; cases "topo_order (graph_of (bs_tasks spec))") (auto simp: submit_build_def)
  then show ?thesis by simp
next
  case True
  then obtain order where o: "find bad_compile (bs_tasks spec) = None" "topo_order (graph_of (bs_tasks spec)) = Inr order" by blast
  have new: "db_next_build db \<noteq> b" using rest k by (auto simp: at_rest_def keys_ok_def)
  obtain rank part d c res where t: "run_txn env (submit_partial sha cas spec order) (submit sha cas (refuses env) now spec order rank part) db 0 = (d, c, res)"
    "db' = d" using call o by (auto simp: submit_build_def Let_def split: prod.splits txn_result.splits)
  have fin: "builds_at b d = builds_at b db"
    if "submit sha cas (refuses env) now spec order rank part db rj = (c, Finished d a)" for rj a
  proof -
    from that obtain db4 where "d = maybe_finish now (db_next_build db) db4" "builds_at b db4 = builds_at b db"
      using new by (auto simp: submit_def Let_def insert_build_def insert_tasks_def count_hits_def builds_at_def split: prod.splits option.splits if_splits)
    with maybe_finish_builds_at[OF new] show ?thesis by simp
  qed
  from t(1) show ?thesis
    by (cases rule: run_txn_cases) (use fin t(2) in auto)
qed

lemma reap_builds_at:
  assumes "at_rest b db"
  shows "builds_at b (reap m stop now db) = builds_at b db"
proof -
  define bs where "bs = map t_build (filter (\<lambda>t. t_state t = TFailed) (reaped m now db))"
  have "b \<notin> set bs" using assms by (auto simp: bs_def reaped_def mark_reaped_def expired_def at_rest_def fin_def)
  then have "b \<notin> set (case stop of None \<Rightarrow> bs | Some k \<Rightarrow> take k bs)" by (auto split: option.splits dest: in_set_takeD)
  moreover have "b \<notin> set xs \<Longrightarrow> builds_at b (fold (maybe_finish now) xs d) = builds_at b d" for xs and d :: db
    by (induction xs arbitrary: d) (auto simp: maybe_finish_builds_at)
  ultimately show ?thesis by (simp add: reap_def bs_def[symmetric] Let_def)
qed

lemma step_builds_at:
  assumes "coord_step sha m lease faulty s t" "at_rest b (co_db s)" "keys_ok (co_db s)"
  shows "builds_at b (co_db t) = builds_at b (co_db s)"
  using assms(1)
proof cases
  case (step_submit spec env now)
  obtain st rep db' where "submit_build sha (co_cas s) env now spec (co_db s) = (st, rep, db')" by (metis prod_cases3)
  with submit_build_builds_at[OF assms(2,3) this] step_submit(1) show ?thesis by (simp add: submit_call_def wake_workers_def Let_def)
next
  case (step_register now w tc slots)
  then show ?thesis by (auto simp: register_call_def register_worker_def Let_def intro!: builds_at_same split: list.splits)
next
  case (step_leases now w)
  then show ?thesis by (simp add: heartbeat_leases_def)
next
  case (step_seen now w)
  then show ?thesis by (auto simp: heartbeat_seen_def intro!: builds_at_same)
next
  case (step_claim now w tc part locked pick)
  then show ?thesis by (auto simp: claim_stmt_def Let_def split: option.splits)
next
  case (step_complete env now r)
  obtain st acc db' where "complete_task sha m (co_cas s) env now r (co_db s) = (st, acc, db')" by (metis prod_cases3)
  with complete_task_builds_at[OF assms(2) this] step_complete show ?thesis by (simp add: complete_call_def wake_workers_def Let_def)
next
  case (step_reap stop now)
  with reap_builds_at[OF assms(2)] show ?thesis by (simp add: reap_round_def wake_workers_def Let_def)
qed (simp_all add: put_call_def)

lemma at_rest_evolves:
  assumes "at_rest b db" "evolves db db'" "keys_ok db'"
  shows "at_rest b db'"
  unfolding at_rest_def
proof (intro conjI ballI impI)
  show "b \<in> b_id ` set (db_builds db')" using assms unfolding at_rest_def evolves_def image_iff by metis
  fix t' assume t': "t' \<in> set (db_tasks db')" "t_build t' = b"
  then obtain t where t: "t \<in> set (db_tasks db)" "same_cols t t'" using assms unfolding at_rest_def evolves_def by metis
  then have "t_build t = b" using t'(2) by (simp add: same_cols_def)
  then have f: "fin (t_state t)" using assms(1) t(1) by (simp add: at_rest_def)
  with assms(2) t(1) have "t \<in> set (db_tasks db')" unfolding evolves_def using fin_terminal by metis
  then have "t' = t" using same_key_same_row(2)[OF assms(3) t'(1)] t(2) by (simp add: same_cols_def)
  with f show "fin (t_state t')" by simp
qed

text \<open>Whatever happens later, the row of such a build is as it was.\<close>

lemma run_builds_at:
  assumes "run_of (coord_step sha m lease faulty) s t" "at_rest b (co_db s)"
    and "consistent sha m (stored_hashes (co_cas s)) {} X {} (co_db s)"
  shows "builds_at b (co_db t) = builds_at b (co_db s)"
proof -
  have "at_rest b (co_db t) \<and> builds_at b (co_db t) = builds_at b (co_db s) \<and>
      (\<exists>X. consistent sha m (stored_hashes (co_cas t)) {} X {} (co_db t))"
    using assms(1)
  proof (induction rule: run_of.induct)
    case run_refl
    with assms(2,3) show ?case by blast
  next
    case (run_step u v)
    then obtain X where u: "at_rest b (co_db u)" "builds_at b (co_db u) = builds_at b (co_db s)"
      "consistent sha m (stored_hashes (co_cas u)) {} X {} (co_db u)" by blast
    note c = coord_step_cases[OF run_step.hyps(2) u(3)]
    from c(3) obtain Y where Y: "consistent sha m (stored_hashes (co_cas v)) {} Y {} (co_db v)" by blast
    from at_rest_evolves[OF u(1) c(2) consistentD(1)[OF Y]] step_builds_at[OF run_step.hyps(2) u(1) consistentD(1)[OF u(3)]] u(2) Y
    show ?case by auto
  qed
  then show ?thesis by blast
qed

section \<open>Two transactions at once\<close>

text \<open>The rows after two transactions that each saw the rows \<open>old\<close>: updates keep a row's place, new rows
  come at the end. \<open>None\<close> when both changed one row: there the second waits for the first.\<close>

fun merge_rows :: "'a list \<Rightarrow> 'a list \<Rightarrow> 'a list \<Rightarrow> 'a list option" where
  "merge_rows [] l r = Some (l @ r)"
| "merge_rows (x # old) (a # l) (b # r) =
     (if a \<noteq> x \<and> b \<noteq> x then None else map_option ((#) (if a \<noteq> x then a else b)) (merge_rows old l r))"
| "merge_rows (x # old) l r = None"

definition side_by_side :: "db \<Rightarrow> db \<Rightarrow> db \<Rightarrow> db option" where
  "side_by_side db db1 db2 =
     (if db_deps db1 \<noteq> db_deps db \<or> db_deps db2 \<noteq> db_deps db \<or> db_workers db1 \<noteq> db_workers db \<or> db_workers db2 \<noteq> db_workers db \<or>
         db_next_build db1 \<noteq> db_next_build db \<or> db_next_build db2 \<noteq> db_next_build db \<or>
         db_next_uid db1 \<noteq> db_next_uid db \<or> db_next_uid db2 \<noteq> db_next_uid db then None
      else case (merge_rows (db_tasks db) (db_tasks db1) (db_tasks db2), merge_rows (db_builds db) (db_builds db1) (db_builds db2),
                 merge_rows (db_cache db) (db_cache db1) (db_cache db2)) of
             (Some ts, Some bs, Some cs) \<Rightarrow>
               if distinct (map c_key cs) then Some (db\<lparr>db_tasks := ts, db_builds := bs, db_cache := cs\<rparr>) else None
           | _ \<Rightarrow> None)"

lemma merge_rows_map:
  "(\<And>x. x \<in> set xs \<Longrightarrow> f x = x \<or> g x = x) \<Longrightarrow> merge_rows xs (map f xs) (map g xs) = Some (map (\<lambda>x. if f x \<noteq> x then f x else g x) xs)"
  by (induction xs) auto

lemma merge_rows_appends: "merge_rows xs (xs @ l) (xs @ r) = Some (xs @ l @ r)"
  by (induction xs) auto

lemma merge_rows_same: "merge_rows xs xs xs = Some xs"
  using merge_rows_appends[of xs "[]" "[]"] by simp

lemma done_rows_side_by_side:
  assumes k: "keys_ok db" and x: "x \<in> set (db_tasks db)" and y: "y \<in> set (db_tasks db)" "x \<noteq> y"
    and key: "text_of (t_key x) \<noteq> text_of (t_key y)"
  shows "side_by_side db (done_rows cas r x db) (done_rows cas q y db) = Some (done_rows cas q y (done_rows cas r x db))"
proof -
  let ?f = "\<lambda>t. if t_uid t = t_uid x then mark_done r x else t" and ?g = "\<lambda>t. if t_uid t = t_uid y then mark_done q y else t"
  have uid: "t_uid x \<noteq> t_uid y" using same_key_same_row(2)[OF k x y(1)] y(2) by blast
  have m: "t_uid (mark_done r t) = t_uid t" for r t by (simp add: mark_done_def)
  have ts: "merge_rows (db_tasks db) (map ?f (db_tasks db)) (map ?g (db_tasks db)) = Some (map ?g (map ?f (db_tasks db)))"
  proof -
    have "(if ?f t \<noteq> t then ?f t else ?g t) = ?g (?f t)" for t using uid by (auto simp: m)
    then show ?thesis using uid by (subst merge_rows_map) (auto simp: m)
  qed
  define new where "new k h n d = (if cache_rows k d \<noteq> [] then [] else [\<lparr>c_key = k, c_output = h, c_size = n, c_hits = 0\<rparr>])" for k h n and d :: db
  have put: "cache_put k h n d = d\<lparr>db_cache := db_cache d @ new k h n d\<rparr>" for k h n d by (simp add: cache_put_def new_def)
  let ?kx = "text_of (t_key x)" and ?ky = "text_of (t_key y)"
  let ?nx = "new ?kx (r_output r) (cas_size_of cas (r_output r)) db" and ?ny = "new ?ky (r_output q) (cas_size_of cas (r_output q)) db"
  have ny: "new ?ky h n (db\<lparr>db_cache := db_cache db @ ?nx, db_tasks := ts\<rparr>) = new ?ky h n db" for h n ts
    using key by (simp add: new_def cache_rows_def)
  have "distinct (map c_key (db_cache db @ ?nx @ ?ny))"
    using k key by (auto simp: keys_ok_def new_def cache_rows_def filter_empty_conv)
  then show ?thesis
    using ts by (simp add: side_by_side_def done_rows_def put set_row_def upd_where_def m merge_rows_appends merge_rows_same ny)
qed

section \<open>Two sinks at once\<close>

definition sink :: "task_row \<Rightarrow> db \<Rightarrow> bool" where
  "sink t db \<longleftrightarrow> list_all (\<lambda>d. d_build d = t_build t \<longrightarrow> d_dep d \<noteq> t_id t) (db_deps db)"

lemma sink_out_edges: "sink t db \<Longrightarrow> out_edges (t_build t) (t_id t) db = {}"
  by (auto simp: sink_def out_edges_def list_all_iff)

lemma maybe_finish_waits:
  assumes "u \<in> set (db_tasks db)" "t_build u = b" "\<not> fin (t_state u)"
    and "\<And>v. v \<in> set (db_tasks db) \<Longrightarrow> t_build v = b \<Longrightarrow> t_state v \<noteq> TFailed"
  shows "maybe_finish now b db = db"
proof -
  have "count_tasks (\<lambda>s. s = TFailed) b db = 0" using assms(4) by (simp add: count_tasks_0)
  moreover have "count_tasks (\<lambda>s. \<not> fin s) b db \<noteq> 0" using assms(1-3) by (auto simp: count_tasks_0)
  ultimately show ?thesis by (simp add: maybe_finish_def)
qed

lemma done_rows_tasks:
  "set (db_tasks (done_rows cas r t db)) = (\<lambda>s. if t_uid s = t_uid t then mark_done r t else s) ` set (db_tasks db)"
  by (simp add: done_rows_def set_row_def mark_done_def)

text \<open>A sink completes while another task of its build still runs: the build is left alone.\<close>

lemma complete_sink:
  assumes k: "keys_ok db" and t: "t \<in> set (db_tasks db)" "live_row (r_uid r) t" "sink t db"
    and u: "u \<in> set (db_tasks db)" "t_build u = t_build t" "u \<noteq> t" "\<not> fin (t_state u)"
    and nf: "\<And>v. v \<in> set (db_tasks db) \<Longrightarrow> t_build v = t_build t \<Longrightarrow> t_state v \<noteq> TFailed"
  shows "complete_done sha cas now r db = Some (True, done_rows cas r t db)"
proof -
  let ?d = "done_rows cas r t db"
  have uid: "t_uid u \<noteq> t_uid t" using same_key_same_row(2)[OF k u(1) t(1)] u(3) by blast
  have deps: "dependents (t_build t) (t_id t) ?d = []"
  proof -
    have "filter (\<lambda>d. d_build d = t_build t \<and> d_dep d = t_id t) (db_deps ?d) = []"
      using t(3) by (auto simp: sink_def list_all_iff filter_empty_conv done_rows_def)
    then show ?thesis by (simp add: dependents_def)
  qed
  note tasks = done_rows_tasks[of cas r t db]
  have "u \<in> set (db_tasks ?d)" unfolding tasks using u(1) uid by (intro image_eqI[of _ _ u]) simp_all
  moreover have "t_state v \<noteq> TFailed" if "v \<in> set (db_tasks ?d)" "t_build v = t_build t" for v
    using that nf unfolding tasks by (auto simp: mark_done_def split: if_splits)
  ultimately have "maybe_finish now (t_build t) ?d = ?d" using u(2,4) by (intro maybe_finish_waits[of u]) auto
  then have "finish_task sha now (t_build t) (t_id t) ?d = Some ?d" by (simp add: finish_task_def deps Let_def)
  then show ?thesis by (simp add: complete_done_rows[OF k t(1,2)])
qed

text \<open>The last two tasks of a build, both sinks, complete at once: each transaction sees the other task
  unfinished, all tasks end as finished, and the build stays running whatever follows.\<close>

lemma sinks_at_once:
  assumes ok: "coord_ok sha m s"
    and x: "x \<in> set (db_tasks (co_db s))" "live_row (r_uid r) x" "sink x (co_db s)" "r_ok r" "cas_has (co_cas s) (r_output r)"
    and y: "y \<in> set (db_tasks (co_db s))" "live_row (r_uid q) y" "sink y (co_db s)" "r_ok q" "cas_has (co_cas s) (r_output q)"
    and b: "t_build x = b" "t_build y = b" "x \<noteq> y" "t_key x \<noteq> t_key y"
    and last: "\<And>t. t \<in> set (db_tasks (co_db s)) \<Longrightarrow> t_build t = b \<Longrightarrow> t = x \<or> t = y \<or> fin (t_state t)"
  defines "db' \<equiv> done_rows (co_cas s) q y (done_rows (co_cas s) r x (co_db s))"
  shows "complete_body sha m (co_cas s) now r (co_db s) = Some (True, done_rows (co_cas s) r x (co_db s))"
    and "complete_body sha m (co_cas s) now' q (co_db s) = Some (True, done_rows (co_cas s) q y (co_db s))"
    and "side_by_side (co_db s) (done_rows (co_cas s) r x (co_db s)) (done_rows (co_cas s) q y (co_db s)) = Some db'"
    and "at_rest b db'"
    and "run_of (coord_step sha m lease faulty) (s\<lparr>co_db := db'\<rparr>) s' \<Longrightarrow>
      \<exists>r\<in>set (db_builds (co_db s')). b_id r = b \<and> b_state r = BRunning"
proof -
  let ?db = "co_db s" and ?C = "stored_hashes (co_cas s)" and ?d1 = "done_rows (co_cas s) r x (co_db s)"
  have con: "consistent sha m ?C {} {} {} ?db" using ok by (simp add: coord_ok_def)
  note D = consistentD[OF con]
  have out: "r_output r \<in> ?C" "r_output q \<in> ?C" using x(5) y(5) by (simp_all add: stored_hashes_def)
  have open': "\<not> fin (t_state x)" "\<not> fin (t_state y)" "t_state x \<noteq> TFailed" "t_state y \<noteq> TFailed"
    using x(2) y(2) by (auto simp: live_row_def fin_def)
  have nf: "t_state v \<noteq> TFailed" if "v \<in> set (db_tasks ?db)" "t_build v = b" for v
    using last[OF that] open'(3,4) by (auto simp: fin_def)
  show "complete_body sha m (co_cas s) now r ?db = Some (True, ?d1)"
    using complete_sink[OF D(1) x(1-3) y(1) _ _ open'(2)] b nf x(4) by (simp add: complete_body_def)
  show "complete_body sha m (co_cas s) now' q ?db = Some (True, done_rows (co_cas s) q y ?db)"
    using complete_sink[OF D(1) y(1-3) x(1) _ _ open'(1)] b nf y(4) by (simp add: complete_body_def)
  have key: "text_of (t_key x) \<noteq> text_of (t_key y)"
  proof -
    have "t_key t \<noteq> None" if "t \<in> set (db_tasks ?db)" "live_row u t" for t u
      using D(5)[OF that(1)] that(2) by (auto simp: task_ok_def key_ok_def live_row_def Let_def split: if_splits)
    from this[OF x(1,2)] this[OF y(1,2)] b(4) show ?thesis by (auto simp: text_of_def)
  qed
  show "side_by_side ?db ?d1 (done_rows (co_cas s) q y ?db) = Some db'"
    unfolding db'_def by (rule done_rows_side_by_side[OF D(1) x(1) y(1) b(3) key])
  note d1 = done_rows_ok[OF con out(1) x(1,2), where cas = "co_cas s"]
  have con1: "consistent sha m ?C {} {b} {} ?d1" using d1(1) by (simp add: sink_out_edges[OF x(3)] b(1)[symmetric])
  have uid: "t_uid x \<noteq> t_uid y" using same_key_same_row(2)[OF D(1) x(1) y(1)] b(3) by blast
  note t1 = done_rows_tasks[of "co_cas s" r x ?db]
  have y1: "y \<in> set (db_tasks ?d1)" unfolding t1 using y(1) uid by (intro image_eqI[of _ _ y]) simp_all
  have "sink y ?d1" using y(3) d1(4) by (simp add: sink_def)
  note o1 = sink_out_edges[OF this]
  note d2 = done_rows_ok[OF con1 out(2) y1 y(2), where cas = "co_cas s"]
  have con2: "consistent sha m ?C {} {b} {} db'" using d2(1) by (simp add: o1 db'_def b(2)[symmetric])
  have t2: "set (db_tasks db') = (\<lambda>t. if t_uid t = t_uid y then mark_done q y else t) ` set (db_tasks ?d1)"
    unfolding db'_def by (rule done_rows_tasks)
  have builds: "db_builds db' = db_builds ?db" using d1(5) d2(5) by (simp add: db'_def)
  have bid: "b \<in> b_id ` set (db_builds ?db)" using D(1) x(1) b(1) by (auto simp: keys_ok_def)
  have "fin (t_state t)" if "t \<in> set (db_tasks db')" "t_build t = b" for t
    using that last unfolding t2 t1 by (auto simp: mark_done_def fin_def split: if_splits)
  with bid builds show rest: "at_rest b db'" by (simp add: at_rest_def)
  obtain r0 where r0: "r0 \<in> set (db_builds ?db)" "b_id r0 = b" using bid by auto
  have "b_state r0 = verdict b ?db" using consistent_verdict(1)[OF con r0(1)] r0(2) by simp
  also have "\<dots> = BRunning" using verdict_cases(3)[of b ?db] nf x(1) b(1) open'(1) by blast
  finally have r0b: "r0 \<in> set (builds_at b db')" "b_state r0 = BRunning" using r0 builds by (simp_all add: builds_at_def)
  show "\<exists>r\<in>set (db_builds (co_db s')). b_id r = b \<and> b_state r = BRunning"
    if "run_of (coord_step sha m lease faulty) (s\<lparr>co_db := db'\<rparr>) s'"
  proof -
    have "builds_at b (co_db s') = builds_at b db'" using run_builds_at[OF that, of b "{b}"] rest con2 by simp
    with r0b have "r0 \<in> set (builds_at b (co_db s'))" by simp
    with r0b(2) show ?thesis by (auto simp: builds_at_def)
  qed
qed

end
