(* ===== verification/Dc_Orphan.thy ===== *)
theory Dc_Orphan
  imports Dc_Worker
begin

text \<open>
  A claim whose reply is lost. The worker reaches \<open>ClaimTask\<close> through \<open>with_retry\<close> (\<open>src/worker.cpp:78-85\<close>),
  which repeats the call, and every handler run that finds a task takes it. The heartbeat renews all leases
  under the worker's name (\<open>src/coordinator.cpp:248-255\<close>), those of tasks the worker has never heard of too,
  so the reaper does not give them back while the worker lives.
\<close>

section \<open>The call\<close>

text \<open>\<open>ClaimTask\<close> as the worker reaches it: attempt \<open>k\<close> comes at the time \<open>now k\<close> and looks as often as
  \<open>rounds k\<close> says; when the poll has not ended by then, the client's deadline passes.\<close>

definition claim_handler :: "int \<Rightarrow> string \<Rightarrow> string \<Rightarrow> (nat \<Rightarrow> int) \<Rightarrow> (nat \<Rightarrow> poll_round list) \<Rightarrow> nat \<Rightarrow> coord
    \<Rightarrow> rpc_status \<times> assignment option \<times> coord" where
  "claim_handler lease w tc now rounds k s =
     (case claim_task lease (now k) w tc 2000 (co_parts s) (rounds k) (co_db s) of
        (Some (a, db'), parts) \<Rightarrow> (Status_ok, a, s\<lparr>co_db := db', co_parts := parts\<rparr>)
      | (None, parts) \<Rightarrow> (Status_error Deadline_exceeded [], None, s\<lparr>co_parts := parts\<rparr>))"

definition claim_call :: "int \<Rightarrow> string \<Rightarrow> string \<Rightarrow> (nat \<Rightarrow> int) \<Rightarrow> (nat \<Rightarrow> poll_round list) \<Rightarrow> (nat \<Rightarrow> link) \<Rightarrow> coord
    \<Rightarrow> rpc_status \<times> assignment option \<times> coord" where
  "claim_call lease w tc now rounds net s = remote net (claim_handler lease w tc now rounds) 8 None s"

section \<open>What a claim takes\<close>

lemma try_claim_row:
  assumes con: "consistent sha m C {} X {} db" and c: "try_claim lease now w tc part locked pick db = (Some a, db')"
  shows "\<exists>t\<in>set (db_tasks db). t_state t = TReady \<and> a = assignment_of (mark_claimed lease now w t) \<and>
    db' = set_row (mark_claimed lease now w t) db \<and> consistent sha m C {} X {} db'"
proof -
  have one: "db1 = db \<and> r = None \<or> (\<exists>t\<in>set (db_tasks db). t_state t = TReady \<and> r = Some (assignment_of (mark_claimed lease now w t)) \<and>
      db1 = set_row (mark_claimed lease now w t) db \<and> consistent sha m C {} X {} db1)"
    if "claim_stmt lease now w tc p locked pick db = (r, db1)" for p r db1
    by (rule claim_stmt_ok[OF con, of lease now w tc p locked pick]) (use that in \<open>auto simp: eligible_def\<close>)
  obtain r db1 where s: "claim_stmt lease now w tc (Some part) locked pick db = (r, db1)" by fastforce
  show ?thesis
  proof (cases r)
    case None
    with one[OF s] c s have "claim_stmt lease now w tc None locked pick db = (Some a, db')" by (auto simp: try_claim_def)
    from one[OF this] show ?thesis by auto
  next
    case (Some a1)
    with one[OF s] c s show ?thesis by (auto simp: try_claim_def)
  qed
qed

lemma claim_handler_row:
  assumes con: "consistent sha m C {} X {} (co_db s)" and one: "length (rounds k) = 1"
    and c: "claim_handler lease w tc now rounds k s = (Status_ok, Some a, s')"
  shows "\<exists>t\<in>set (db_tasks (co_db s)). \<exists>n. t_state t = TReady \<and> a = assignment_of (mark_claimed lease n w t) \<and>
    co_db s' = set_row (mark_claimed lease n w t) (co_db s) \<and> consistent sha m C {} X {} (co_db s')"
proof -
  obtain p where p: "rounds k = [p]" using one by (cases "rounds k") auto
  have "\<exists>part db'. try_claim lease (p_now p) w tc part (p_locked p) (p_pick p) (co_db s) = (Some a, db') \<and> co_db s' = db'"
    using c by (auto simp: claim_handler_def claim_task_def p Let_def split: prod.splits option.splits if_splits)
  then obtain part where t: "try_claim lease (p_now p) w tc part (p_locked p) (p_pick p) (co_db s) = (Some a, co_db s')" by blast
  from try_claim_row[OF con t] show ?thesis by blast
qed

section \<open>Heartbeats and the reaper\<close>

text \<open>The worker's heartbeats and the rounds of the reaper in turn, with their times.\<close>

definition watched :: "int \<Rightarrow> nat \<Rightarrow> string \<Rightarrow> (int \<times> int) list \<Rightarrow> db \<Rightarrow> db" where
  "watched lease m w beats db = fold (\<lambda>(h, r) db. reap m None r (heartbeat lease h w db)) beats db"

definition held :: "string \<Rightarrow> nat \<Rightarrow> nat \<Rightarrow> db \<Rightarrow> bool" where
  "held w u k db \<longleftrightarrow> list_ex (\<lambda>t. t_uid t = u \<and> t_state t = TRunning \<and> t_lease_owner t = Some w \<and> t_attempts t = k) (db_tasks db)"

lemma heldI:
  "t \<in> set (db_tasks db) \<Longrightarrow> t_uid t = u \<Longrightarrow> t_state t = TRunning \<Longrightarrow> t_lease_owner t = Some w \<Longrightarrow> t_attempts t = k \<Longrightarrow> held w u k db"
  by (auto simp: held_def list_ex_iff)

lemma reap_tasks: "db_tasks (reap m stop now db) = upd_where (expired now) (mark_reaped m now) (db_tasks db)"
proof -
  have "db_tasks (fold (maybe_finish now) bs d) = db_tasks d" for bs and d :: db
    by (induction bs arbitrary: d) (simp_all add: maybe_finish_def Let_def)
  then show ?thesis by (simp add: reap_def Let_def upd_tasks_def)
qed

lemma held_watched:
  assumes "held w u k db" "list_all (\<lambda>(h, r). r \<le> h + lease) beats"
  shows "held w u k (watched lease m w beats db)"
  using assms
proof (induction beats arbitrary: db)
  case Nil
  then show ?case by (simp add: watched_def)
next
  case (Cons b beats)
  obtain h r where b: "b = (h, r)" by fastforce
  obtain t where t: "t \<in> set (db_tasks db)" "t_uid t = u" "t_state t = TRunning" "t_lease_owner t = Some w" "t_attempts t = k"
    using Cons.prems(1) by (auto simp: held_def list_ex_iff)
  let ?t = "t\<lparr>t_lease_until := Some (h + lease)\<rparr>" and ?d = "heartbeat lease h w db"
  have "?t \<in> set (db_tasks ?d)" unfolding heartbeat_rows set_map using t by (intro image_eqI[of _ _ t]) auto
  moreover have "\<not> expired r ?t" using Cons.prems(2) b by (simp add: expired_def)
  ultimately have "?t \<in> set (db_tasks (reap m None r ?d))"
    using upd_where_memI[of ?t "db_tasks ?d" "expired r" "mark_reaped m r"] by (simp add: reap_tasks)
  then have "held w u k (reap m None r ?d)" by (rule heldI) (simp_all add: t)
  with Cons.IH Cons.prems(2) b show ?case by (simp add: watched_def)
qed

text \<open>The reply of a claim is lost and the call repeated: the worker learns of the second task only, and its
  own heartbeats keep the first one from the reaper for as long as it lives.\<close>

lemma lost_claim:
  assumes con: "consistent sha m C {} X {} (co_db s)" and one: "length (rounds 0) = 1" "length (rounds 1) = 1"
    and c1: "claim_handler lease w tc now rounds 0 s = (Status_ok, Some a1, s1)"
    and c2: "claim_handler lease w tc now rounds 1 s1 = (Status_ok, Some a2, s2)"
    and net: "net 0 = Reply_lost Unavailable" "net 1 = Delivered"
  shows "claim_call lease w tc now rounds net s = (Status_ok, Some a2, s2)" "a_uid a2 \<noteq> a_uid a1"
    "held w (a_uid a1) (a_attempt a1) (co_db s2)" "held w (a_uid a2) (a_attempt a2) (co_db s2)"
proof -
  show "claim_call lease w tc now rounds net s = (Status_ok, Some a2, s2)"
    using net c1 c2 by (simp add: claim_call_def remote_def with_retry_def net_call_def transient_def eval_nat_numeral)
  obtain t n where t: "t \<in> set (db_tasks (co_db s))" "t_state t = TReady" "a1 = assignment_of (mark_claimed lease n w t)"
    "co_db s1 = set_row (mark_claimed lease n w t) (co_db s)" "consistent sha m C {} X {} (co_db s1)"
    using claim_handler_row[OF con one(1) c1] by blast
  obtain u k where u: "u \<in> set (db_tasks (co_db s1))" "t_state u = TReady" "a2 = assignment_of (mark_claimed lease k w u)"
    "co_db s2 = set_row (mark_claimed lease k w u) (co_db s1)"
    using claim_handler_row[OF t(5) one(2) c2] by blast
  let ?t = "mark_claimed lease n w t" and ?u = "mark_claimed lease k w u"
  have cols: "same_cols t ?t" "same_cols u ?u" by (simp_all add: same_cols_def mark_claimed_def)
  have t1: "?t \<in> set (db_tasks (co_db s1))" unfolding t(4) by (simp add: set_row_mem[OF consistentD(1)[OF con] t(1) cols(1)])
  have ne: "?t \<noteq> u" using u(2) by (auto simp: mark_claimed_def)
  have "t_uid ?t \<noteq> t_uid u" using same_key_same_row(2)[OF consistentD(1)[OF t(5)] t1 u(1)] ne by blast
  then show "a_uid a2 \<noteq> a_uid a1" by (simp add: t(3) u(3) assignment_of_def mark_claimed_def)
  have "?t \<in> set (db_tasks (co_db s2))" "?u \<in> set (db_tasks (co_db s2))"
    unfolding u(4) using t1 ne by (simp_all add: set_row_mem[OF consistentD(1)[OF t(5)] u(1) cols(2)])
  from heldI[OF this(1)] heldI[OF this(2)] show "held w (a_uid a1) (a_attempt a1) (co_db s2)" "held w (a_uid a2) (a_attempt a2) (co_db s2)"
    by (simp_all add: t(3) u(3) assignment_of_def) (simp_all add: mark_claimed_def)
qed

end
