(* ===== verification/Dc_Lease.thy ===== *)
theory Dc_Lease
  imports Dc_Orphan Dc_Progress
begin

text \<open>
  Leases in time. A worker renews the leases of its tasks from a thread of its own
  (\<open>src/worker.cpp:60-68\<close>: sleep three seconds, call \<open>Heartbeat\<close> with a deadline of five, for ever); every second
  the reaper of the coordinator takes back the tasks whose lease has run out. The history of the coordinator is
  a list of events with their times. A worker whose calls are answered keeps its tasks whatever else
  happens, when leases last thirteen seconds (and what the thread wakes up late) or more; with leases of three seconds (\<open>--lease 3\<close>) there
  is a gap before every renewal in which a round of the reaper takes them.
\<close>

section \<open>The thread\<close>

text \<open>One turn: how long \<open>sleep_for\<close> lasts (at least three seconds), after how many milliseconds the coordinator
  handles the call, if it does, and how long the call takes.\<close>

record beat_call =
  b_sleeps :: int
  b_arrives :: "int option"
  b_takes :: int

fun heartbeat_thread :: "int \<Rightarrow> beat_call list \<Rightarrow> int list" where
  "heartbeat_thread t [] = []"
| "heartbeat_thread t (c # cs) =
     (case b_arrives c of None \<Rightarrow> [] | Some d \<Rightarrow> [t + b_sleeps c + d]) @ heartbeat_thread (t + b_sleeps c + b_takes c) cs"

text \<open>A turn that wakes up at most \<open>late\<close> milliseconds late and whose call is answered within its deadline.\<close>

definition answered :: "int \<Rightarrow> beat_call \<Rightarrow> bool" where
  "answered late c \<longleftrightarrow> 3000 \<le> b_sleeps c \<and> b_sleeps c \<le> 3000 + late \<and> (case b_arrives c of None \<Rightarrow> False | Some d \<Rightarrow> 0 \<le> d \<and> d \<le> b_takes c) \<and> b_takes c \<le> 5000"

text \<open>Times in order, no two further apart than \<open>g\<close>.\<close>

fun apart_by :: "int \<Rightarrow> int \<Rightarrow> int list \<Rightarrow> bool" where
  "apart_by g b [] \<longleftrightarrow> True"
| "apart_by g b (a # as) \<longleftrightarrow> b \<le> a \<and> a \<le> b + g \<and> apart_by g a as"

lemma apart_by_mono: "apart_by g b as \<Longrightarrow> g \<le> h \<Longrightarrow> apart_by h b as"
  by (induction as arbitrary: b) auto

lemma apart_by_from: "apart_by g b as \<Longrightarrow> b \<le> c \<Longrightarrow> apart_by g c (dropWhile (\<lambda>a. a < c) as)"
  by (induction as arbitrary: b) auto

lemma heartbeats_apart:
  assumes "list_all (answered late) cs" "b \<le> t" "t \<le> b + 5000"
  shows "apart_by (13000 + late) b (heartbeat_thread t cs)"
  using assms
proof (induction cs arbitrary: b t)
  case (Cons c cs)
  then obtain d where d: "b_arrives c = Some d" "0 \<le> d" "d \<le> b_takes c" "b_takes c \<le> 5000"
      "3000 \<le> b_sleeps c" "b_sleeps c \<le> 3000 + late"
    by (auto simp: answered_def split: option.splits)
  with Cons.prems Cons.IH[of "t + b_sleeps c + d" "t + b_sleeps c + b_takes c"] show ?case by simp
qed simp

section \<open>A leased row\<close>

definition leased_row :: "string \<Rightarrow> nat \<Rightarrow> nat \<Rightarrow> int \<Rightarrow> task_row \<Rightarrow> bool" where
  "leased_row w u k x t \<longleftrightarrow> t_uid t = u \<and> t_state t = TRunning \<and> t_lease_owner t = Some w \<and> t_attempts t = k \<and>
     t_lease_until t = Some x \<and> t_pending t \<le> 0"

definition on_lease :: "string \<Rightarrow> nat \<Rightarrow> nat \<Rightarrow> int \<Rightarrow> db \<Rightarrow> bool" where
  "on_lease w u k x db \<longleftrightarrow> list_ex (leased_row w u k x) (db_tasks db)"

lemma leasedI: "t \<in> set (db_tasks db) \<Longrightarrow> leased_row w u k x t \<Longrightarrow> on_lease w u k x db"
  by (auto simp: on_lease_def list_ex_iff)

lemma leasedE:
  assumes "on_lease w u k x db"
  obtains t where "t \<in> set (db_tasks db)" "leased_row w u k x t"
  using assms by (auto simp: on_lease_def list_ex_iff)

lemma leased_held: "on_lease w u k x db \<Longrightarrow> held w u k db"
  by (auto simp: on_lease_def held_def leased_row_def list_ex_iff)

lemma leased_tasks: "db_tasks db' = db_tasks db \<Longrightarrow> on_lease w u k x db' = on_lease w u k x db"
  by (simp add: on_lease_def)

lemma leased_upd:
  assumes "on_lease w u k x db" and "\<And>t. t \<in> set (db_tasks db) \<Longrightarrow> leased_row w u k x t \<Longrightarrow> P t \<Longrightarrow> leased_row w u k x' (f t)"
    and "x' = x \<or> (\<forall>t. leased_row w u k x t \<longrightarrow> P t)"
  shows "on_lease w u k x' (upd_tasks P f db)"
proof -
  obtain t where t: "t \<in> set (db_tasks db)" "leased_row w u k x t" using assms(1) by (rule leasedE)
  have "leased_row w u k x' (if P t then f t else t)" using assms(2)[OF t] assms(3) t(2) by auto
  with upd_where_memI[OF t(1), of P f] show ?thesis by (auto simp: upd_tasks_def intro: leasedI)
qed

section \<open>The cascade leaves it\<close>

definition ids :: "db \<Rightarrow> (nat \<times> nat \<times> nat) list" where
  "ids db = map (\<lambda>t. (t_uid t, t_build t, t_id t)) (db_tasks db)"

definition keyed :: "db \<Rightarrow> bool" where
  "keyed db \<longleftrightarrow> distinct (map fst (ids db)) \<and> distinct (map snd (ids db))"

lemma keys_ok_keyed: "keys_ok db \<Longrightarrow> keyed db"
  by (simp add: keyed_def ids_def keys_ok_def comp_def)

lemma keyed_row: "keyed db \<Longrightarrow> t \<in> set (db_tasks db) \<Longrightarrow> s \<in> set (db_tasks db) \<Longrightarrow> t_uid t = t_uid s \<Longrightarrow> t = s"
  by (auto simp: keyed_def ids_def comp_def distinct_map inj_on_def)

lemma keyed_key: "keyed db \<Longrightarrow> (u, b, i) \<in> set (ids db) \<Longrightarrow> (v, b, i) \<in> set (ids db) \<Longrightarrow> u = v"
  unfolding keyed_def distinct_map inj_on_def by fastforce

lemma ids_tasks: "db_tasks db' = db_tasks db \<Longrightarrow> ids db' = ids db"
  by (simp add: ids_def)

lemma keyed_ids: "ids db' = ids db \<Longrightarrow> keyed db' = keyed db"
  by (simp add: keyed_def)

lemma ids_upd: "(\<And>t. t_uid (f t) = t_uid t \<and> t_build (f t) = t_build t \<and> t_id (f t) = t_id t) \<Longrightarrow> ids (upd_tasks P f db) = ids db"
  by (simp add: ids_def upd_tasks_def map_upd_where_same)

lemma maybe_finish_tasks [simp]:
  "db_tasks (maybe_finish now b db) = db_tasks db" "ids (maybe_finish now b db) = ids db"
  "on_lease w u k x (maybe_finish now b db) = on_lease w u k x db"
  by (simp_all add: maybe_finish_def Let_def ids_def on_lease_def)

definition keeps_leased :: "string \<Rightarrow> nat \<Rightarrow> nat \<Rightarrow> int \<Rightarrow> db \<Rightarrow> db \<Rightarrow> bool" where
  "keeps_leased w u k x db db' \<longleftrightarrow> on_lease w u k x db' \<and> ids db' = ids db"

lemma make_ready_leased:
  assumes "\<And>i db db'. finish b i db = Some db' \<Longrightarrow> keyed db \<Longrightarrow> on_lease w u k x db \<Longrightarrow> keeps_leased w u k x db db'"
    and "make_ready finish sha b i db = Some db'" "keyed db" "on_lease w u k x db" "(u, b, i) \<notin> set (ids db)"
  shows "keeps_leased w u k x db db'"
proof -
  have ne: "\<not> (t_build t = b \<and> t_id t = i)" if "t \<in> set (db_tasks db)" "leased_row w u k x t" for t
    using assms(5) that by (force simp: ids_def leased_row_def)
  have hit: "db_tasks (cache_hit key db) = db_tasks db" for key by simp
  have c: "on_lease w u k x (mark_cached b i key h (cache_hit key db))" "ids (mark_cached b i key h (cache_hit key db)) = ids db" for key h
    unfolding mark_cached_def
    by (rule leased_upd[of _ _ _ x]; use assms(4) ne in \<open>auto simp: leased_tasks[OF hit]\<close>)
      (subst ids_upd; simp add: ids_tasks[OF hit])
  have r: "on_lease w u k x (mark_ready b i key a n (cache_hit key db))" "ids (mark_ready b i key a n (cache_hit key db)) = ids db" for key a n
    unfolding mark_ready_def
    by (rule leased_upd[of _ _ _ x]; use assms(4) ne in \<open>auto simp: leased_tasks[OF hit]\<close>)
      (subst ids_upd; simp add: ids_tasks[OF hit])
  from assms(2) show ?thesis
    using assms(1)[OF _ _ c(1)] c(2) r keyed_ids[OF c(2)] assms(3)
    by (auto simp: make_ready_def Let_def keeps_leased_def split: list.splits)
qed

lemma count_down_leased:
  assumes "count_down v db = (db1, rs)" "on_lease w u k x db"
  shows "keeps_leased w u k x db db1" and "(p, i) \<in> set rs \<Longrightarrow> \<exists>b. (v, b, i) \<in> set (ids db)"
    and "(p, i) \<in> set rs \<Longrightarrow> v = u \<Longrightarrow> keyed db \<Longrightarrow> p \<noteq> 0"
proof -
  let ?f = "\<lambda>t. t\<lparr>t_pending := t_pending t - 1\<rparr>"
  have db1: "db1 = upd_tasks (\<lambda>t. t_uid t = v) ?f db" and rs: "rs = map (\<lambda>t. (t_pending t, t_id t)) (filter (\<lambda>t. t_uid t = v) (db_tasks db1))"
    using assms(1) by (auto simp: count_down_def Let_def)
  have i: "ids db1 = ids db" unfolding db1 by (rule ids_upd) simp
  have l: "on_lease w u k x db1" unfolding db1 by (rule leased_upd[OF assms(2)]) (auto simp: leased_row_def)
  from i l show "keeps_leased w u k x db db1" by (simp add: keeps_leased_def)
  show "\<exists>b. (v, b, i) \<in> set (ids db)" if p: "(p, i) \<in> set rs"
  proof -
    obtain t where "t \<in> set (db_tasks db1)" "t_uid t = v" "t_id t = i" using p by (auto simp: rs)
    then have "(v, t_build t, i) \<in> set (ids db1)" by (force simp: ids_def)
    with i show ?thesis by auto
  qed
  show "p \<noteq> 0" if z: "(p, i) \<in> set rs" "v = u" "keyed db"
  proof -
    obtain y where y: "y \<in> set (db_tasks db1)" "t_uid y = v" "p = t_pending y" using z(1) by (auto simp: rs)
    from y(1) have "y \<in> set (upd_where (\<lambda>t. t_uid t = v) ?f (db_tasks db))" by (simp add: db1 upd_tasks_def)
    then obtain t where "t \<in> set (db_tasks db)" "y = (if t_uid t = v then ?f t else t)" by (auto simp: upd_where_def)
    with y have t: "t \<in> set (db_tasks db)" "t_uid t = v" "p = t_pending t - 1" by (auto split: if_splits)
    obtain r where r: "r \<in> set (db_tasks db)" "leased_row w u k x r" using assms(2) by (rule leasedE)
    then have "t = r" using keyed_row[OF z(3) t(1)] t(2) z(2) by (simp add: leased_row_def)
    with r(2) t(3) show ?thesis by (simp add: leased_row_def)
  qed
qed

text \<open>The rows the cascade counts down are of the build it is about.\<close>

lemma count_downs_leased:
  assumes "\<And>i db db'. finish b i db = Some db' \<Longrightarrow> keyed db \<Longrightarrow> on_lease w u k x db \<Longrightarrow> keeps_leased w u k x db db'"
    and "count_downs finish sha b us db = Some db'" "keyed db" "on_lease w u k x db"
    and "\<And>v c i. v \<in> set us \<Longrightarrow> (v, c, i) \<in> set (ids db) \<Longrightarrow> c = b"
  shows "keeps_leased w u k x db db'"
  using assms(2-)
proof (induction us arbitrary: db)
  case Nil
  then show ?case by (simp add: keeps_leased_def)
next
  case (Cons v us)
  obtain db1 rs where cd: "count_down v db = (db1, rs)" by fastforce
  note one = count_down_leased[OF cd Cons.prems(3)]
  then have d1: "on_lease w u k x db1" "ids db1 = ids db" by (simp_all add: keeps_leased_def)
  from Cons.prems(1) cd have "rs \<noteq> []" by auto
  then obtain p i rest where rs: "rs = (p, i) # rest" by (metis neq_Nil_conv prod.exhaust)
  with Cons.prems(1) cd obtain db2 where
    d2: "(if p = 0 then make_ready finish sha b i db1 else Some db1) = Some db2" "count_downs finish sha b us db2 = Some db'"
    by (auto split: option.splits)
  have "keeps_leased w u k x db1 db2"
  proof (cases "p = 0")
    case True
    obtain c where "(v, c, i) \<in> set (ids db)" using one(2)[of p i] rs by auto
    then have v: "(v, b, i) \<in> set (ids db)" using Cons.prems(4)[of v c i] by simp
    have "v \<noteq> u" using one(3)[of p i] rs True Cons.prems(2) by auto
    then have "(u, b, i) \<notin> set (ids db1)" using keyed_key[OF Cons.prems(2) v] d1(2) by auto
    from make_ready_leased[OF assms(1) _ _ d1(1) this] d2(1) True keyed_ids[OF d1(2)] Cons.prems(2) show ?thesis by simp
  next
    case False
    with d2(1) d1(1) show ?thesis by (simp add: keeps_leased_def)
  qed
  then have d: "on_lease w u k x db2" "ids db2 = ids db" using d1(2) by (simp_all add: keeps_leased_def)
  have "keeps_leased w u k x db2 db'"
    by (rule Cons.IH[OF d2(2) _ d(1)]) (use Cons.prems(2,4) d(2) keyed_ids[OF d(2)] in auto)
  with d(2) show ?case by (simp add: keeps_leased_def)
qed

lemma dependents_build:
  assumes "keyed db" "v \<in> set (dependents b i db)" "(v, c, j) \<in> set (ids db)"
  shows "c = b"
proof -
  obtain t where t: "t \<in> set (db_tasks db)" "t_uid t = v" "t_build t = b"
    using assms(2) by (auto simp: dependents_def task_rows_def)
  obtain s where s: "s \<in> set (db_tasks db)" "t_uid s = v" "t_build s = c" using assms(3) by (auto simp: ids_def)
  from keyed_row[OF assms(1) t(1) s(1)] t s show ?thesis by simp
qed

lemma finished_leased:
  "finished n sha now b i db = Some db' \<Longrightarrow> keyed db \<Longrightarrow> on_lease w u k x db \<Longrightarrow> keeps_leased w u k x db db'"
proof (induction n arbitrary: i db db')
  case (Suc n)
  from Suc.prems(1) obtain db1 where cd: "count_downs (finished n sha now) sha b (dependents b i db) db = Some db1"
    and db': "db' = (if dependents b i db = [] then maybe_finish now b db1 else db1)"
    by (auto simp: Let_def split: option.splits)
  have "keeps_leased w u k x db db1"
    by (rule count_downs_leased[OF Suc.IH cd Suc.prems(2,3) dependents_build[OF Suc.prems(2)]])
  then show ?case by (simp add: db' keeps_leased_def)
qed simp

section \<open>Completions of other tasks leave it\<close>

lemma complete_body_leased:
  assumes body: "complete_body sha m cas now r db = Some (a, db')" and l: "keyed db" "on_lease w u k x db" and u: "r_uid r \<noteq> u"
  shows "on_lease w u k x db'"
proof -
  have other: "on_lease w u k x (upd_tasks P f db)" if "\<And>t. P t \<Longrightarrow> t_uid t = r_uid r" for P f
    by (rule leased_upd[OF l(2)]) (use that u in \<open>auto simp: leased_row_def\<close>)
  have live: "\<And>t. live_row (r_uid r) t \<Longrightarrow> t_uid t = r_uid r" and att: "\<And>t. attempt_row r t \<Longrightarrow> t_uid t = r_uid r"
    by (simp_all add: live_row_def attempt_row_def)
  consider "r_ok r" | "\<not> r_ok r" "r_retryable r" | "\<not> r_ok r" "\<not> r_retryable r" by blast
  then show ?thesis
  proof cases
    case 1
    with body have d: "complete_done sha cas now r db = Some (a, db')" by (simp add: complete_body_def)
    show ?thesis
    proof (cases "filter (live_row (r_uid r)) (db_tasks db)")
      case (Cons t ts)
      let ?d = "upd_tasks (live_row (r_uid r)) (mark_done r) db"
      let ?e = "cache_put (text_of (t_key t)) (r_output r) (cas_size_of cas (r_output r)) ?d"
      from d Cons have f: "finish_task sha now (t_build t) (t_id t) ?e = Some db'" by (auto simp: complete_done_def Let_def)
      have e: "db_tasks ?e = db_tasks ?d" by simp
      have "on_lease w u k x ?e" using other[OF live] by (simp add: leased_tasks[OF e])
      moreover have "ids ?e = ids db" unfolding ids_tasks[OF e] by (rule ids_upd) (simp add: mark_done_def)
      then have "keyed ?e" using l(1) by (simp add: keyed_def)
      ultimately show ?thesis using finished_leased[OF f[unfolded finish_task_def]] by (simp add: keeps_leased_def)
    qed (use d l(2) in \<open>simp add: complete_done_def\<close>)
  next
    case 2
    with body have "db' = snd (complete_retry m now r db)" by (simp add: complete_body_def)
    with other[OF att] l(2) show ?thesis by (simp add: complete_retry_def Let_def split: list.splits)
  next
    case 3
    with body have "db' = snd (complete_failed now r db)" by (simp add: complete_body_def)
    with other[OF live] l(2) show ?thesis by (simp add: complete_failed_def split: list.splits)
  qed
qed

lemma complete_task_leased:
  assumes call: "complete_task sha m cas env now r db = (st, acc, db')" and l: "keyed db" "on_lease w u k x db" "r_uid r \<noteq> u"
  shows "on_lease w u k x db'"
proof -
  obtain q where q: "complete_txn sha m cas env now q db = (st, acc, db')" "r_uid q = r_uid r"
    using call by (auto simp: complete_task_def retry_copy_def split: if_splits)
  then obtain d c res where t: "run_txn env (\<lambda>_ _ u. u) (\<lambda>db u. (u, case complete_body sha m cas now q db of
      None \<Rightarrow> Throws ''undefined row'' | Some (a, db') \<Rightarrow> Finished db' a)) db () = (d, c, res)" "db' = d"
    by (auto simp: complete_txn_def split: prod.splits txn_result.splits)
  from t(1) show ?thesis
  proof (cases rule: run_txn_cases)
    case (returned a rj)
    then have "complete_body sha m cas now q db = Some (a, d)" by (auto split: option.splits)
    from complete_body_leased[OF this l(1,2)] q(2) l(3) t(2) show ?thesis by simp
  next
    case (landed a rj e j)
    then have "complete_body sha m cas now q db = Some (a, d)" by (auto split: option.splits)
    from complete_body_leased[OF this l(1,2)] q(2) l(3) t(2) show ?thesis by simp
  qed (use t(2) l in simp)
qed

section \<open>Histories\<close>

text \<open>What reaches the coordinator, in order: heartbeats and rounds of the reaper with their times, and all its other calls.\<close>

datatype event =
    Beat int string
  | Round int "nat option"
  | Claim int string string "int option" "nat set" nat
  | Report txn_env int task_result
  | Submission txn_env int build_spec
  | Registration int string string int
  | Uploads "nat \<Rightarrow> put_env" "(string \<times> string) list"
  | Restart

fun happen :: "sha_fn \<Rightarrow> nat \<Rightarrow> int \<Rightarrow> event \<Rightarrow> coord \<Rightarrow> coord" where
  "happen sha m lease (Beat now w) s = s\<lparr>co_db := heartbeat lease now w (co_db s)\<rparr>"
| "happen sha m lease (Round now stop) s = reap_round m stop now s"
| "happen sha m lease (Claim now w tc part locked pick) s = s\<lparr>co_db := snd (claim_stmt lease now w tc part locked pick (co_db s))\<rparr>"
| "happen sha m lease (Report env now r) s = complete_call sha m env now r s"
| "happen sha m lease (Submission env now spec) s = submit_call sha env now spec s"
| "happen sha m lease (Registration now w tc slots) s = register_call now w tc slots s"
| "happen sha m lease (Uploads io bs) s = put_call sha io bs s"
| "happen sha m lease Restart s = s\<lparr>co_parts := Map.empty, co_gen := 0\<rparr>"

definition history :: "sha_fn \<Rightarrow> nat \<Rightarrow> int \<Rightarrow> event list \<Rightarrow> coord \<Rightarrow> coord" where
  "history sha m lease es s = fold (happen sha m lease) es s"

fun event_ok :: "event \<Rightarrow> bool" where
  "event_ok (Submission env now spec) \<longleftrightarrow> leaf_compiles (bs_tasks spec)"
| "event_ok (Uploads io bs) \<longleftrightarrow> (\<forall>i. put_env_ok (io i))"
| "event_ok _ \<longleftrightarrow> True"

lemma happen_run:
  assumes "event_ok e"
  shows "run_of (coord_step sha m lease True) s (happen sha m lease e s)"
proof (cases e)
  case (Beat now w)
  have "coord_step sha m lease True s (s\<lparr>co_db := heartbeat_leases lease now w (co_db s)\<rparr>)" by (rule step_leases)
  moreover have "coord_step sha m lease True (s\<lparr>co_db := heartbeat_leases lease now w (co_db s)\<rparr>) (happen sha m lease e s)"
    using step_seen[of sha m lease True "s\<lparr>co_db := heartbeat_leases lease now w (co_db s)\<rparr>" now w] by (simp add: Beat heartbeat_def)
  ultimately show ?thesis by (blast intro: run_refl run_step)
qed (use assms in \<open>auto intro!: run_step[OF run_refl] coord_step.intros\<close>)

lemma happen_sound: "coord_sound sha m s \<Longrightarrow> event_ok e \<Longrightarrow> coord_sound sha m (happen sha m lease e s)"
  using run_evolves[OF happen_run] by blast

text \<open>What an event about another matter leaves, and how far a heartbeat extends.\<close>

definition reported :: "event \<Rightarrow> nat option" where
  "reported e = (case e of Report env now r \<Rightarrow> Some (r_uid r) | _ \<Rightarrow> None)"

lemma submit_build_tasks:
  assumes "submit_build sha cas env now spec db = (st, rep, db')"
  shows "\<exists>new. db_tasks db' = db_tasks db @ new"
proof (cases "find bad_compile (bs_tasks spec) = None \<and> (\<exists>order. topo_order (graph_of (bs_tasks spec)) = Inr order)")
  case False
  then have "db' = db"
    using assms by (cases "find bad_compile (bs_tasks spec)"; cases "topo_order (graph_of (bs_tasks spec))") (auto simp: submit_build_def)
  then show ?thesis by simp
next
  case True
  then obtain order where o: "find bad_compile (bs_tasks spec) = None" "topo_order (graph_of (bs_tasks spec)) = Inr order" by blast
  obtain rank part d c res where t: "run_txn env (submit_partial sha cas spec order) (submit sha cas (refuses env) now spec order rank part) db 0 = (d, c, res)"
    "db' = d" using assms o by (auto simp: submit_build_def Let_def split: prod.splits txn_result.splits)
  have new: "\<exists>new. db_tasks d = db_tasks db @ new"
    if "submit sha cas (refuses env) now spec order rank part db rj = (c, Finished d a)" for rj a
    using that by (auto simp: submit_def Let_def insert_build_def insert_tasks_def count_hits_def split: prod.splits option.splits if_splits)
  from t(1) show ?thesis
    by (cases rule: run_txn_cases) (use new t(2) in auto)
qed

lemma claim_leased:
  assumes "keyed db" "on_lease w u k x db"
  shows "on_lease w u k x (snd (claim_stmt lease now v tc part locked pick db))"
proof (cases "pick_task pick (filter (eligible now v tc part locked) (db_tasks db))")
  case None
  then show ?thesis using assms(2) by (simp add: claim_stmt_def)
next
  case (Some t)
  have t: "t \<in> set (db_tasks db)" "t_state t = TReady"
    using pick_task_Some(1)[OF Some] by (auto simp: eligible_def)
  have "on_lease w u k x (upd_tasks (\<lambda>s. t_uid s = t_uid t) (mark_claimed lease now v) db)"
  proof (rule leased_upd[OF assms(2)])
    fix s assume "s \<in> set (db_tasks db)" "leased_row w u k x s" "t_uid s = t_uid t"
    with keyed_row[OF assms(1) _ t(1)] t(2) show "leased_row w u k x (mark_claimed lease now v s)" by (auto simp: leased_row_def)
  qed simp
  then show ?thesis by (simp add: claim_stmt_def Some)
qed

text \<open>The lease the row has after an event.\<close>

fun extends :: "int \<Rightarrow> string \<Rightarrow> int \<Rightarrow> event \<Rightarrow> int" where
  "extends lease w x (Beat now v) = (if v = w then now + lease else x)"
| "extends lease w x _ = x"

fun in_time :: "int \<Rightarrow> event \<Rightarrow> bool" where
  "in_time x (Round now stop) \<longleftrightarrow> now \<le> x"
| "in_time x _ \<longleftrightarrow> True"

lemma reap_leased:
  assumes "on_lease w u k x db" "now \<le> x"
  shows "on_lease w u k x (reap m stop now db)"
proof -
  have "on_lease w u k x (upd_tasks (expired now) (mark_reaped m now) db)"
    by (rule leased_upd[OF assms(1)]) (use assms(2) in \<open>auto simp: leased_row_def expired_def\<close>)
  moreover have "db_tasks (reap m stop now db) = db_tasks (upd_tasks (expired now) (mark_reaped m now) db)"
    by (simp add: reap_tasks upd_tasks_def)
  ultimately show ?thesis by (simp only: on_lease_def)
qed

lemma beat_leased:
  assumes "on_lease w u k x db"
  shows "on_lease w u k (if v = w then now + lease else x) (heartbeat lease now v db)"
proof -
  have "on_lease w u k (if v = w then now + lease else x) (heartbeat_leases lease now v db)"
    unfolding heartbeat_leases_def by (rule leased_upd[OF assms]) (auto simp: leased_row_def)
  then show ?thesis by (simp add: heartbeat_def heartbeat_seen_def on_lease_def)
qed

lemma happen_leased:
  assumes sound: "coord_sound sha m s" and l: "on_lease w u k x (co_db s)" and e: "in_time x e" "reported e \<noteq> Some u"
  shows "on_lease w u k (extends lease w x e) (co_db (happen sha m lease e s))"
proof -
  have k: "keyed (co_db s)" using sound by (auto simp: coord_sound_def dest!: consistentD(1) intro: keys_ok_keyed)
  show ?thesis
  proof (cases e)
    case (Beat now v)
    with beat_leased[OF l] show ?thesis by simp
  next
    case (Round now stop)
    with reap_leased[OF l] e(1) show ?thesis by (simp add: reap_round_def wake_workers_def Let_def)
  next
    case (Claim now v tc part locked pick)
    with claim_leased[OF k l] show ?thesis by simp
  next
    case (Report env now r)
    obtain st acc db' where c: "complete_task sha m (co_cas s) env now r (co_db s) = (st, acc, db')" by (metis prod_cases3)
    from complete_task_leased[OF c k l] e(2) Report c show ?thesis
      by (simp add: complete_call_def wake_workers_def Let_def reported_def)
  next
    case (Submission env now spec)
    obtain st rep db' where c: "submit_build sha (co_cas s) env now spec (co_db s) = (st, rep, db')" by (metis prod_cases3)
    from submit_build_tasks[OF c] l Submission c show ?thesis
      by (auto simp: submit_call_def wake_workers_def Let_def on_lease_def)
  next
    case (Registration now v tc slots)
    with l show ?thesis by (auto simp: register_call_def register_worker_def Let_def on_lease_def split: list.splits)
  qed (use l in \<open>simp_all add: put_call_def\<close>)
qed

section \<open>A live worker keeps its tasks\<close>

fun time_of :: "event \<Rightarrow> int option" where
  "time_of (Beat now w) = Some now"
| "time_of (Round now stop) = Some now"
| "time_of (Claim now w tc part locked pick) = Some now"
| "time_of (Report env now r) = Some now"
| "time_of (Submission env now spec) = Some now"
| "time_of (Registration now w tc slots) = Some now"
| "time_of (Uploads io bs) = None"
| "time_of Restart = None"

fun beat_of :: "string \<Rightarrow> event \<Rightarrow> int option" where
  "beat_of w (Beat now v) = (if v = w then Some now else None)"
| "beat_of w _ = None"

abbreviation event_times :: "event list \<Rightarrow> int list" where
  "event_times es \<equiv> List.map_filter time_of es"

abbreviation beats_of :: "string \<Rightarrow> event list \<Rightarrow> int list" where
  "beats_of w es \<equiv> List.map_filter (beat_of w) es"

lemma beats_times: "a \<in> set (beats_of w es) \<Longrightarrow> a \<in> set (event_times es)"
proof -
  have "beat_of w e = Some a \<Longrightarrow> time_of e = Some a" for e by (cases e) (auto split: if_splits)
  then show "a \<in> set (beats_of w es) \<Longrightarrow> a \<in> set (event_times es)" by (force simp: List.map_filter_def)
qed

lemma kept_on_time:
  assumes "coord_sound sha m s" "on_lease w u k (b + lease) (co_db s)"
    and "sorted (event_times es)" "apart_by lease b (beats_of w es)" "list_all (\<lambda>t. t \<le> last (b # beats_of w es) + lease) (event_times es)"
    and "list_all event_ok es" "list_all (\<lambda>e. reported e \<noteq> Some u) es"
  shows "held w u k (co_db (history sha m lease es s))"
  using assms
proof (induction es arbitrary: s b)
  case Nil
  then show ?case by (auto simp: history_def dest: leased_held)
next
  case (Cons e es)
  let ?s = "happen sha m lease e s"
  have "in_time (b + lease) e"
  proof (cases e)
    case (Round now stop)
    show ?thesis
    proof (cases "beats_of w es")
      case Nil
      with Cons.prems(5) Round show ?thesis by (simp add: map_filter_simps)
    next
      case (Cons a as)
      then have "a \<in> set (event_times es)" using beats_times[of a w es] by simp
      with Cons Cons.prems(3,4) Round show ?thesis by (auto simp: map_filter_simps)
    qed
  qed auto
  note l = happen_leased[OF Cons.prems(1,2) this, of lease]
  note sound = happen_sound[OF Cons.prems(1), of e lease]
  have "held w u k (co_db (history sha m lease es ?s))"
  proof (cases "beat_of w e")
    case None
    then have "extends lease w (b + lease) e = b + lease" by (cases e) (auto split: if_splits)
    with None Cons.IH[of ?s b] l sound Cons.prems show ?thesis
      by (cases "time_of e") (auto simp: map_filter_simps)
  next
    case (Some a)
    then have "extends lease w (b + lease) e = a + lease" "time_of e = Some a" by (cases e; auto split: if_splits)+
    with Some Cons.IH[of ?s a] l sound Cons.prems show ?thesis by (auto simp: map_filter_simps)
  qed
  then show ?case by (simp add: history_def)
qed

lemma live_worker_keeps:
  assumes "coord_sound sha m s" "on_lease w u k (now + lease) (co_db s)" "13000 + late \<le> lease"
    and "list_all (answered late) calls" "start \<le> now"
    and "sorted (event_times es)" "beats_of w es = dropWhile (\<lambda>a. a < now) (heartbeat_thread start calls)"
    and "list_all (\<lambda>t. t \<le> last (now # beats_of w es) + lease) (event_times es)"
    and "list_all event_ok es" "list_all (\<lambda>e. reported e \<noteq> Some u) es"
  shows "held w u k (co_db (history sha m lease es s))"
proof -
  have "apart_by (13000 + late) start (heartbeat_thread start calls)" by (rule heartbeats_apart[OF assms(4)]) simp_all
  from apart_by_mono[OF apart_by_from[OF this assms(5)] assms(3)] have "apart_by lease now (beats_of w es)" by (simp add: assms(7))
  from kept_on_time[OF assms(1,2,6) this assms(8-10)] show ?thesis .
qed

section \<open>Leases of three seconds\<close>

text \<open>Between two heartbeats that arrive after the same delay lie three seconds and the duration of the
  first call, so a lease of three seconds ends before it is renewed, and a round of the reaper in between
  takes the task from a worker that is alive and answered.\<close>

lemma three_second_leases:
  assumes sound: "coord_sound sha m s" and l: "on_lease w u k x (co_db s)"
    and thread: "heartbeat_thread t [\<lparr>b_sleeps = z, b_arrives = Some d, b_takes = n\<rparr>, \<lparr>b_sleeps = z', b_arrives = Some d, b_takes = n'\<rparr>] = [b, b']"
    and n: "2 \<le> n" "3000 \<le> z'"
  shows "b < b + 3001" "b + 3001 < b'" "\<not> held w u k (co_db (history sha m 3000 [Beat b w, Round (b + 3001) None, Beat b' w] s))"
proof -
  show "b < b + 3001" "b + 3001 < b'" using thread n by auto
  let ?s = "happen sha m 3000 (Beat b w) s" and ?r = "b + 3001"
  have "coord_sound sha m ?s" by (rule happen_sound[OF sound]) simp
  then have key: "keyed (co_db ?s)" by (auto simp: coord_sound_def dest!: consistentD(1) intro: keys_ok_keyed)
  obtain y where y: "y \<in> set (db_tasks (co_db ?s))" "leased_row w u k (b + 3000) y"
    using beat_leased[OF l, of w b 3000] by (auto elim: leasedE)
  have gone: "z = mark_reaped m ?r y" if z: "z \<in> set (db_tasks (reap m None ?r (co_db ?s)))" "t_uid z = u" for z
  proof -
    have "z \<in> set (upd_where (expired ?r) (mark_reaped m ?r) (db_tasks (co_db ?s)))" using z(1) by (simp only: reap_tasks)
    then obtain v where v: "v \<in> set (db_tasks (co_db ?s))" "z = (if expired ?r v then mark_reaped m ?r v else v)"
      by (auto simp: upd_where_def)
    then have "t_uid v = u" using z(2) by (auto simp: mark_reaped_def split: if_splits)
    then have "v = y" using keyed_row[OF key v(1) y(1)] y(2) by (simp add: leased_row_def)
    moreover have "expired ?r y" using y(2) by (simp add: leased_row_def expired_def)
    ultimately show ?thesis using v(2) by simp
  qed
  have "\<not> held w u k (heartbeat 3000 b' w (reap m None ?r (co_db ?s)))"
    using gone by (fastforce simp: held_def list_ex_iff heartbeat_rows mark_reaped_def)
  then show "\<not> held w u k (co_db (history sha m 3000 [Beat b w, Round ?r None, Beat b' w] s))"
    by (simp add: history_def reap_round_def wake_workers_def Let_def)
qed

end
