(* ===== verification/Dc_Process.thy ===== *)
theory Dc_Process
  imports Dc_Preprocess
begin

text \<open>
  \<open>run_process\<close> (\<open>src/util.cpp:104-183\<close>): pipes, fork, the loop that polls and reads both pipes until
  both are at their end, the deadline, and what becomes of the child's status. The child's side and the
  kernel are a parameter: the answers of \<open>pipe\<close> and \<open>fork\<close>, of every \<open>poll\<close> with the reads after it, in
  order, and what \<open>waitpid\<close> yields. The lemmas show that the result is the child's exit code with all it
  wrote, unless the deadline passed or one of these calls failed, and where the deadline does not help.
\<close>

section \<open>The poll loop\<close>

text \<open>A \<open>read\<close> of up to 64 KB: some characters, the end of the pipe, or an error.\<close>

datatype chunk = Chunk string | Pipe_end | Read_failed

text \<open>One \<open>poll\<close>: it timed out, was interrupted, failed, or some descriptors are ready; with what \<open>read\<close>
  then gave for each of the two.\<close>

datatype polled = Poll_timeout | Poll_interrupted | Poll_failed | Poll_ready "chunk option" "chunk option"

record pump =
  pu_out :: string
  pu_err :: string
  pu_out_open :: bool
  pu_err_open :: bool
  pu_killed :: bool

definition read_out :: "chunk option \<Rightarrow> pump \<Rightarrow> pump" where
  "read_out c p =
     (if \<not> pu_out_open p then p
      else case c of None \<Rightarrow> p
           | Some (Chunk d) \<Rightarrow> p\<lparr>pu_out := pu_out p @ d\<rparr>
           | Some _ \<Rightarrow> p\<lparr>pu_out_open := False\<rparr>)"

definition read_err :: "chunk option \<Rightarrow> pump \<Rightarrow> pump" where
  "read_err c p =
     (if \<not> pu_err_open p then p
      else case c of None \<Rightarrow> p
           | Some (Chunk d) \<Rightarrow> p\<lparr>pu_err := pu_err p @ d\<rparr>
           | Some _ \<Rightarrow> p\<lparr>pu_err_open := False\<rparr>)"

text \<open>\<open>None\<close>: the answers of \<open>poll\<close> end while a pipe is still open, the loop goes on.\<close>

fun pump_loop :: "polled list \<Rightarrow> pump \<Rightarrow> pump option" where
  "pump_loop ps p =
     (if \<not> pu_out_open p \<and> \<not> pu_err_open p then Some p
      else case ps of
             [] \<Rightarrow> None
           | Poll_timeout # _ \<Rightarrow> Some (p\<lparr>pu_killed := True\<rparr>)
           | Poll_interrupted # rest \<Rightarrow> pump_loop rest p
           | Poll_failed # _ \<Rightarrow> Some p
           | Poll_ready a b # rest \<Rightarrow> pump_loop rest (read_err b (read_out a p)))"

declare pump_loop.simps [simp del]

section \<open>The process\<close>

text \<open>What \<open>waitpid\<close> yields: the child exited with a code, was killed by a signal, or the call failed. Its
  answer is not looked at, so that the status is then the 0 it was set to, which reads as an exit with 0.\<close>

datatype wait_status = Wexited int | Wsignaled | Wait_failed

record proc_env =
  pe_out_pipe :: bool
  pe_err_pipe :: bool
  pe_fork :: bool
  pe_polls :: "polled list"
  pe_status :: wait_status

definition no_result :: proc_result where
  "no_result = \<lparr>exit_code = -1, p_output = [], p_err = []\<rparr>"

definition start_pump :: "bool \<Rightarrow> pump" where
  "start_pump split = \<lparr>pu_out = [], pu_err = [], pu_out_open = True, pu_err_open = split, pu_killed = False\<rparr>"

definition process_result :: "pump \<Rightarrow> wait_status \<Rightarrow> proc_result" where
  "process_result p status =
     \<lparr>exit_code = (if pu_killed p then -1 else case status of Wexited c \<Rightarrow> c | Wsignaled \<Rightarrow> -1 | Wait_failed \<Rightarrow> 0),
      p_output = pu_out p @ (if pu_killed p then nl # ''[timed out]'' else []), p_err = pu_err p\<rparr>"

definition run_process :: "proc_env \<Rightarrow> bool \<Rightarrow> proc_result option" where
  "run_process e split =
     (if \<not> pe_out_pipe e \<or> split \<and> \<not> pe_err_pipe e \<or> \<not> pe_fork e then Some no_result
      else case pump_loop (pe_polls e) (start_pump split) of
             None \<Rightarrow> None
           | Some p \<Rightarrow> Some (process_result p (pe_status e)))"

section \<open>What it returns\<close>

text \<open>What the answers hold for one pipe: its chunks up to its end.\<close>

fun pipe_text :: "chunk option list \<Rightarrow> string" where
  "pipe_text [] = []"
| "pipe_text (None # cs) = pipe_text cs"
| "pipe_text (Some (Chunk d) # cs) = d @ pipe_text cs"
| "pipe_text (Some Pipe_end # cs) = []"
| "pipe_text (Some Read_failed # cs) = []"

fun out_part :: "polled \<Rightarrow> chunk option" where
  "out_part (Poll_ready a b) = a"
| "out_part _ = None"

fun err_part :: "polled \<Rightarrow> chunk option" where
  "err_part (Poll_ready a b) = b"
| "err_part _ = None"

lemma pump_loop_steps:
  "\<not> pu_out_open p \<Longrightarrow> \<not> pu_err_open p \<Longrightarrow> pump_loop ps p = Some p"
  "pu_out_open p \<or> pu_err_open p \<Longrightarrow> pump_loop [] p = None"
  "pu_out_open p \<or> pu_err_open p \<Longrightarrow> pump_loop (Poll_timeout # ps) p = Some (p\<lparr>pu_killed := True\<rparr>)"
  "pu_out_open p \<or> pu_err_open p \<Longrightarrow> pump_loop (Poll_interrupted # ps) p = pump_loop ps p"
  "pu_out_open p \<or> pu_err_open p \<Longrightarrow> pump_loop (Poll_failed # ps) p = Some p"
  "pu_out_open p \<or> pu_err_open p \<Longrightarrow> pump_loop (Poll_ready a b # ps) p = pump_loop ps (read_err b (read_out a p))"
  by (subst pump_loop.simps; auto)+

lemma pump_loop_texts:
  assumes "pump_loop ps p = Some q" "\<not> pu_killed q" "Poll_failed \<notin> set ps"
  shows "\<not> pu_out_open q \<and> \<not> pu_err_open q \<and>
    pu_out q = pu_out p @ (if pu_out_open p then pipe_text (map out_part ps) else []) \<and>
    pu_err q = pu_err p @ (if pu_err_open p then pipe_text (map err_part ps) else [])"
  using assms
proof (induction ps arbitrary: p)
  case Nil
  then show ?case by (cases "pu_out_open p \<or> pu_err_open p") (simp_all add: pump_loop_steps)
next
  case (Cons x ps)
  show ?case
  proof (cases "pu_out_open p \<or> pu_err_open p")
    case False
    with Cons.prems(1) show ?thesis by (simp add: pump_loop_steps)
  next
    case True
    note step = pump_loop_steps(3-6)[OF True]
    show ?thesis
    proof (cases x)
      case (Poll_ready a b)
      with Cons.prems(1) step(4) have "pump_loop ps (read_err b (read_out a p)) = Some q" by simp
      from Cons.IH[OF this Cons.prems(2)] Cons.prems(3) Poll_ready show ?thesis
        by (auto simp: read_err_def read_out_def split: option.splits chunk.splits if_splits)
    qed (use Cons step in auto)
  qed
qed

lemma run_process_complete:
  assumes "run_process e split = Some r" "exit_code r \<noteq> -1" "Poll_failed \<notin> set (pe_polls e)"
  shows "pe_status e = Wexited (exit_code r) \<or> pe_status e = Wait_failed \<and> exit_code r = 0" "p_output r = pipe_text (map out_part (pe_polls e))"
    "p_err r = (if split then pipe_text (map err_part (pe_polls e)) else [])"
proof -
  have up: "\<not> (\<not> pe_out_pipe e \<or> split \<and> \<not> pe_err_pipe e \<or> \<not> pe_fork e)"
    using assms(1,2) by (auto simp: run_process_def no_result_def split: if_splits)
  then obtain p where p: "pump_loop (pe_polls e) (start_pump split) = Some p" "r = process_result p (pe_status e)"
    using assms(1) by (auto simp: run_process_def split: if_splits option.splits)
  have k: "\<not> pu_killed p" and st: "pe_status e = Wexited (exit_code r) \<or> pe_status e = Wait_failed \<and> exit_code r = 0"
    using assms(2) p(2) by (auto simp: process_result_def split: wait_status.splits if_splits)
  from pump_loop_texts[OF p(1) k assms(3)]
  have "pu_out p = pipe_text (map out_part (pe_polls e))" "pu_err p = (if split then pipe_text (map err_part (pe_polls e)) else [])"
    by (simp_all add: start_pump_def)
  with k st p(2) show "pe_status e = Wexited (exit_code r) \<or> pe_status e = Wait_failed \<and> exit_code r = 0" "p_output r = pipe_text (map out_part (pe_polls e))"
    "p_err r = (if split then pipe_text (map err_part (pe_polls e)) else [])" by (simp_all add: process_result_def)
qed

text \<open>It returns as soon as the ends of its pipes are among the answers.\<close>

lemma pump_loop_returns:
  assumes "pu_out_open p \<longrightarrow> Some Pipe_end \<in> set (map out_part ps)" "pu_err_open p \<longrightarrow> Some Pipe_end \<in> set (map err_part ps)"
  shows "pump_loop ps p \<noteq> None"
  using assms
proof (induction ps arbitrary: p)
  case Nil
  then show ?case by (simp add: pump_loop_steps)
next
  case (Cons x ps)
  show ?case
  proof (cases "pu_out_open p \<or> pu_err_open p")
    case True
    note step = pump_loop_steps(3-6)[OF True]
    show ?thesis
    proof (cases x)
      case (Poll_ready a b)
      let ?q = "read_err b (read_out a p)"
      have "pu_out_open ?q \<longrightarrow> Some Pipe_end \<in> set (map out_part ps)" "pu_err_open ?q \<longrightarrow> Some Pipe_end \<in> set (map err_part ps)"
        using Cons.prems Poll_ready by (auto simp: read_err_def read_out_def split: option.splits chunk.splits if_splits)
      from Cons.IH[OF this] show ?thesis by (simp add: Poll_ready step(4))
    qed (use Cons step in auto)
  qed (simp add: pump_loop_steps)
qed

lemma run_process_returns:
  assumes "Some Pipe_end \<in> set (map out_part (pe_polls e))" "split \<longrightarrow> Some Pipe_end \<in> set (map err_part (pe_polls e))"
  shows "run_process e split \<noteq> None"
  using pump_loop_returns[of "start_pump split" "pe_polls e"] assms
  by (auto simp: run_process_def start_pump_def split: option.splits)

text \<open>A result after the deadline is never a success, and says so.\<close>

lemma run_process_deadline:
  assumes "pump_loop (pe_polls e) (start_pump split) = Some p" "pu_killed p" "pe_out_pipe e" "pe_fork e" "split \<longrightarrow> pe_err_pipe e"
  shows "\<exists>r. run_process e split = Some r \<and> exit_code r = -1 \<and> p_output r = pu_out p @ nl # ''[timed out]''"
  using assms by (auto simp: run_process_def process_result_def split: wait_status.split)

text \<open>When \<open>poll\<close> fails the loop is left with what was read so far, and a child that exits with 0 all the
  same counts as a success.\<close>

lemma failed_poll_truncates:
  assumes "pe_out_pipe e" "pe_fork e" "pe_polls e = Poll_failed # ps" "pe_status e = Wexited 0"
  shows "run_process e False = Some \<lparr>exit_code = 0, p_output = [], p_err = []\<rparr>"
  using assms by (simp add: run_process_def start_pump_def pump_loop_steps process_result_def)

text \<open>A child that keeps writing is never timed out: \<open>poll\<close> answers that there is data even with no time
  left. However many answers there are, the loop is not over.\<close>

lemma chatty_child: "pu_out_open p \<Longrightarrow> pump_loop (replicate n (Poll_ready (Some (Chunk d)) None)) p = None"
proof (induction n arbitrary: p)
  case 0
  then show ?case by (simp add: pump_loop_steps)
next
  case (Suc n)
  have "pu_out_open (read_err None (read_out (Some (Chunk d)) p))" using Suc.prems by (simp add: read_err_def read_out_def)
  from Suc.IH[OF this] Suc.prems show ?case by (simp add: pump_loop_steps)
qed

end
