(* ===== verification/Dc_Tests.thy ===== *)
theory Dc_Tests
  imports Dc_Manifest Dc_Graph Dc_Process Dc_Db Dc_Cas
begin

text \<open>
  The unit tests of the repository (\<open>src/tests/unit_tests.cpp\<close>), checked on the model: each test function is a
  definition, the conjunction of its \<open>CHECK\<close>s, and each is proved by evaluation. SHA-256 is a parameter, so
  that two keys are equal is proved for every hash, and that they differ is stated of what is hashed. The
  tests of known digests, of the real disk, threads and processes say something of the parameters only.
\<close>

definition quoted :: "string \<Rightarrow> string \<Rightarrow> string \<Rightarrow> string" where
  "quoted a f b = a @ [quote] @ f @ [quote] @ b"

section \<open>Markers and keys\<close>

definition test_a :: string where
  "test_a = unlines [quoted ''# 1 '' ''main.c'' [], quoted ''# 1 '' ''inc/a.h'' '' 1'', ''int x;'',
     quoted ''# 3 '' ''main.c'' '' 2'', ''int main(){return x;}'']"

definition test_b :: string where
  "test_b = unlines [quoted ''# 1 '' ''main.c'' [], quoted ''# 1 '' ''inc/a.h'' '' 1'', ''int x;'',
     quoted ''# 7 '' ''main.c'' '' 2'', ''int main(){return x;}'']"

definition test_blank :: string where
  "test_blank = unlines [quoted ''# 1 '' ''main.c'' [], [], quoted ''# 1 '' ''inc/a.h'' '' 1'', ''int x;'', [], [],
     quoted ''# 7 '' ''main.c'' '' 2'', ''int main(){return x;}'']"

definition test_config :: "string list \<Rightarrow> compile_config" where
  "test_config flags = make_config ''gcc'' ''c'' ''tc'' flags"

definition test_markers_and_keys :: bool where
  "test_markers_and_keys \<longleftrightarrow>
     (let c = test_config [''-O2'', ''-Iinc'', ''-D'', ''X=1'', ''-Wall'']; g = test_config [''-O2'', ''-g''];
          cxx = make_config ''g++'' ''c++'' ''tc'' [''-O2''] in
      strip_line_markers test_a = unlines [''int x;'', ''int main(){return x;}''] \<and>
      marker_files test_a = [''main.c'', ''inc/a.h''] \<and>
      length (pp_flags c) = 3 \<and> length (cc_flags c) = 2 \<and> \<not> debug c \<and>
      key_parts c test_a = key_parts c test_b \<and>
      debug g \<and> key_parts g test_a \<noteq> key_parts g test_b \<and>
      key_parts (test_config [''-O0'']) test_a \<noteq> key_parts c test_a \<and>
      key_parts (make_config ''gcc'' ''c'' ''tc2'' [''-O2'', ''-Wall'']) test_a \<noteq> key_parts c test_a \<and>
      key_parts (test_config [''-O2'', ''-Wall'', ''-Iother'']) test_a = key_parts c test_a \<and>
      key_parts c test_blank = key_parts c test_a \<and>
      key_parts cxx test_blank \<noteq> key_parts cxx test_a)"

lemma markers_and_keys_pass: test_markers_and_keys
  by code_simp

section \<open>The manifest\<close>

definition test_glob :: "string \<Rightarrow> string list" where
  "test_glob p = (if p = ''d/src/m/*.c'' then [''d/src/m/a.c'', ''d/src/m/b.c''] else [])"

definition throws :: "string list \<Rightarrow> bool" where
  "throws ls \<longleftrightarrow> (case parse_manifest test_glob (unlines ls) ''d'' of Inl _ \<Rightarrow> True | Inr _ \<Rightarrow> False)"

definition test_manifest :: bool where
  "test_manifest \<longleftrightarrow>
     (case parse_manifest test_glob
         (unlines [''# comment'', ''cc gcc'', ''cflags -O2 -Iinc'', ''ldflags -lm'', ''lib m src/m/*.c'', ''bin app src/main.c : m'']) ''d'' of
        Inl _ \<Rightarrow> False
      | Inr m \<Rightarrow>
          (case targets m of
             [l, b] \<Rightarrow> is_lib l \<and> sources l = [''src/m/a.c'', ''src/m/b.c''] \<and> \<not> is_lib b \<and> libs b = [''m'']
           | _ \<Rightarrow> False) \<and>
          length (cflags m) = 2 \<and> length (ldflags m) = 1) \<and>
     throws [''frobnicate yes''] \<and> throws [''bin app src/main.c : nosuchlib''] \<and>
     throws [''lib m src/m/a.c'', ''lib m src/m/b.c''] \<and> throws [''lib m src/none/*.c'']"

lemma manifest_passes: test_manifest
  by code_simp

section \<open>The graph\<close>

definition test_tasks :: "graph_task list" where
  "test_tasks =
     [\<lparr>g_id = 0, g_kind = kCompile, g_cost = 100, g_deps = []\<rparr>, \<lparr>g_id = 1, g_kind = kCompile, g_cost = 300, g_deps = []\<rparr>,
      \<lparr>g_id = 2, g_kind = kCompile, g_cost = 50, g_deps = []\<rparr>, \<lparr>g_id = 3, g_kind = kArchive, g_cost = 10, g_deps = [0, 1]\<rparr>,
      \<lparr>g_id = 4, g_kind = kLink, g_cost = 20, g_deps = [2, 3]\<rparr>]"

definition position :: "nat list \<Rightarrow> nat \<Rightarrow> nat" where
  "position order i = length (takeWhile (\<lambda>j. j \<noteq> i) order)"

definition test_graph :: bool where
  "test_graph \<longleftrightarrow>
     (case topo_order test_tasks of
        Inl _ \<Rightarrow> False
      | Inr order \<Rightarrow> length order = 5 \<and>
          (let pos = position order in pos 0 < pos 3 \<and> pos 1 < pos 3 \<and> pos 3 < pos 4 \<and> pos 2 < pos 4)) \<and>
     (let rank = upward_rank test_tasks in rank ! 4 = 20 \<and> rank ! 3 = 30 \<and> rank ! 1 = 330 \<and> rank ! 2 = 70) \<and>
     (let part = partition_graph test_tasks 2 in part ! 0 = part ! 3 \<and> part ! 1 = part ! 3 \<and> part ! 2 = part ! 4) \<and>
     topo_order [\<lparr>g_id = 0, g_kind = kCompile, g_cost = 1, g_deps = [1]\<rparr>, \<lparr>g_id = 1, g_kind = kCompile, g_cost = 1, g_deps = [0]\<rparr>] =
       Inl DependencyCycle \<and>
     (case topo_order [\<lparr>g_id = 0, g_kind = kCompile, g_cost = 1, g_deps = [7]\<rparr>] of Inl _ \<Rightarrow> True | Inr _ \<Rightarrow> False)"

lemma graph_passes: test_graph
  by code_simp

section \<open>Array literals\<close>

definition test_pg_array :: bool where
  "test_pg_array \<longleftrightarrow>
     (let v = [''a'', ''b c'', ''q'' @ [quote] @ ''uote'', ''back'' @ [backslash] @ ''slash'', []] in parse_pg_array (pg_array v False) = v) \<and>
     pg_array [] False = ''{}''"

lemma pg_array_passes: test_pg_array
  by code_simp

section \<open>Framing\<close>

text \<open>Moving the boundary between two parts changes what is hashed.\<close>

definition test_frames :: bool where
  "test_frames \<longleftrightarrow> frame [''ab'', ''c''] \<noteq> frame [''a'', ''bc'']"

lemma frames_pass: test_frames
proof -
  have "unframe (frame [''ab'', ''c'']) = [''ab'', ''c'']" "unframe (frame [''a'', ''bc'']) = [''a'', ''bc'']"
    by (simp_all add: unframe_frame frameable_def)
  then show ?thesis unfolding test_frames_def by fastforce
qed

section \<open>The blob store\<close>

text \<open>With a disk on which every operation works.\<close>

definition good_disk :: io_env where
  "good_disk = \<lparr>open_ok = True, write_ok = True, landed = 100, rename_ok = True\<rparr>"

definition test_cas :: "sha_fn \<Rightarrow> bool" where
  "test_cas sha \<longleftrightarrow>
     (let s = \<lparr>cas_root = ''cas'', cas_files = Map.empty\<rparr>; (h, s1) = cas_put sha good_disk ''.tmp'' ''hello'' [] s in
      h = sha256_hex sha ''hello'' \<and> cas_has s1 h \<and> cas_get s1 h = Some ''hello'' \<and> cas_size_of s1 h = 5 \<and>
      fst (cas_put sha good_disk ''.tmp'' ''hello'' (sha256_hex sha ''other'') s1) = [] \<and>
      \<not> cas_has s1 ''not-a-hash'' \<and> cas_get s1 ''../../etc/passwd'' = None)"

lemma cas_passes:
  assumes "sha256_hex sha ''hello'' \<noteq> sha256_hex sha ''other''"
  shows "test_cas sha"
proof -
  have v: "valid_hash (sha256_hex sha x)" "sha256_hex sha x \<noteq> []" for x by simp_all
  have n: "\<not> valid_hash ''not-a-hash''" "\<not> valid_hash ''../../etc/passwd''" by code_simp+
  show ?thesis using assms
    by (simp add: test_cas_def cas_put_def cas_has_def cas_get_def cas_size_of_def path_of_def v n good_disk_def write_file_atomic_def Let_def)
qed

section \<open>Processes\<close>

text \<open>What the shell's child does is written as the answers of \<open>poll\<close> and the status.\<close>

definition child :: "polled list \<Rightarrow> wait_status \<Rightarrow> proc_env" where
  "child ps status = \<lparr>pe_out_pipe = True, pe_err_pipe = True, pe_fork = True, pe_polls = ps, pe_status = status\<rparr>"

definition test_process :: bool where
  "test_process \<longleftrightarrow>
     (case run_process (child [Poll_ready (Some (Chunk (unlines [''out'']))) None, Poll_ready None (Some (Chunk (unlines [''err'']))),
           Poll_ready (Some Pipe_end) (Some Pipe_end)] (Wexited 3)) True of
        Some r \<Rightarrow> exit_code r = 3 \<and> p_output r = unlines [''out''] \<and> p_err r = unlines [''err''] | None \<Rightarrow> False) \<and>
     (case run_process (child [Poll_ready (Some (Chunk (unlines [''both'']))) None, Poll_ready (Some Pipe_end) None] (Wexited 0)) False of
        Some r \<Rightarrow> exit_code r = 0 \<and> p_output r = unlines [''both''] | None \<Rightarrow> False) \<and>
     (case run_process (child [Poll_timeout] Wsignaled) False of Some r \<Rightarrow> exit_code r = -1 | None \<Rightarrow> False) \<and>
     (case run_process (child [Poll_ready (Some Pipe_end) None] (Wexited 127)) False of Some r \<Rightarrow> exit_code r = 127 | None \<Rightarrow> False)"

lemma process_passes: test_process
  by (simp add: test_process_def run_process_def child_def start_pump_def pump_loop_steps read_out_def read_err_def process_result_def)

end
