(* ===== verification/Dc_Example.thy ===== *)
theory Dc_Example
  imports Dc_Progress
begin

text \<open>
  A small concrete run of the coordinator, at which the witnesses of the properties apply them: a
  build of an archive and of the program linked from it is submitted, a worker claims the archive
  and completes it, and the completion finishes the program from the action cache. The hash function
  is constant, which makes the two action keys equal.
\<close>

definition ex_sha :: sha_fn where
  "ex_sha d n = 0"

definition zeros :: string where
  "zeros = sha256_hex ex_sha []"

lemma ex_sha_hex: "sha256_hex ex_sha x = zeros"
  by (simp add: zeros_def sha256_hex_eq_iff digest_bytes_def ex_sha_def)

lemma ex_key: "action_key ex_sha k tc a ns ds = zeros"
  by (simp add: action_key_def sha256_hex_parts_def ex_sha_hex)

lemma zeros_ok [simp]: "zeros \<noteq> []" "valid_hash zeros"
  by (simp_all add: zeros_def)

definition ex_cas :: cas where
  "ex_cas = \<lparr>cas_root = ''cas'', cas_files = \<lambda>_. Some []\<rparr>"

lemma ex_cas_has [simp]: "cas_has ex_cas h = valid_hash h"
  by (simp add: cas_has_def ex_cas_def)

definition ex_spec :: build_spec where
  "ex_spec = \<lparr>bs_toolchain = ''gcc'', bs_tasks =
     [\<lparr>sp_id = 0, sp_kind = 1, sp_name = ''liba.a'', sp_deps = [], sp_key = [], sp_input = [], sp_args = [], sp_cost = 3\<rparr>,
      \<lparr>sp_id = 1, sp_kind = 2, sp_name = ''app'', sp_deps = [0], sp_key = [], sp_input = [], sp_args = [], sp_cost = 1\<rparr>],
     bs_partitions = 1\<rparr>"

lemma ex_order: "topo_order (graph_of (bs_tasks ex_spec)) = Inr [0, 1]" by code_simp
lemma ex_rank: "upward_rank (graph_of (bs_tasks ex_spec)) = [4, 1]" by code_simp
lemma ex_part: "partition_graph (graph_of (bs_tasks ex_spec)) 1 = [0, 0]" by code_simp

definition ex_task0 :: task_row where
  "ex_task0 = \<lparr>t_uid = 1, t_build = 1, t_id = 0, t_kind = 1, t_name = ''liba.a'', t_key = Some zeros, t_input = None,
     t_args = [], t_inputs = None, t_input_names = None, t_toolchain = ''gcc'', t_cost = 3, t_priority = 4, t_part = 0,
     t_state = TReady, t_pending = 0, t_attempts = 0, t_lease_owner = None, t_lease_until = None, t_output = None,
     t_log = None, t_exec_ms = None, t_last_failed_by = None, t_ready_at = None\<rparr>"

definition ex_task1 :: task_row where
  "ex_task1 = ex_task0\<lparr>t_uid := 2, t_id := 1, t_kind := 2, t_name := ''app'', t_key := None, t_cost := 1, t_priority := 1,
     t_state := TWaiting, t_pending := 1\<rparr>"

definition ex_db :: db where
  "ex_db = \<lparr>db_builds = [\<lparr>b_id = 1, b_toolchain = ''gcc'', b_state = BRunning, b_total = 2, b_finished_at = None\<rparr>],
     db_tasks = [ex_task0, ex_task1], db_deps = [\<lparr>d_build = 1, d_task = 1, d_dep = 0, d_pos = 0\<rparr>],
     db_cache = [], db_workers = [], db_next_build = 2, db_next_uid = 3\<rparr>"

lemmas ex_task_defs = ex_task0_def ex_task1_def ex_db_def

lemma ex_submit: "submit_build ex_sha ex_cas calm 0 ex_spec empty_db = (Status_ok, \<lparr>sr_build = 1, sr_cached = 0\<rparr>, ex_db)"
  unfolding submit_build_def ex_order sum.case Let_def using ex_rank ex_part
  by (simp add: ex_spec_def bad_compile_def submit_def run_txn_def calm_def transaction.simps start_plan_def
    cache_lookup_def insert_build_def empty_db_def Let_def plan_task_def ex_key dep_unknown_def unplanned_def
    cache_rows_def hit_keys_def count_hits_def insert_tasks_def new_deps_def deps_of_spec_def dep_key_def
    maybe_finish_def count_tasks_def new_task_def upd_where_def opt_text_def ex_task_defs)

definition ex_claimed :: db where
  "ex_claimed = ex_db\<lparr>db_tasks := [mark_claimed 20000 0 ''w1'' ex_task0, ex_task1]\<rparr>"

lemma ex_claim: "claim_stmt 20000 0 ''w1'' ''gcc'' (Some 0) {} 0 ex_db =
    (Some (assignment_of (mark_claimed 20000 0 ''w1'' ex_task0)), ex_claimed)"
  by (simp add: claim_stmt_def pick_task_def best_tasks_def eligible_def Let_def ex_claimed_def ex_task_defs
    upd_tasks_def upd_where_def)

definition ex_result :: task_result where
  "ex_result = \<lparr>r_uid = 1, r_attempt = 1, r_worker = ''w1'', r_ok = True, r_retryable = False, r_output = zeros,
     r_log = [], r_exec_ms = 7\<rparr>"

definition ex_done :: db where
  "ex_done = \<lparr>db_builds = [\<lparr>b_id = 1, b_toolchain = ''gcc'', b_state = BDone, b_total = 2, b_finished_at = Some 5\<rparr>],
     db_tasks = [mark_done ex_result (mark_claimed 20000 0 ''w1'' ex_task0),
       ex_task1\<lparr>t_pending := 0, t_state := TCached, t_key := Some zeros, t_output := Some zeros\<rparr>],
     db_deps = db_deps ex_db, db_cache = [\<lparr>c_key = zeros, c_output = zeros, c_size = 0, c_hits = 1\<rparr>],
     db_workers = [], db_next_build = 2, db_next_uid = 3\<rparr>"

lemma ex_complete: "complete_task ex_sha 3 ex_cas calm 5 ex_result ex_claimed = (Status_ok, Some True, ex_done)"
  by (simp add: complete_task_def complete_txn_def run_txn_def calm_def transaction.simps complete_body_def complete_done_def
    live_row_def ex_result_def ex_claimed_def ex_task_defs mark_claimed_def mark_done_def finish_task_def Let_def
    upd_tasks_def upd_where_def cache_put_def cache_rows_def dependents_def task_rows_def count_down_def make_ready_def
    dep_rows_def ex_key cache_hit_def mark_cached_def maybe_finish_def count_tasks_def set_build_def dep_names_def dep_digests_def
    text_of_def ex_done_def cas_size_of_def ex_cas_def cas_has_def)

section \<open>The run\<close>

definition ex_at :: "db \<Rightarrow> nat \<Rightarrow> coord" where
  "ex_at db g = \<lparr>co_db = db, co_cas = ex_cas, co_parts = Map.empty, co_gen = g\<rparr>"

lemma ex_at_simps [simp]: "co_db (ex_at db g) = db" "co_cas (ex_at db g) = ex_cas"
  by (simp_all add: ex_at_def)

lemma ex_leaf: "leaf_compiles (bs_tasks ex_spec)"
  by (simp add: leaf_compiles_def ex_spec_def)

lemma ex_start: "coord_start 3 (ex_at empty_db 0)"
  by (simp add: coord_start_def)

lemma ex_step_submit: "coord_step ex_sha 3 20000 f (ex_at empty_db 0) (ex_at ex_db 1)"
  using step_submit[OF ex_leaf, of ex_sha 3 20000 f "ex_at empty_db 0" calm 0]
  by (simp add: submit_call_def ex_submit wake_workers_def ex_at_def)

lemma ex_step_claim: "coord_step ex_sha 3 20000 f (ex_at ex_db 1) (ex_at ex_claimed 1)"
  using step_claim[of ex_sha 3 20000 f "ex_at ex_db 1" 0 "''w1''" "''gcc''" "Some 0" "{}" 0]
  by (simp add: ex_claim ex_at_def)

lemma ex_step_complete: "coord_step ex_sha 3 20000 f (ex_at ex_claimed 1) (ex_at ex_done 2)"
  using step_complete[of ex_sha 3 20000 f "ex_at ex_claimed 1" calm 5 ex_result]
  by (simp add: complete_call_def ex_complete wake_workers_def ex_at_def numeral_2_eq_2)

lemma ex_runs:
  "run_of (coord_step ex_sha 3 20000 f) (ex_at empty_db 0) (ex_at ex_db 1)"
  "run_of (coord_step ex_sha 3 20000 f) (ex_at empty_db 0) (ex_at ex_claimed 1)"
  "run_of (coord_step ex_sha 3 20000 f) (ex_at empty_db 0) (ex_at ex_done 2)"
  "run_of (coord_step ex_sha 3 20000 f) (ex_at ex_claimed 1) (ex_at ex_done 2)"
  by (blast intro: run_refl run_step ex_step_submit ex_step_claim ex_step_complete)+

lemma ex_ok: "coord_ok ex_sha 3 (ex_at ex_db 1)" "coord_ok ex_sha 3 (ex_at ex_claimed 1)" "coord_ok ex_sha 3 (ex_at ex_done 2)"
  using coord.inv_run[OF ex_start] ex_runs by blast+

section \<open>A retry\<close>

text \<open>The worker reports a transient failure instead; another worker can then take the archive.\<close>

definition ex_flaky :: task_result where
  "ex_flaky = ex_result\<lparr>r_ok := False, r_retryable := True, r_log := ''timeout''\<rparr>"

definition ex_requeued :: db where
  "ex_requeued = ex_db\<lparr>db_tasks := [mark_retry 3 9 ''timeout'' (mark_claimed 20000 0 ''w1'' ex_task0), ex_task1]\<rparr>"

lemma ex_retry: "complete_task ex_sha 3 ex_cas calm 9 ex_flaky ex_claimed = (Status_ok, Some True, ex_requeued)"
  by (simp add: complete_task_def complete_txn_def run_txn_def calm_def transaction.simps complete_body_def complete_retry_def
    attempt_row_def ex_flaky_def ex_requeued_def ex_result_def ex_claimed_def ex_task_defs mark_claimed_def mark_retry_def upd_tasks_def upd_where_def)

lemma ex_step_retry: "coord_step ex_sha 3 20000 f (ex_at ex_claimed 1) (ex_at ex_requeued 2)"
  using step_complete[of ex_sha 3 20000 f "ex_at ex_claimed 1" calm 9 ex_flaky]
  by (simp add: complete_call_def ex_retry wake_workers_def ex_at_def numeral_2_eq_2)

lemma ex_run_retry: "run_of (coord_step ex_sha 3 20000 f) (ex_at ex_claimed 1) (ex_at ex_requeued 2)"
  by (blast intro: run_refl run_step ex_step_retry)

lemma ex_at_upd: "(ex_at db g)\<lparr>co_db := d\<rparr> = ex_at d g"
  by (simp add: ex_at_def)

lemma ex_reclaim: "fst (claim_stmt 20000 100 ''w2'' ''gcc'' None {} 0 ex_requeued) =
    Some (assignment_of (mark_claimed 20000 100 ''w2'' (mark_retry 3 9 ''timeout'' (mark_claimed 20000 0 ''w1'' ex_task0))))"
  by (simp add: claim_stmt_def pick_task_def best_tasks_def eligible_def Let_def ex_requeued_def ex_task_defs
    upd_tasks_def upd_where_def mark_retry_def mark_claimed_def)

section \<open>Two sinks\<close>

text \<open>A build of two compile tasks that nothing waits for, both ready.\<close>

definition ex_hash :: "char \<Rightarrow> string" where
  "ex_hash c = replicate 64 c"

lemma ex_hash_ok [simp]: "valid_hash (ex_hash CHR ''1'')" "valid_hash (ex_hash CHR ''2'')"
    "ex_hash CHR ''1'' \<noteq> []" "ex_hash CHR ''2'' \<noteq> []" "ex_hash CHR ''1'' \<noteq> ex_hash CHR ''2''" "ex_hash CHR ''2'' \<noteq> ex_hash CHR ''1''"
  by code_simp+

definition ex_pair :: build_spec where
  "ex_pair = \<lparr>bs_toolchain = ''gcc'', bs_tasks =
     [\<lparr>sp_id = 0, sp_kind = 0, sp_name = ''a.o'', sp_deps = [], sp_key = ex_hash CHR ''1'', sp_input = zeros, sp_args = [], sp_cost = 3\<rparr>,
      \<lparr>sp_id = 1, sp_kind = 0, sp_name = ''b.o'', sp_deps = [], sp_key = ex_hash CHR ''2'', sp_input = zeros, sp_args = [], sp_cost = 1\<rparr>],
     bs_partitions = 1\<rparr>"

lemma ex_pair_order: "topo_order (graph_of (bs_tasks ex_pair)) = Inr [0, 1]" by (simp add: ex_pair_def graph_of_def) code_simp
lemma ex_pair_rank: "upward_rank (graph_of (bs_tasks ex_pair)) = [3, 1]" by (simp add: ex_pair_def graph_of_def) code_simp
lemma ex_pair_part: "partition_graph (graph_of (bs_tasks ex_pair)) 1 = [0, 0]" by (simp add: ex_pair_def graph_of_def) code_simp

definition ex_left :: task_row where
  "ex_left = ex_task0\<lparr>t_kind := 0, t_name := ''a.o'', t_key := Some (ex_hash CHR ''1''), t_input := Some zeros, t_inputs := Some zeros,
     t_input_names := Some ''in.i'', t_priority := 3\<rparr>"

definition ex_right :: task_row where
  "ex_right = ex_left\<lparr>t_uid := 2, t_id := 1, t_name := ''b.o'', t_key := Some (ex_hash CHR ''2''), t_cost := 1, t_priority := 1\<rparr>"

definition ex_pair_db :: db where
  "ex_pair_db = ex_db\<lparr>db_tasks := [ex_left, ex_right], db_deps := []\<rparr>"

lemma ex_pair_submit: "submit_build ex_sha ex_cas calm 0 ex_pair empty_db = (Status_ok, \<lparr>sr_build = 1, sr_cached = 0\<rparr>, ex_pair_db)"
  unfolding submit_build_def ex_pair_order sum.case Let_def using ex_pair_rank ex_pair_part
  by (simp add: ex_pair_def bad_compile_def submit_def run_txn_def calm_def transaction.simps start_plan_def
    cache_lookup_def insert_build_def empty_db_def Let_def plan_task_def ex_key dep_unknown_def unplanned_def
    cache_rows_def hit_keys_def count_hits_def insert_tasks_def new_deps_def deps_of_spec_def dep_key_def
    maybe_finish_def count_tasks_def new_task_def upd_where_def opt_text_def ex_task_defs ex_pair_db_def ex_left_def ex_right_def)

lemma ex_run_pair: "run_of (coord_step ex_sha 3 20000 f) (ex_at empty_db 0) (ex_at ex_pair_db 1)"
proof -
  have "leaf_compiles (bs_tasks ex_pair)" by (simp add: leaf_compiles_def ex_pair_def)
  from step_submit[OF this, of ex_sha 3 20000 f "ex_at empty_db 0" calm 0]
  have "coord_step ex_sha 3 20000 f (ex_at empty_db 0) (ex_at ex_pair_db 1)"
    by (simp add: submit_call_def ex_pair_submit wake_workers_def ex_at_def)
  then show ?thesis by (blast intro: run_refl run_step)
qed

text \<open>One look for a task, undisturbed.\<close>

definition ex_round :: poll_round where
  "ex_round = \<lparr>p_now = 0, p_cancelled = False, p_locked = {}, p_pick = 0, p_others = \<lambda>d. d\<rparr>"

end
