(* ===== verification/Dc_Example_Build.thy ===== *)
theory Dc_Example_Build
  imports Dc_Build Dc_Example
begin

text \<open>
  A small concrete build by the client, at which the witnesses apply the properties of the client: the
  manifest names one program with one source, and the coordinator of the other example already has the
  results of both tasks (all keys are equal under its hash function), so the build is finished when it
  is submitted, and the program is downloaded.
\<close>

definition ok_io :: "string \<Rightarrow> put_env" where
  "ok_io d = (\<lparr>open_ok = True, write_ok = True, landed = length d, rename_ok = True\<rparr>, ''.tmp'')"

definition ex_runner :: runner where
  "ex_runner argv dir secs merge =
     \<lparr>exit_code = 0, p_output = (if argv ! 1 = ''--version'' then ''gcc 12'' else if argv ! 1 = ''-dumpmachine'' then ''x86'' else ''int main;''), p_err = []\<rparr>"

definition ex_client :: client_env where
  "ex_client = \<lparr>ce_glob = \<lambda>_. [], ce_run = ex_runner, ce_stat = \<lambda>_. None, ce_net = \<lambda>_ _. Delivered, ce_world = \<lambda>_ _ s. s,
     ce_put_io = \<lambda>_ _ _. ok_io [], ce_txn = \<lambda>_. calm, ce_now = \<lambda>_. 100, ce_write = \<lambda>_. ok_io\<rparr>"

definition ex_files :: fs where
  "ex_files = [''r/DCBUILD'' \<mapsto> ''bin p a.c''@[nl]]"

definition ex_manifest :: manifest where
  "ex_manifest = empty_manifest\<lparr>targets := [\<lparr>is_lib = False, tname = ''p'', sources = [''a.c''], libs = []\<rparr>]\<rparr>"

lemma ex_load: "load_manifest (\<lambda>_. []) ex_files ''r'' = Inr ex_manifest"
  by code_simp

lemma ex_toolchain: "toolchain_id ex_runner ''gcc'' = ''12 x86''"
  by code_simp

definition ex_unit :: tu where
  "ex_unit = \<lparr>u_src = ''a.c'', u_cfg = make_config ''gcc'' ''c'' ''12 x86'' [], u_key = zeros, u_digest = zeros, u_text = ''int main;'', u_cost = 9, u_deps = [],
     u_fresh = True, u_error = []\<rparr>"

lemma ex_lang: "lang_of ''a.c'' = ''c''"
  by code_simp

lemma ex_make_units: "make_units ex_manifest ''12 x86'' = ([new_tu ''a.c'' (make_config ''gcc'' ''c'' ''12 x86'' [])], [''a.c'' \<mapsto> 0])"
  by (simp add: make_units_def ex_manifest_def empty_manifest_def unit_for_def ex_lang Let_def)

lemma ex_prepare: "prepare_units ex_sha ex_client ''r'' ex_manifest ''12 x86'' ex_files = [ex_unit]"
proof -
  have "marker_files ''int main;'' = []" by code_simp
  moreover have "compile_key ex_sha cfg x = zeros" for cfg x by (simp add: compile_key_def sha256_hex_parts_def ex_sha_hex)
  ultimately show ?thesis
    by (simp add: prepare_units_def ex_make_units prepare_unit_def load_state_def ex_files_def run_preprocess_def preprocess_def
      preprocess_argv_def ex_client_def ex_runner_def Let_def new_tu_def ex_sha_hex ex_unit_def List.map_filter_def)
qed

lemma ex_spec_tasks: "spec_tasks ex_manifest [''a.c'' \<mapsto> 0] [ex_unit] =
  [compile_spec 0 ex_unit, \<lparr>sp_id = 1, sp_kind = 2, sp_name = ''p'', sp_deps = [0], sp_key = [], sp_input = [], sp_args = [''gcc''], sp_cost = 5000\<rparr>]"
  by (simp add: spec_tasks_def ex_manifest_def empty_manifest_def Let_def link_spec_def needs_cxx_def ex_lang task_of_def compile_spec_def ex_unit_def)

definition ex_request :: build_spec where
  "ex_request = build_request ex_manifest ''12 x86'' 1 [''a.c'' \<mapsto> 0] [ex_unit]"

lemma ex_request_tasks: "bs_toolchain ex_request = ''12 x86''" "bs_partitions ex_request = 1"
  "bs_tasks ex_request = [\<lparr>sp_id = 0, sp_kind = 0, sp_name = ''obj/a.c.o'', sp_deps = [], sp_key = zeros, sp_input = zeros,
     sp_args = [''gcc'', ''-x'', ''cpp-output''], sp_cost = 9\<rparr>,
     \<lparr>sp_id = 1, sp_kind = 2, sp_name = ''p'', sp_deps = [0], sp_key = [], sp_input = [], sp_args = [''gcc''], sp_cost = 5000\<rparr>]"
proof -
  have "compile_spec 0 ex_unit = \<lparr>sp_id = 0, sp_kind = 0, sp_name = ''obj/a.c.o'', sp_deps = [], sp_key = zeros, sp_input = zeros,
     sp_args = [''gcc'', ''-x'', ''cpp-output''], sp_cost = 9\<rparr>"
    by (simp add: compile_spec_def ex_unit_def make_config_def)
  then show "bs_tasks ex_request = [\<lparr>sp_id = 0, sp_kind = 0, sp_name = ''obj/a.c.o'', sp_deps = [], sp_key = zeros, sp_input = zeros,
     sp_args = [''gcc'', ''-x'', ''cpp-output''], sp_cost = 9\<rparr>,
     \<lparr>sp_id = 1, sp_kind = 2, sp_name = ''p'', sp_deps = [0], sp_key = [], sp_input = [], sp_args = [''gcc''], sp_cost = 5000\<rparr>]"
    by (simp add: ex_request_def build_request_def ex_spec_tasks)
qed (simp_all add: ex_request_def build_request_def)

lemma ex_request_graph: "graph_of (bs_tasks ex_request) = [\<lparr>g_id = 0, g_kind = 0, g_cost = 9, g_deps = []\<rparr>, \<lparr>g_id = 1, g_kind = 2, g_cost = 5000, g_deps = [0]\<rparr>]"
  by (simp add: graph_of_def ex_request_tasks)

lemma ex_request_plan: "topo_order (graph_of (bs_tasks ex_request)) = Inr [0, 1]"
  "upward_rank (graph_of (bs_tasks ex_request)) = [5009, 5000]" "partition_graph (graph_of (bs_tasks ex_request)) 1 = [0, 0]"
  unfolding ex_request_graph by code_simp+

definition ex_hit :: "nat \<Rightarrow> int \<Rightarrow> string \<Rightarrow> string \<Rightarrow> string option \<Rightarrow> int \<Rightarrow> int \<Rightarrow> task_row" where
  "ex_hit i k n a inp c r = \<lparr>t_uid = 3 + i, t_build = 2, t_id = i, t_kind = k, t_name = n, t_key = Some zeros, t_input = inp,
     t_args = a, t_inputs = Some zeros, t_input_names = Some (if i = 0 then ''in.i'' else ''obj_a.c.o''), t_toolchain = ''12 x86'', t_cost = c, t_priority = r, t_part = 0,
     t_state = TCached, t_pending = 0, t_attempts = 0, t_lease_owner = None, t_lease_until = None, t_output = Some zeros,
     t_log = None, t_exec_ms = None, t_last_failed_by = None, t_ready_at = None\<rparr>"

definition ex_built :: db where
  "ex_built = ex_done\<lparr>db_builds := db_builds ex_done @ [\<lparr>b_id = 2, b_toolchain = ''12 x86'', b_state = BDone, b_total = 2, b_finished_at = Some 100\<rparr>],
     db_tasks := db_tasks ex_done @ [ex_hit 0 0 ''obj/a.c.o'' (join_lines [''gcc'', ''-x'', ''cpp-output'']) (Some zeros) 9 5009,
       ex_hit 1 2 ''p'' ''gcc'' None 5000 5000],
     db_deps := db_deps ex_done @ [\<lparr>d_build = 2, d_task = 1, d_dep = 0, d_pos = 0\<rparr>],
     db_cache := [\<lparr>c_key = zeros, c_output = zeros, c_size = 0, c_hits = 2\<rparr>], db_next_build := 3, db_next_uid := 5\<rparr>"

lemma ex_submit_hit: "submit_build ex_sha ex_cas calm 100 ex_request ex_done = (Status_ok, \<lparr>sr_build = 2, sr_cached = 2\<rparr>, ex_built)"
  unfolding submit_build_def Let_def ex_request_tasks
  by (simp add: ex_request_tasks ex_request_plan[unfolded ex_request_tasks] bad_compile_def mark_done_def mark_claimed_def submit_def run_txn_def calm_def transaction.simps start_plan_def
    cache_lookup_def insert_build_def Let_def plan_task_def ex_key dep_unknown_def unplanned_def
    cache_rows_def hit_keys_def count_hits_def insert_tasks_def new_deps_def deps_of_spec_def dep_key_def
    maybe_finish_def count_tasks_def new_task_def upd_where_def opt_text_def ex_done_def ex_task_defs ex_built_def ex_hit_def
    flat_name_def set_build_def del: set_map set_filter)

lemma stub_calm:
  assumes "ce_net e c 0 = Delivered" "ce_world e c 0 s = s" "handler 0 s = (Status_ok, r, s')"
  shows "stub e c handler r0 s = (Status_ok, r, s')"
  using assms by (simp add: stub_def remote_def with_retry_def net_call_def transient_def eval_nat_numeral)

lemma ex_status: "get_build 2 full ex_built = (Status_ok, Some \<lparr>st_state = BDone, st_total = 2, st_finished = 2, st_cached = 2, st_running = 0,
    st_tasks = (if full then map status_of (drop 2 (db_tasks ex_built)) else [])\<rparr>)"
  by (simp add: get_build_def ex_built_def ex_done_def ex_hit_def count_tasks_def fin_def mark_done_def mark_claimed_def ex_task_defs)

lemma ex_dcc: "dcc_build ex_sha ex_client ''r'' ''o'' 1 ex_files (ex_at ex_done 2) =
    Some (Exits 0, (write_out ex_client ''r/.dcstate'' (state_text (config_id ex_sha ''12 x86'' ex_manifest) [ex_unit]) (write_out ex_client ''o/p'' [] ex_files)), ex_at ex_built 3)"
proof -
  have c: "ce_net ex_client c 0 = Delivered" "ce_world ex_client c 0 s = s" for c s by (simp_all add: ex_client_def)
  have cc: "cc ex_manifest = ''gcc''" "ce_run ex_client = ex_runner" "ce_glob ex_client = (\<lambda>_. [])" "ce_txn ex_client k = calm" "ce_now ex_client k = 100" for k
    by (simp_all add: ex_manifest_def empty_manifest_def ex_client_def)
  have keys: "check_cache [u_key ex_unit] ex_done = [zeros]" by (simp add: check_cache_def ex_done_def ex_unit_def)
  have need: "need_unit [zeros] ex_unit = False" by (simp add: need_unit_def ex_unit_def)
  have sub: "submit_handler ex_sha ex_client ex_request 0 (ex_at ex_done 2) = (Status_ok, \<lparr>sr_build = 2, sr_cached = 2\<rparr>, ex_at ex_built 3)"
    by (simp add: submit_handler_def cc ex_submit_hit submit_call_def wake_workers_def ex_at_def)
  have up: "upload_and_submit ex_sha ex_client ''r'' ex_manifest ''12 x86'' 1 [ex_unit] (ex_at ex_done 2) = (Inr ([ex_unit], ex_request, 2), ex_at ex_built 3)"
    unfolding upload_and_submit_def
    by (simp add: stub_calm[OF c, of "reading _"] reading_def keys need refresh_def batches_def find_missing_def Let_def ex_make_units
      ex_request_def[symmetric] stub_calm[where handler = "submit_handler ex_sha ex_client ex_request", OF c sub])
  have poll: "poll_build ex_client 2 0 (ex_at ex_built 3) = Some (Status_ok, ex_at ex_built 3)"
    by (subst poll_build.simps) (simp add: stub_calm[OF c, of "reading _"] status_handler_def reading_def ex_status running_reply_def)
  have out: "output_files (bs_tasks ex_request) = [(1, ''p'')]" by (simp add: output_files_def ex_request_tasks)
  have get: "get_blob zeros ex_cas = (Status_ok, [])" by (simp add: get_blob_def cas_get_def ex_cas_def cas_has_def)
  have row: "ts_output (map status_of (drop 2 (db_tasks ex_built)) ! Suc 0) = zeros"
    by (simp add: ex_built_def ex_done_def status_of_def ex_hit_def text_of_def)
  have full: "stub ex_client Get_full (reading (\<lambda>s. get_build 2 True (co_db s))) None (ex_at ex_built 3) =
      (Status_ok, Some \<lparr>st_state = BDone, st_total = 2, st_finished = 2, st_cached = 2, st_running = 0, st_tasks = map status_of (drop 2 (db_tasks ex_built))\<rparr>, ex_at ex_built 3)"
    by (rule stub_calm[OF c]) (simp add: reading_def ex_status)
  have blob: "stub ex_client (Get_blob i) (reading (\<lambda>s. get_blob zeros (co_cas s))) [] (ex_at ex_built 3) = (Status_ok, [], ex_at ex_built 3)" for i
    by (rule stub_calm[OF c]) (simp add: reading_def get)
  have none: "ex_files ''o/p'' = None" by (simp add: ex_files_def)
  show ?thesis
    unfolding dcc_build_def cc ex_load sum.case ex_toolchain Let_def ex_prepare
    by (simp add: ex_unit_def[THEN arg_cong, of u_error] up collect_def poll status_handler_def full out fetch_output_def none row blob ex_sha_hex save_state_def)
qed

section \<open>Surroundings, a retry and a worker\<close>

lemma ex_surroundings: "steady ex_sha 3 20000 False ex_client" "writes_well ex_client" "files_apart ex_client ''r'' ''o'' ex_manifest"
proof -
  show "steady ex_sha 3 20000 False ex_client" "writes_well ex_client"
    by (simp_all add: steady_def writes_well_def ex_client_def ok_io_def run_refl put_env_ok_def tmp_suffix_def)
  have "snd (ce_write ex_client p d) = ''.tmp''" for p d by (simp add: ex_client_def ok_io_def)
  then show "files_apart ex_client ''r'' ''o'' ex_manifest"
    by (simp add: files_apart_def apart_def ex_manifest_def target_file_def)
qed

definition ex_retrying :: client_env where
  "ex_retrying = ex_client\<lparr>ce_net := \<lambda>c k. if k = 0 then Reply_lost Unavailable else Delivered, ce_now := \<lambda>_. 0\<rparr>"

lemma ex_submit_again: "\<exists>db. submit_build ex_sha ex_cas calm 0 ex_spec ex_db = (Status_ok, \<lparr>sr_build = 2, sr_cached = 0\<rparr>, db)"
  unfolding submit_build_def ex_order sum.case Let_def using ex_rank ex_part
  by (simp add: ex_spec_def bad_compile_def submit_def run_txn_def calm_def transaction.simps start_plan_def
    cache_lookup_def insert_build_def Let_def plan_task_def ex_key dep_unknown_def unplanned_def
    cache_rows_def hit_keys_def count_hits_def insert_tasks_def new_deps_def deps_of_spec_def dep_key_def
    ex_task_defs)

lemma ex_handler: "submit_build ex_sha ex_cas calm 0 ex_spec db = (Status_ok, rep, db') \<Longrightarrow>
    submit_handler ex_sha ex_retrying ex_spec k (ex_at db g) = (Status_ok, rep, ex_at db' (g + 1))"
  by (simp add: submit_handler_def submit_call_def wake_workers_def ex_retrying_def ex_client_def ex_at_def)

definition ex_ready :: task_row where
  "ex_ready = (ex_hit 0 0 ''obj/a.c.o'' (join_lines [''gcc'', ''-x'', ''cpp-output'']) (Some zeros) 9 5009)
     \<lparr>t_uid := 1, t_build := 1, t_state := TReady, t_output := None\<rparr>"

definition ex_new :: db where
  "ex_new = empty_db\<lparr>db_builds := [\<lparr>b_id = 1, b_toolchain = ''12 x86'', b_state = BRunning, b_total = 2, b_finished_at = None\<rparr>],
     db_tasks := [ex_ready, (ex_hit 1 2 ''p'' ''gcc'' None 5000 5000)\<lparr>t_uid := 2, t_build := 1, t_state := TWaiting, t_pending := 1, t_key := None,
       t_inputs := None, t_input_names := None, t_output := None\<rparr>],
     db_deps := [\<lparr>d_build = 1, d_task = 1, d_dep = 0, d_pos = 0\<rparr>], db_next_build := 2, db_next_uid := 3\<rparr>"

lemma ex_submit_new: "submit_build ex_sha ex_cas calm 100 ex_request empty_db = (Status_ok, \<lparr>sr_build = 1, sr_cached = 0\<rparr>, ex_new)"
  unfolding submit_build_def Let_def ex_request_tasks
  by (simp add: ex_request_tasks ex_request_plan[unfolded ex_request_tasks] bad_compile_def submit_def run_txn_def calm_def transaction.simps start_plan_def
    cache_lookup_def insert_build_def Let_def plan_task_def ex_key dep_unknown_def unplanned_def
    cache_rows_def hit_keys_def count_hits_def insert_tasks_def new_deps_def deps_of_spec_def dep_key_def
    maybe_finish_def count_tasks_def new_task_def upd_where_def opt_text_def ex_new_def ex_ready_def ex_hit_def empty_db_def
    flat_name_def set_build_def del: set_map set_filter)

lemma ex_run_new: "run_of (coord_step ex_sha 3 20000 f) (ex_at empty_db 0) (ex_at ex_new 1)"
proof -
  have "leaf_compiles (bs_tasks ex_request)" by (simp add: leaf_compiles_def ex_request_tasks)
  from step_submit[OF this, of ex_sha 3 20000 f "ex_at empty_db 0" calm 100]
  have "coord_step ex_sha 3 20000 f (ex_at empty_db 0) (ex_at ex_new 1)" by (simp add: submit_call_def ex_submit_new wake_workers_def ex_at_def)
  then show ?thesis by (rule run_step[OF run_refl])
qed

definition ex_job :: assignment where
  "ex_job = \<lparr>a_uid = 1, a_attempt = 1, a_kind = 0, a_name = ''obj/a.c.o'', a_inputs = [zeros], a_input_names = [''in.i''], a_args = [''gcc'', ''-x'', ''cpp-output'']\<rparr>"

lemma ex_claim_new: "fst (claim_stmt 20000 0 ''w1'' ''12 x86'' (Some 0) {} 0 ex_new) = Some ex_job"
proof -
  have "split_lines zeros = [zeros]" using split_join_lines[of "[zeros]"] valid_hash_no_dot[OF zeros_ok(2)] by (auto simp: column_def)
  moreover have "split_lines ''in.i'' = [''in.i'']" "split_lines (''gcc'' @ nl # ''-x'' @ nl # ''cpp-output'') = [''gcc'', ''-x'', ''cpp-output'']"
    by code_simp+
  ultimately show ?thesis
  by (simp add: claim_stmt_def pick_task_def best_tasks_def eligible_def Let_def ex_new_def ex_ready_def ex_hit_def
    assignment_of_def mark_claimed_def ex_job_def empty_db_def)
qed

definition ex_box :: exec_env where
  "ex_box = \<lparr>we_dir = Some ''d'', we_get = \<lambda>_ _. Delivered, we_cache_io = \<lambda>_. ok_io ''obj'', we_file_io = \<lambda>_. ok_io ''obj'',
     we_run = \<lambda>argv files. (\<lparr>exit_code = 0, p_output = [], p_err = []\<rparr>, files(''d/out'' \<mapsto> ''obj'')), we_out_io = ok_io ''obj'', we_up = \<lambda>_. Delivered,
     we_server_io = \<lambda>_. ok_io ''obj'', we_ms = 5\<rparr>"

definition ex_own :: cas where
  "ex_own = \<lparr>cas_root = ''own'', cas_files = Map.empty\<rparr>"

lemma ex_put: "x = [] \<or> x = zeros \<Longrightarrow> \<exists>c'. cas_put_env ex_sha (ok_io d) y x c = (zeros, c')"
  by (auto simp: cas_put_env_def cas_put_def ex_sha_hex ok_io_def write_file_atomic_def Let_def)

lemma ex_box_simps:
  "we_dir ex_box = Some ''d''" "we_get ex_box i = (\<lambda>_. Delivered)" "we_cache_io ex_box i = ok_io ''obj''" "we_file_io ex_box i = ok_io ''obj''"
  "we_out_io ex_box = ok_io ''obj''" "we_up ex_box = (\<lambda>_. Delivered)" "we_server_io ex_box = (\<lambda>_. ok_io ''obj'')"
  "we_run ex_box argv files = (\<lparr>exit_code = 0, p_output = [], p_err = []\<rparr>, files(''d/out'' \<mapsto> ''obj''))"
  by (simp_all add: ex_box_def)

lemma ex_fetch:
  obtains c where "fetch ex_sha (\<lambda>_. Delivered) (ok_io ''obj'') zeros ex_cas ex_own = (Some [], c)" "cas_get c zeros = Some []"
proof -
  obtain c where c: "cas_put_env ex_sha (ok_io ''obj'') [] zeros ex_own = (zeros, c)" using ex_put by blast
  have f: "fetch ex_sha (\<lambda>_. Delivered) (ok_io ''obj'') zeros ex_cas ex_own = (Some [], c)"
    by (simp add: fetch_def c cas_get_def cas_has_def ex_own_def remote_def with_retry_def net_call_def get_handler_def get_blob_def
      transient_def eval_nat_numeral ex_cas_def c[unfolded ex_own_def])
  have io: "put_env_ok (ok_io ''obj'')" by (simp add: ok_io_def put_env_ok_def tmp_suffix_def)
  have "cas_has c zeros" using cas_store.put_answer[OF io c] by simp
  then obtain x where x: "cas_get c zeros = Some x" by (auto simp: cas_store.has_get)
  have "cas_get ex_own zeros = None" by (simp add: cas_get_def ex_own_def)
  with cas_store.put_adds[OF io c x] have "x = []" by (simp add: intact_write_def)
  with f x that show thesis by simp
qed

lemma ex_execute: "r_ok (fst (execute ex_sha ex_box ex_job ex_cas ex_own))"
proof -
  have job: "a_inputs ex_job = [zeros]" "a_input_names ex_job = [''in.i'']" by (simp_all add: ex_job_def)
  obtain c1 where f: "fetch ex_sha (\<lambda>_. Delivered) (ok_io ''obj'') zeros ex_cas ex_own = (Some [], c1)" by (rule ex_fetch)
  obtain files where "write_file_atomic (fst (ok_io ''obj'')) (snd (ok_io ''obj'')) ''d/in.i'' [] Map.empty = (True, files)"
    by (simp add: ok_io_def write_file_atomic_def Let_def)
  then have p: "place_inputs ex_sha ex_box ex_cas ''d'' 0 [(zeros, ''in.i'')] ex_own Map.empty = (None, c1, files)"
    by (simp add: ex_box_simps f)
  obtain c2 where c2: "cas_put_env ex_sha (ok_io ''obj'') ''obj'' [] c1 = (zeros, c2)" using ex_put by blast
  obtain s2 where s2: "cas_put_env ex_sha (ok_io ''obj'') ''obj'' zeros ex_cas = (zeros, s2)" using ex_put by blast
  have u: "upload ex_sha (\<lambda>_. Delivered) (\<lambda>_. ok_io ''obj'') zeros ''obj'' ex_cas = (Status_ok, s2)"
    by (simp add: upload_def put_handler_def s2 remote_def with_retry_def net_call_def transient_def eval_nat_numeral)
  have "worker_argv ex_job = Inr [''gcc'', ''-x'', ''cpp-output'', ''-c'', ''in.i'', ''-o'', ''out'']"
    by (simp add: worker_argv_def ex_job_def driver_ok_def allowed_drivers_def)
  then show ?thesis
    by (simp del: place_inputs.simps add: execute_def job ex_box_simps p deliver_def c2 u)
qed

lemma ex_worker_ready: "cache_good ex_sha 3 ex_own" "blobs_within 3 ex_cas" "env_sound 3 ex_box [''in.i'']"
proof -
  show "cache_good ex_sha 3 ex_own" by (simp add: cache_good_def cas_store.genuine_def blobs_within_def cas_get_def ex_own_def)
  show "blobs_within 3 ex_cas" by (simp add: blobs_within_def cas_get_def ex_cas_def)
  show "env_sound 3 ex_box [''in.i'']" by (simp add: env_sound_def put_good_def ex_box_def ok_io_def put_env_ok_def tmp_suffix_def)
qed

end
