(* ===== verification/Spec2Isabelle.thy ===== *)
theory Spec2Isabelle
  imports Dc_Main Dc_Conn Dc_Parallel Dc_Race Dc_Orphan Dc_Lease Dc_Process Dc_Tests Dc_Example Dc_Example_Build Dc_Manifest Dc_Preprocess
begin

text \<open>
  Verification of DistCompile, a distributed build system for C and C++ (sources under \<open>src/src\<close>).

  \<^bold>\<open>The program.\<close> A client (\<open>dcc.cpp\<close>) reads a manifest, preprocesses every source file, and asks a
  coordinator (\<open>coordinator.cpp\<close>) to build a graph of compile, archive and link tasks. The
  coordinator keeps builds, tasks, dependencies, the action cache and the workers in five tables of a
  PostgreSQL database (\<open>sql/schema.sql\<close>) and all file contents in a content-addressed blob store
  (\<open>cas.cpp\<close>). Workers (\<open>worker.cpp\<close>) claim ready tasks under a lease, fetch the inputs, run the
  compiler, upload the output and report. A task is never run when its action key is in the cache;
  the end of a task makes its dependents ready; a reaper requeues tasks whose lease ran out.

  \<^bold>\<open>Theories and code.\<close> They are in the order in which they build on one another.
  \<^item> \<open>Dc_Prelude\<close>: \<open>std::string\<close> operations, lines, updates of tables, generic lemmas, and the interfaces
    shared by components: \<open>codec\<close> (a writer with its reader) and \<open>invariant_of\<close> (an invariant of a step
    relation).
  \<^item> \<open>Dc_Util\<close>: \<open>util.cpp\<close> and the counters of \<open>util.h\<close>: digests and framing, words, paths, directories,
    \<open>write_file_atomic\<close> with the answers of the operating system.
  \<^item> \<open>Dc_Cas\<close>: \<open>cas.cpp\<close>, the interface \<open>blob_store\<close>, and the store under concurrent writers.
  \<^item> \<open>Dc_Graph\<close>: \<open>graph.cpp\<close>: Kahn's order, upward ranks, partitions.
  \<^item> \<open>Dc_Db\<close>: \<open>db.cpp\<close> and \<open>db.h\<close>: array literals, the retrying transaction, the connection pool.
  \<^item> \<open>Dc_Conn\<close>: \<open>Conn\<close>, the pool's constructor and the service's: what callers see of results, how it starts.
  \<^item> \<open>Dc_Manifest\<close>: \<open>manifest.cpp\<close>, the parser line by line.
  \<^item> \<open>Dc_Preprocess\<close>: \<open>preprocess.cpp\<close>: flags, line markers, compile keys.
  \<^item> \<open>Dc_Process\<close>: \<open>run_process\<close> of \<open>util.cpp\<close>: the poll loop, the deadline, the child's status.
  \<^item> \<open>Dc_Rpc\<close>: \<open>with_retry\<close> of \<open>rpc.h\<close>, \<open>guarded\<close> of the coordinator, the transaction of a handler with
    database faults, and calls over a network that loses requests and replies.
  \<^item> \<open>Dc_Tables\<close>: the tables as lists of records, \<open>join_lines\<close>, \<open>split_lines\<close>, \<open>flat_name\<close>, \<open>action_key\<close>.
  \<^item> \<open>Dc_Sched\<close>: \<open>finished\<close>, \<open>make_ready\<close>, \<open>maybe_finish\<close>, statement by statement.
  \<^item> \<open>Dc_Consistent\<close>, \<open>Dc_Cascade\<close>: the invariant \<open>consistent\<close> of the tables, the relation \<open>evolves\<close> (what no
    operation takes back), and that the cascade keeps both.
  \<^item> \<open>Dc_Complete\<close>, \<open>Dc_Claim\<close>, \<open>Dc_Submit\<close>: \<open>CompleteTask\<close> and the reaper; \<open>RegisterWorker\<close>, \<open>Heartbeat\<close>,
    \<open>ClaimTask\<close>; \<open>SubmitBuild\<close> with its plan from the action cache. Each ends with the lemma that it keeps
    \<open>consistent\<close> and \<open>evolves\<close>.
  \<^item> \<open>Dc_Coordinator\<close>: the other calls, the state \<open>coord\<close> of the process and the step relation \<open>coord_step\<close>,
    in which calls of any clients and workers, rounds of the reaper and restarts follow in any order.
  \<^item> \<open>Dc_Progress\<close>: what the invariant means for builds, and that a build can always be finished.
  \<^item> \<open>Dc_Race\<close>: two completions in overlapping transactions, and the build that is never closed.
  \<^item> \<open>Dc_Worker\<close>: \<open>worker.cpp\<close>: fetching, the directory of a task, command lines, execution, the loop.
  \<^item> \<open>Dc_Orphan\<close>: \<open>ClaimTask\<close> over the network, and the task a worker holds without knowing.
  \<^item> \<open>Dc_Lease\<close>: the heartbeat thread of \<open>worker.cpp\<close>, histories of timed events, and how long a lease must be.
  \<^item> \<open>Dc_State\<close>, \<open>Dc_Client\<close>, \<open>Dc_Build\<close>: \<open>dcc.cpp\<close>: the saved state of units with the formatted reads of
    the stream; units, uploads and the graph; the whole build from the manifest to the exit code.
  \<^item> \<open>Dc_Parallel\<close>: \<open>parallel_for\<close> of \<open>dcc.cpp\<close> as an interleaving of threads.
  \<^item> \<open>Dc_Main\<close>: the option loops of the three programs, exit codes, the start of the coordinator, \<open>GetStats\<close>.
  \<^item> \<open>Dc_Tests\<close>: the unit tests of \<open>tests/unit_tests.cpp\<close> as statements about the model, proved.
  \<^item> \<open>Dc_Example\<close>, \<open>Dc_Example_Build\<close>: concrete runs at which the witnesses apply the properties.

  \<^bold>\<open>State and operations.\<close> A row is a record, a table a list of rows, a statement an update of all rows that
  satisfy its condition (\<open>upd_where\<close>). A handler is a function of the tables (and the blob store) that returns
  the status, the reply and the new tables. Errors are values: \<open>rpc_status\<close> for calls, \<open>string + 'a\<close> for
  exceptions with a message, \<open>txn_result\<close> for what leaves a transaction. What is not under \<open>src/\<close> is an argument:
  SHA-256 (\<open>sha_fn\<close>), the compiler (\<open>runner\<close>, \<open>we_run\<close>), \<open>stat\<close>, \<open>glob\<close>, the clock, what the operating system
  answers to a write (\<open>io_env\<close>), the faults of the database (\<open>txn_env\<close>) and of the network (\<open>link\<close>).

  \<^bold>\<open>What the lemmas show.\<close> The first group of properties is about the whole system: a client's build that exits
  with 0 has the finished outputs of its targets on disk, against a coordinator that others use meanwhile. The
  scheduler group rests on the invariant of \<open>Dc_Consistent\<close>, kept by every step (locale \<open>invariant_of\<close>,
  interpreted as \<open>coord\<close> and, with rounds of the reaper cut short, as \<open>coord_faulty\<close>). The graph, blob store,
  key and parser groups are about single components; the last ones show properties the code lacks.

  \<^bold>\<open>Fuel and bounds.\<close> Kahn's loop has fuel \<open>n + 1\<close>: every round removes one task from the queue, and each of
  the \<open>n\<close> tasks enters it once. \<open>finished\<close> has as fuel one more than the number of tasks: each recursion is for
  a task that was waiting and is now cached, so their number falls (\<open>completion_never_undefined\<close>). A transaction
  makes at most six attempts. \<open>poll_build\<close> is a partial function: the loop in the code has no bound.
  Integers are \<open>int\<close> and \<open>nat\<close> where the code's 64 bits cannot be reached (counters, identifiers). Costs
  come from the client unchecked: sums of costs (ranks, loads) are taken to wrap around at 64 bits (\<open>i64\<close>; in
  C++ the overflow is undefined behaviour), and the properties of ranks and loads assume that the costs add up
  to less than \<open>2^63\<close> (\<open>costs_fit\<close>, \<open>work_fits\<close>).
  Bytes and lengths in frames are \<open>8 word\<close> and 64-bit lengths; the formatted reads of the saved state saturate
  at 64 bits as the stream does, and leave a variable alone when the stream has failed.

  \<^bold>\<open>Assumptions.\<close> A transaction takes effect at once at its COMMIT. A COMMIT may fail: after a deadlock or a
  serialization failure the server has rolled back (documented behaviour of PostgreSQL), after any other error
  the transaction may have taken effect or not (\<open>Commit_error\<close>). Between the attempts of one transaction others
  may change the database (\<open>others\<close> of \<open>transaction\<close>); for the handlers these changes are steps of their own
  before the call (\<open>transaction_last_attempt\<close>: the last attempt alone decides). Transactions do not overlap
  (\<open>Dc_Race\<close> shows what happens when two do). Specifications of builds give compile tasks no dependencies
  (\<open>leaf_compiles\<close>), which the coordinator does not check, but which holds for every request of the client
  (\<open>spec_tasks_leaf\<close>). \<open>--max-attempts\<close> is any number. Doubles are values of an abstract type with the
  machine's addition as a parameter.

  \<^bold>\<open>Not modelled.\<close> The calls of libpq themselves, the set-up of gRPC channels and
  servers, threads and condition variables (their effect is the interleaving of steps), the text of progress lines
  and reports, \<open>Stats::report\<close>, \<open>peak_rss_kb\<close>, and the end-to-end script.
\<close>

section \<open>The whole system\<close>

text \<open>
  C1. If dcc build exits with 0, its file writes landed in full and its output paths do not clash,
  then, whatever others did between calls, the coordinator has a done build in which every
  target's task is finished, and each target's file has the digest recorded as the output of its
  task.
\<close>

theorem outputs_are_built:
  assumes "coord_start m s0" "run_of (coord_step sha m lease faulty) s0 s" "steady sha m lease faulty e" "writes_well e"
    and "dcc_args env args = Parsed opts" "do_cmd opts = ''build''"
    and "load_manifest (ce_glob e) files (do_root opts) = Inr man" "files_apart e (do_root opts) (output_dir opts) man"
    and "dcc_main sha e stats zero quot env args files s = Some (0, files', s')"
  shows "\<exists>b. built sha (output_dir opts) man b files' (co_db s')"
proof -
  have sound: "coord_sound sha m s" using run_evolves[OF assms(2) coord_start_sound[OF assms(1)]] by blast
  have "dcc_build sha e (do_root opts) (output_dir opts) (do_partitions opts) files s = Some (Exits 0, files', s')"
    using dcc_main_zero[OF assms(9)] assms(5,6) by auto
  from dcc_build_ok(1)[OF assms(3,4) sound assms(7,8) this] show ?thesis .
qed

theorem outputs_are_built_witness: "\<exists>b files'. built ex_sha ''o'' ex_manifest b files' ex_built"
proof -
  let ?args = "[''build'', ''-C'', ''r'', ''--out'', ''o'', ''--partitions'', ''1'']"
  let ?stats = "\<lambda>_. (Status_ok, []) :: rpc_status \<times> int stat_line list"
  have one: "atoi ''1'' = 1" by code_simp
  obtain opts where args: "dcc_args None ?args = Parsed opts" and opts: "do_cmd opts = ''build''" "do_root opts = ''r''"
      "output_dir opts = ''o''" "do_partitions opts = 1"
    by (simp add: dcc_args_def dcc_valued_def dcc_other_def dcc_defaults_def output_dir_def one)
  have load: "load_manifest (ce_glob ex_client) ex_files (do_root opts) = Inr ex_manifest"
    using ex_load by (simp add: ex_client_def opts)
  have apart: "files_apart ex_client (do_root opts) (output_dir opts) ex_manifest"
    using ex_surroundings(3) by (simp only: opts)
  obtain files' where "dcc_main ex_sha ex_client ?stats 0 (\<lambda>x _. x) None ?args ex_files (ex_at ex_done 2) = Some (0, files', ex_at ex_built 3)"
    by (simp add: dcc_main_def args opts ex_dcc)
  from outputs_are_built[OF ex_start ex_runs(3) ex_surroundings(1,2) args opts(1) load apart this] show ?thesis
    by (auto simp: opts)
qed

section \<open>The scheduler\<close>

text \<open>
  C2. Transactions one after another, compile tasks without dependencies: a build's stored state
  is the verdict of its tasks (failed if one failed, done if all are done or cached, else
  running), except that when a round of the reaper was cut short it may still be running with a
  failed task.
\<close>

theorem build_state_is_verdict:
  assumes "coord_start m s0" "run_of (coord_step sha m lease faulty) s0 s" "r \<in> set (db_builds (co_db s))"
  shows "b_state r = verdict (b_id r) (co_db s) \<or> faulty \<and> b_state r = BRunning \<and> verdict (b_id r) (co_db s) = BFailed"
proof -
  obtain X where con: "consistent sha m (stored_hashes (co_cas s)) {} X {} (co_db s)" "\<not> faulty \<longrightarrow> X = {}"
    and X: "\<forall>b\<in>X. \<exists>t\<in>set (db_tasks (co_db s)). t_build t = b \<and> t_state t = TFailed"
    using run_consistent[OF assms(1,2)] by blast
  show ?thesis
  proof (cases "b_id r \<in> X \<and> b_state r = BRunning")
    case True
    then have "verdict (b_id r) (co_db s) = BFailed" using X verdict_cases(1) by blast
    with True con(2) show ?thesis by auto
  next
    case False
    with consistent_verdict[OF con(1) assms(3)] show ?thesis by auto
  qed
qed

theorem build_state_is_verdict_witness:
  "b_state (hd (db_builds ex_done)) = verdict 1 ex_done \<and> verdict 1 ex_db = BRunning"
  using build_state_is_verdict[OF ex_start ex_runs(3)[where f = False], of "hd (db_builds ex_done)"]
    build_state_is_verdict[OF ex_start ex_runs(1)[where f = False], of "hd (db_builds ex_db)"]
  by (simp add: ex_done_def ex_db_def)

text \<open>
  C3. Transactions one after another, compile tasks without dependencies: a running build always
  has a task that is ready or running; only if some round of the reaper was cut short it may have
  a failed task instead. Counters of unfinished dependencies strand no build.
\<close>

theorem running_build_is_alive:
  assumes "coord_start m s0" "run_of (coord_step sha m lease faulty) s0 s"
    and "r \<in> set (db_builds (co_db s))" "b_state r = BRunning"
  shows "\<exists>t\<in>set (db_tasks (co_db s)). t_build t = b_id r \<and> (t_state t = TReady \<or> t_state t = TRunning \<or> faulty \<and> t_state t = TFailed)"
proof -
  obtain X where con: "consistent sha m (stored_hashes (co_cas s)) {} X {} (co_db s)" "\<not> faulty \<longrightarrow> X = {}"
    and X: "\<forall>b\<in>X. \<exists>t\<in>set (db_tasks (co_db s)). t_build t = b \<and> t_state t = TFailed"
    using run_consistent[OF assms(1,2)] by blast
  show ?thesis
  proof (cases "b_id r \<in> X")
    case True
    with X con(2) show ?thesis by blast
  next
    case False
    then have "verdict (b_id r) (co_db s) = BRunning" using consistent_verdict(1)[OF con(1) assms(3)] assms(4) by simp
    then show ?thesis using waits_for_live[OF con(1)] unfolding verdict_cases(3) by metis
  qed
qed

theorem running_build_is_alive_witness:
  "\<exists>t\<in>set (db_tasks ex_claimed). t_build t = 1 \<and> (t_state t = TReady \<or> t_state t = TRunning)"
  using running_build_is_alive[OF ex_start ex_runs(2)[where f = False], of "hd (db_builds ex_claimed)"]
  by (simp add: ex_claimed_def ex_db_def)

text \<open>
  C4. Transactions one after another: a task neither waiting nor failed has its cache key; an
  archive or link task has the action key of the names and outputs of its dependencies in link
  order, all of them finished with outputs in the blob store. Rounds of the reaper may be cut
  short.
\<close>

theorem work_has_its_inputs:
  assumes "coord_start m s0" "run_of (coord_step sha m lease faulty) s0 s"
    and "t \<in> set (db_tasks (co_db s))" "t_state t \<noteq> TWaiting" "t_state t \<noteq> TFailed"
  shows "if t_kind t = 0 then t_key t \<noteq> None
    else let deps = dep_rows (t_build t) (t_id t) (co_db s)
         in t_key t = Some (action_key sha (t_kind t) (t_toolchain t) (t_args t) (dep_names deps) (dep_digests deps)) \<and>
            (\<forall>d\<in>set deps. fin (t_state d) \<and> cas_has (co_cas s) (text_of (t_output d)))"
proof -
  obtain X where con: "consistent sha m (stored_hashes (co_cas s)) {} X {} (co_db s)"
    using run_consistent[OF assms(1,2)] by blast
  have tok: "task_ok sha m (stored_hashes (co_cas s)) {} {} (co_db s) t" by (rule consistentD(5)[OF con assms(3)])
  then have "key_ok sha (co_db s) t" using assms(4,5) by (simp add: task_ok_def)
  moreover have "fin (t_state d) \<and> cas_has (co_cas s) (text_of (t_output d))"
    if "d \<in> set (dep_rows (t_build t) (t_id t) (co_db s))" for d
    using dep_rows_fin(2,3)[OF con assms(3) not_waiting_pending[OF tok assms(4)] that]
    by (auto simp: stored_hashes_def text_of_def)
  ultimately show ?thesis unfolding key_ok_def Let_def by (cases "t_kind t = 0") simp_all
qed

theorem work_has_its_inputs_witness:
  "let deps = dep_rows 1 1 ex_done
   in zeros = action_key ex_sha 2 ''gcc'' [] (dep_names deps) (dep_digests deps) \<and>
      list_all (\<lambda>d. fin (t_state d) \<and> cas_has ex_cas (text_of (t_output d))) deps"
  using work_has_its_inputs[OF ex_start ex_runs(3), of "db_tasks ex_done ! 1"]
  by (simp add: ex_done_def ex_task1_def ex_task0_def Let_def list_all_iff)

text \<open>
  C5. A done or cached task has an output that is in the blob store, and the action cache has an
  entry under its key whose blob is there; a cached task has exactly that output.
\<close>

theorem finished_tasks_have_outputs:
  assumes "coord_start m s0" "run_of (coord_step sha m lease False) s0 s"
    and "t \<in> set (db_tasks (co_db s))" "fin (t_state t)"
  shows "\<exists>h. t_output t = Some h \<and> cas_has (co_cas s) h \<and>
    (\<exists>c\<in>set (db_cache (co_db s)). t_key t = Some (c_key c) \<and> cas_has (co_cas s) (c_output c) \<and>
       (t_state t = TCached \<longrightarrow> c_output c = h))"
proof -
  have con: "consistent sha m (stored_hashes (co_cas s)) {} {} {} (co_db s)"
    using coord.inv_run[OF assms(1,2)] by (simp add: coord_ok_def)
  have "(\<exists>h\<in>stored_hashes (co_cas s). t_output t = Some h) \<and> cached_as (co_db s) t"
    using consistentD(5)[OF con assms(3)] assms(4) by (simp add: task_ok_def)
  then show ?thesis using consistentD(4)[OF con]
    by (fastforce simp: cached_as_def cache_ok_def stored_hashes_def)
qed

theorem finished_tasks_have_outputs_witness:
  "\<exists>c\<in>set (db_cache ex_done). c_key c = zeros \<and> cas_has ex_cas (c_output c) \<and> c_output c = zeros"
  using finished_tasks_have_outputs[OF ex_start ex_runs(3), of "db_tasks ex_done ! 1"]
  by (simp add: ex_done_def ex_task1_def ex_task0_def)

text \<open>
  C6. Whatever calls follow, in any order and with rounds of the reaper cut short, a done, cached
  or failed task row and a settled build row never change again, and no blob is lost.
\<close>

theorem settled_rows_are_final:
  assumes "coord_start m s0" "run_of (coord_step sha m lease faulty) s0 s" "run_of (coord_step sha m lease faulty) s s'"
  shows "(\<forall>t\<in>set (db_tasks (co_db s)). terminal (t_state t) \<longrightarrow> t \<in> set (db_tasks (co_db s'))) \<and>
    (\<forall>r\<in>set (db_builds (co_db s)). b_state r \<noteq> BRunning \<longrightarrow> r \<in> set (db_builds (co_db s'))) \<and>
    (\<forall>h. cas_has (co_cas s) h \<longrightarrow> cas_has (co_cas s') h)"
proof -
  have "coord_sound sha m s" using run_evolves[OF assms(2) coord_start_sound[OF assms(1)]] by blast
  then have ev: "evolves (co_db s) (co_db s')" and sub: "stored_hashes (co_cas s) \<subseteq> stored_hashes (co_cas s')"
    using run_evolves[OF assms(3)] by blast+
  have "t \<in> set (db_tasks (co_db s'))" if "t \<in> set (db_tasks (co_db s))" "terminal (t_state t)" for t
    using ev that unfolding evolves_def by metis
  moreover have "r \<in> set (db_builds (co_db s'))" if "r \<in> set (db_builds (co_db s))" "b_state r \<noteq> BRunning" for r
    using ev that unfolding evolves_def by metis
  ultimately show ?thesis using sub by (auto simp: stored_hashes_def)
qed

theorem settled_rows_are_final_witness:
  "set (db_builds ex_done) \<subseteq> set (db_builds (co_db (ex_at ex_done 0))) \<and> ex_at ex_done 0 \<noteq> ex_at ex_done 2"
proof -
  have step: "coord_step ex_sha 3 20000 False (ex_at ex_done 2) (ex_at ex_done 0)"
    using step_restart[of ex_sha 3 20000 False "ex_at ex_done 2"] by (simp add: ex_at_def)
  note run = run_step[of "coord_step ex_sha 3 20000 False" "ex_at ex_done 2" "ex_at ex_done 2" "ex_at ex_done 0", OF run_refl step]
  from settled_rows_are_final[OF ex_start ex_runs(3) run] show ?thesis by (simp add: ex_done_def ex_at_def)
qed

text \<open>
  C7. A claim takes a ready task of the toolchain and partition asked for, of the highest priority
  among the eligible ones, changes that row only, and hands out its inputs in order with an
  attempt number within the limit (which counts as one when it is lower).
\<close>

theorem claim_gives_ready_work:
  assumes "coord_start m s0" "run_of (coord_step sha m lease faulty) s0 s"
    and "claim_stmt lease now w tc part locked pick (co_db s) = (Some a, db')"
  shows "\<exists>t\<in>set (db_tasks (co_db s)). t_state t = TReady \<and> t_toolchain t = tc \<and> (\<forall>p. part = Some p \<longrightarrow> t_part t = p) \<and>
    t_uid t \<notin> locked \<and> (\<forall>u\<in>set (db_tasks (co_db s)). eligible now w tc part locked u \<longrightarrow> t_priority u \<le> t_priority t) \<and>
    assignment_ok (stored_hashes (co_cas s)) (co_db s) t a \<and> a_attempt a = t_attempts t + 1 \<and> a_attempt a \<le> max 1 m \<and>
    db_tasks db' = map (\<lambda>u. if u = t then mark_claimed lease now w t else u) (db_tasks (co_db s))"
proof -
  obtain X where con: "consistent sha m (stored_hashes (co_cas s)) {} X {} (co_db s)"
    using run_evolves[OF assms(2) coord_start_sound[OF assms(1)]] by (auto simp: coord_sound_def)
  show ?thesis
  proof (rule claim_stmt_ok[OF con, of lease now w tc part locked pick], goal_cases)
    case 1
    with assms(3) show ?thesis by simp
  next
    case (2 t)
    have a: "a = assignment_of (mark_claimed lease now w t)" and db': "db' = set_row (mark_claimed lease now w t) (co_db s)"
      using 2(4) assms(3) by simp_all
    have ready: "t_state t = TReady" using 2(2) by (simp add: eligible_def)
    have "t_attempts t < max 1 m" using consistentD(5)[OF con 2(1)] ready unfolding task_ok_def by blast
    moreover have "db_tasks db' = map (\<lambda>u. if u = t then mark_claimed lease now w t else u) (db_tasks (co_db s))"
      unfolding db' set_row_def using same_key_same_row(2)[OF consistentD(1)[OF con] _ 2(1)]
      by (auto simp: mark_claimed_def)
    ultimately show ?thesis
      using 2(1-3) ready assignment_of_ok[OF con 2(1) ready] by (intro bexI[of _ t]) (auto simp: a eligible_def assignment_of_def mark_claimed_def)
  qed
qed

theorem claim_gives_ready_work_witness:
  "assignment_ok (stored_hashes ex_cas) ex_db ex_task0 (assignment_of (mark_claimed 20000 0 ''w1'' ex_task0))"
  using claim_gives_ready_work[OF ex_start ex_runs(1), of 0 "''w1''" "''gcc''" "Some 0" "{}" 0] ex_claim
  by (auto simp: ex_db_def ex_task1_def ex_task0_def)

text \<open>
  C8. Two claims of the same task, however far apart and whatever came between, carry different
  attempt numbers, the later one the larger.
\<close>

theorem attempt_numbers_are_fresh:
  assumes "coord_start m s0" "run_of (coord_step sha m lease faulty) s0 s"
    and "claim_stmt lease now w tc part locked pick (co_db s) = (Some a, db')"
    and "run_of (coord_step sha m lease faulty) (s\<lparr>co_db := db'\<rparr>) u"
    and "claim_stmt lease now' w' tc' part' locked' pick' (co_db u) = (Some a', db'')" "a_uid a' = a_uid a"
  shows "a_attempt a < a_attempt a'"
proof -
  obtain X where con: "consistent sha m (stored_hashes (co_cas s)) {} X {} (co_db s)" and snd: "coord_sound sha m s"
    using run_evolves[OF assms(2) coord_start_sound[OF assms(1)]] by (auto simp: coord_sound_def)
  have "coord_step sha m lease faulty s (s\<lparr>co_db := db'\<rparr>)"
    using step_claim[of sha m lease faulty s now w tc part locked pick] assms(3) by simp
  then have r: "coord_sound sha m (s\<lparr>co_db := db'\<rparr>)" by (rule coord_sound_step[OF snd])
  then have ev: "evolves db' (co_db u)" and "coord_sound sha m u" using run_evolves[OF assms(4)] by auto
  then obtain Y where con': "consistent sha m (stored_hashes (co_cas u)) {} Y {} (co_db u)" by (auto simp: coord_sound_def)
  obtain t where t: "t \<in> set (db_tasks (co_db s))" "a = assignment_of (mark_claimed lease now w t)"
    "db' = set_row (mark_claimed lease now w t) (co_db s)"
    using claim_stmt_ok[OF con, of lease now w tc part locked pick] assms(3) by (metis Pair_inject option.distinct(1) option.inject)
  obtain t' where t': "t' \<in> set (db_tasks (co_db u))" "a' = assignment_of (mark_claimed lease now' w' t')"
    using claim_stmt_ok[OF con', of lease now' w' tc' part' locked' pick'] assms(5) by (metis Pair_inject option.distinct(1) option.inject)
  have "mark_claimed lease now w t \<in> set (db_tasks db')" using t(1) by (auto simp: t(3) set_row_def image_iff mark_claimed_def intro!: bexI[of _ t])
  then obtain v where v: "v \<in> set (db_tasks (co_db u))" "t_uid v = t_uid t" "t_attempts t + 1 \<le> t_attempts v"
    using ev unfolding evolves_def same_cols_def mark_claimed_def by fastforce
  have "v = t'" using same_key_same_row(2)[OF consistentD(1)[OF con'] v(1) t'(1)] v(2) assms(6)
    by (simp add: t(2) t'(2) assignment_of_def mark_claimed_def)
  with v(3) show ?thesis by (simp add: t(2) t'(2) assignment_of_def mark_claimed_def)
qed

theorem attempt_numbers_are_fresh_witness:
  "\<exists>a a' db' db''. claim_stmt 20000 0 ''w1'' ''gcc'' (Some 0) {} 0 ex_db = (Some a, db') \<and>
     claim_stmt 20000 100 ''w2'' ''gcc'' None {} 0 ex_requeued = (Some a', db'') \<and> a_uid a' = a_uid a \<and> a_attempt a < a_attempt a'"
proof -
  obtain a' db'' where c: "claim_stmt 20000 100 ''w2'' ''gcc'' None {} 0 ex_requeued = (Some a', db'')"
    "a' = assignment_of (mark_claimed 20000 100 ''w2'' (mark_retry 3 9 ''timeout'' (mark_claimed 20000 0 ''w1'' ex_task0)))"
    using ex_reclaim by (metis fst_conv prod.collapse)
  have uid: "a_uid a' = a_uid (assignment_of (mark_claimed 20000 0 ''w1'' ex_task0))"
    by (simp add: c(2) assignment_of_def mark_claimed_def mark_retry_def)
  have "a_attempt (assignment_of (mark_claimed 20000 0 ''w1'' ex_task0)) < a_attempt a'"
    by (rule attempt_numbers_are_fresh[where faulty = False and now = 0 and w = "''w1''" and part = "Some 0" and locked = "{}"
        and pick = 0 and tc = "''gcc''" and now' = 100 and w' = "''w2''" and part' = None and locked' = "{}" and pick' = 0
        and tc' = "''gcc''" and u = "ex_at ex_requeued 2", OF ex_start ex_runs(1) _ _ _ uid])
      (use ex_run_retry[of False] in \<open>simp_all add: ex_claim ex_at_upd c(1)\<close>)
  with ex_claim c(1) uid show ?thesis by blast
qed

text \<open>
  C9. Once a success or a final failure of a task was accepted, every later report of that task,
  whatever it says, is not accepted and changes nothing.
\<close>

theorem completion_accepted_once:
  assumes "coord_start m s0" "run_of (coord_step sha m lease faulty) s0 s"
    and "complete_task sha m (co_cas s) env now r (co_db s) = (Status_ok, Some True, db')"
    and "r_ok r \<and> cas_has (co_cas s) (r_output r) \<or> \<not> r_ok r \<and> \<not> r_retryable r"
    and "run_of (coord_step sha m lease faulty) (complete_call sha m env now r s) u" "r_uid r' = r_uid r"
  shows "\<exists>st acc. complete_task sha m (co_cas u) env' now' r' (co_db u) = (st, acc, co_db u) \<and> acc \<noteq> Some True"
proof -
  obtain X where con: "consistent sha m (stored_hashes (co_cas s)) {} X {} (co_db s)"
    using run_evolves[OF assms(2) coord_start_sound[OF assms(1)]] by (auto simp: coord_sound_def)
  have "complete_txn sha m (co_cas s) env now r (co_db s) = (Status_ok, Some True, db')"
    using assms(3,4) by (auto simp: complete_task_def)
  from complete_txn_ok(4)[OF con _ this] assms(4)
  have body: "complete_body sha m (co_cas s) now r (co_db s) = Some (True, db')" by (auto simp: stored_hashes_def)
  obtain t where t: "t \<in> set (db_tasks db')" "t_uid t = r_uid r" "terminal (t_state t)"
    using final_report_settles[OF con assms(4) body] by blast
  have "coord_sound sha m (complete_call sha m env now r s)"
    using coord_sound_step[OF _ step_complete] run_evolves[OF assms(2) coord_start_sound[OF assms(1)]] by blast
  from run_evolves[OF assms(5) this] have u: "coord_sound sha m u" "evolves db' (co_db u)"
    using assms(3) by (simp_all add: complete_call_def wake_workers_def)
  obtain Y where conu: "consistent sha m (stored_hashes (co_cas u)) {} Y {} (co_db u)"
    using u(1) by (auto simp: coord_sound_def)
  have "t \<in> set (db_tasks (co_db u))" using u(2) t(1,3) unfolding evolves_def by metis
  then show ?thesis using settled_not_accepted[OF conu _ _ t(3)] t(2) assms(6) by simp
qed

theorem completion_accepted_once_witness:
  "\<exists>st acc. complete_task ex_sha 3 ex_cas calm 6 ex_result ex_done = (st, acc, ex_done) \<and> acc \<noteq> Some True"
proof -
  have c: "complete_call ex_sha 3 calm 5 ex_result (ex_at ex_claimed 1) = ex_at ex_done 2"
    by (simp add: complete_call_def ex_complete wake_workers_def ex_at_def)
  have "complete_task ex_sha 3 (co_cas (ex_at ex_claimed 1)) calm 5 ex_result (co_db (ex_at ex_claimed 1)) = (Status_ok, Some True, ex_done)"
    by (simp add: ex_complete)
  from completion_accepted_once[OF ex_start ex_runs(2) this _ run_refl refl, of calm 6]
  show ?thesis unfolding c by (simp add: ex_result_def)
qed

text \<open>
  C10. Reporting a success: accepted, the row is done with the output and its key is in the action
  cache; not accepted, nothing changed; a missing blob counts as a failed attempt (requeue, or
  fail the build); a database error changes nothing, unless the answer of the COMMIT was lost
  after such a change.
\<close>

theorem completion_outcome:
  assumes "coord_start m s0" "run_of (coord_step sha m lease faulty) s0 s"
    and "complete_task sha m (co_cas s) env now r (co_db s) = (st, acc, db')" "r_ok r"
  shows "let report = success_report m now (cas_has (co_cas s) (r_output r)) r (co_db s)
    in case acc of
      Some a \<Rightarrow> st = Status_ok \<and> report a db'
    | None \<Rightarrow> (\<exists>e. st = Status_error Unavailable e) \<and>
        (db' = co_db s \<or> (\<exists>a. report a db') \<and> (\<exists>j e. commits env j = Commit_error True e))"
proof -
  obtain X where con: "consistent sha m (stored_hashes (co_cas s)) {} X {} (co_db s)"
    using run_consistent[OF assms(1,2)] by blast
  have C: "cas_has (co_cas s) (r_output r) \<Longrightarrow> r_output r \<in> stored_hashes (co_cas s)" by (simp add: stored_hashes_def)
  from success_report_ok[OF con C assms(3,4)] show ?thesis by (cases acc) (simp_all only: Let_def option.case)
qed

theorem completion_outcome_witness:
  "success_report 3 5 True ex_result ex_claimed True ex_done \<and> mark_done ex_result (mark_claimed 20000 0 ''w1'' ex_task0) \<in> set (db_tasks ex_done)"
proof -
  have r: "r_ok ex_result" "cas_has ex_cas (r_output ex_result)" by (simp_all add: ex_result_def)
  have c: "complete_task ex_sha 3 (co_cas (ex_at ex_claimed 1)) calm 5 ex_result (co_db (ex_at ex_claimed 1)) = (Status_ok, Some True, ex_done)"
    by (simp add: ex_complete)
  from completion_outcome[OF ex_start ex_runs(2) c r(1)] r(2) have "success_report 3 5 True ex_result ex_claimed True ex_done"
    by (simp add: ex_at_def)
  then show ?thesis by (auto simp: success_report_def ex_claimed_def ex_db_def live_row_def ex_task0_def ex_task1_def ex_result_def)
qed

text \<open>
  C11. If no round of the reaper was cut short, transactions came one after another and the store
  has some blob, every build can be brought to its end: some sequence of calls leads to a state in
  which it is no longer running.
\<close>

theorem build_can_finish:
  assumes "coord_start m s0" "run_of (coord_step sha m lease False) s0 s"
    and "r \<in> set (db_builds (co_db s))" "cas_has (co_cas s) h"
  shows "\<exists>s'. run_of (coord_step sha m lease False) s s' \<and>
    (\<exists>r'\<in>set (db_builds (co_db s')). b_id r' = b_id r \<and> b_state r' \<noteq> BRunning)"
proof (cases "b_state r = BRunning")
  case True
  show ?thesis by (rule can_finish[OF coord.inv_run[OF assms(1,2)] assms(4,3) True])
next
  case False
  with assms(3) show ?thesis by (intro exI[of _ s] conjI run_refl bexI[of _ r]) simp_all
qed

theorem build_can_finish_witness:
  "\<exists>s'. run_of (coord_step ex_sha 3 20000 False) (ex_at ex_db 1) s' \<and>
    (\<exists>r'\<in>set (db_builds (co_db s')). b_id r' = 1 \<and> b_state r' \<noteq> BRunning)"
  using build_can_finish[OF ex_start ex_runs(1), of "hd (db_builds ex_db)" zeros] by (simp add: ex_db_def)

text \<open>
  C12. The completion cascade ends, within the fuel given, and reads no missing row: the body of
  CompleteTask has a result in every reachable state, and changes nothing when it does not accept.
\<close>

theorem completion_never_undefined:
  assumes "coord_start m s0" "run_of (coord_step sha m lease faulty) s0 s" "r_ok r \<Longrightarrow> cas_has (co_cas s) (r_output r)"
  shows "\<exists>a db'. complete_body sha m (co_cas s) now r (co_db s) = Some (a, db') \<and> (\<not> a \<longrightarrow> db' = co_db s)"
proof -
  obtain X where con: "consistent sha m (stored_hashes (co_cas s)) {} X {} (co_db s)"
    using run_evolves[OF assms(2) coord_start_sound[OF assms(1)]] by (auto simp: coord_sound_def)
  have out: "r_ok r \<Longrightarrow> r_output r \<in> stored_hashes (co_cas s)" using assms(3) by (simp add: stored_hashes_def)
  show ?thesis
  proof (rule complete_body_ok[OF con, of r "co_cas s" now])
    show "r_output r \<in> stored_hashes (co_cas s)" if "r_ok r" using that by (rule out)
    fix a db' assume "complete_body sha m (co_cas s) now r (co_db s) = Some (a, db')" "\<not> a \<Longrightarrow> db' = co_db s"
    then show ?thesis by (intro exI[of _ a] exI[of _ db']) simp
  qed
qed

theorem completion_never_undefined_witness:
  "\<exists>a db'. complete_body ex_sha 3 ex_cas 5 ex_result ex_claimed = Some (a, db')"
  using completion_never_undefined[OF ex_start ex_runs(2), of ex_result 5] by (auto simp: ex_result_def)

text \<open>
  C13. SubmitBuild (compile tasks without dependencies) answers an error and changes nothing, or
  the graph is acyclic and exactly the rows of the new build are added, their states, keys,
  counters and outputs as the cache says, ranks and partitions as the graph says; OK unless the
  COMMIT's answer was lost.
\<close>

theorem submit_outcome:
  assumes "coord_start m s0" "run_of (coord_step sha m lease faulty) s0 s" "leaf_compiles (bs_tasks spec)"
    and "submit_build sha (co_cas s) env now spec (co_db s) = (st, rep, db')"
  shows "let g = graph_of (bs_tasks spec); b = db_next_build (co_db s);
        part = partition_graph g (if bs_partitions spec > 0 then bs_partitions spec else live_partitions now (co_db s))
    in st \<noteq> Status_ok \<and> db' = co_db s \<or>
       valid_graph g \<and> acyclic (dep_rel g) \<and> submitted sha (co_cas s) now spec (upward_rank g) part b (co_db s) db' \<and>
       (st = Status_ok \<and> sr_build rep = b \<or>
        (\<exists>e. st = Status_error Unavailable e) \<and> (\<exists>j e. commits env j = Commit_error True e))"
proof -
  obtain X where con: "consistent sha m (stored_hashes (co_cas s)) {} X {} (co_db s)"
    using run_consistent[OF assms(1,2)] by blast
  from submit_build_ok(3)[OF con assms(3,4)] show ?thesis unfolding Let_def .
qed

theorem submit_outcome_witness:
  "submitted ex_sha ex_cas 0 ex_spec (upward_rank (graph_of (bs_tasks ex_spec))) (partition_graph (graph_of (bs_tasks ex_spec)) 1) 1 empty_db ex_db"
proof -
  have p: "bs_partitions ex_spec = 1" "db_next_build empty_db = 1" by (simp_all add: ex_spec_def empty_db_def)
  have "submit_build ex_sha (co_cas (ex_at empty_db 0)) calm 0 ex_spec (co_db (ex_at empty_db 0)) = (Status_ok, \<lparr>sr_build = 1, sr_cached = 0\<rparr>, ex_db)"
    by (simp only: ex_at_simps ex_submit)
  from submit_outcome[OF ex_start run_refl ex_leaf this] show ?thesis unfolding Let_def ex_at_simps p by simp
qed

text \<open>
  C14. The last two tasks of a build, which nothing waits for, complete in two transactions at
  once: both are accepted, each sees the other task as unfinished, all tasks end finished, and the
  build stays running whatever happens afterwards.
\<close>

theorem sinks_at_once_are_missed:
  assumes "coord_start m s0" "run_of (coord_step sha m lease False) s0 s"
    and "x \<in> set (db_tasks (co_db s))" "live_row (r_uid r) x" "sink x (co_db s)" "r_ok r" "cas_has (co_cas s) (r_output r)"
    and "y \<in> set (db_tasks (co_db s))" "live_row (r_uid q) y" "sink y (co_db s)" "r_ok q" "cas_has (co_cas s) (r_output q)"
    and "t_build x = b" "t_build y = b" "x \<noteq> y" "t_key x \<noteq> t_key y"
    and "\<And>t. t \<in> set (db_tasks (co_db s)) \<Longrightarrow> t_build t = b \<Longrightarrow> t = x \<or> t = y \<or> fin (t_state t)"
  shows "\<exists>db1 db2 db'. complete_body sha m (co_cas s) now r (co_db s) = Some (True, db1) \<and>
    complete_body sha m (co_cas s) now q (co_db s) = Some (True, db2) \<and> side_by_side (co_db s) db1 db2 = Some db' \<and> at_rest b db' \<and>
    (\<forall>s'. run_of (coord_step sha m lease faulty) (s\<lparr>co_db := db'\<rparr>) s' \<longrightarrow>
       (\<exists>r\<in>set (db_builds (co_db s')). b_id r = b \<and> b_state r = BRunning))"
  using sinks_at_once[OF coord.inv_run[OF assms(1,2)] assms(3-17)] by metis

theorem sinks_at_once_are_missed_witness:
  "\<exists>db1 db2 db'. complete_body ex_sha 3 ex_cas 5 ex_result ex_pair_db = Some (True, db1) \<and>
    complete_body ex_sha 3 ex_cas 5 (ex_result\<lparr>r_uid := 2\<rparr>) ex_pair_db = Some (True, db2) \<and>
    side_by_side ex_pair_db db1 db2 = Some db' \<and> at_rest 1 db' \<and> list_ex (\<lambda>r. b_id r = 1 \<and> b_state r = BRunning) (db_builds db')"
proof -
  have live: "live_row (r_uid ex_result) ex_left" "live_row (r_uid (ex_result\<lparr>r_uid := 2\<rparr>)) ex_right"
    "r_ok ex_result" "r_ok (ex_result\<lparr>r_uid := 2\<rparr>)" "cas_has (co_cas (ex_at ex_pair_db 1)) (r_output ex_result)"
    "cas_has (co_cas (ex_at ex_pair_db 1)) (r_output (ex_result\<lparr>r_uid := 2\<rparr>))" "ex_left \<noteq> ex_right"
    by (simp_all add: live_row_def ex_left_def ex_right_def ex_task0_def ex_result_def)
  have rows: "ex_left \<in> set (db_tasks (co_db (ex_at ex_pair_db 1)))" "ex_right \<in> set (db_tasks (co_db (ex_at ex_pair_db 1)))"
    "sink ex_left (co_db (ex_at ex_pair_db 1))" "sink ex_right (co_db (ex_at ex_pair_db 1))" "t_build ex_left = 1" "t_build ex_right = 1"
    "t_key ex_left \<noteq> t_key ex_right"
    by (simp_all add: ex_pair_db_def sink_def ex_left_def ex_right_def ex_task0_def)
  from sinks_at_once_are_missed[OF ex_start ex_run_pair rows(1) live(1) rows(3) live(3,5) rows(2) live(2) rows(4) live(4,6) rows(5,6) live(7) rows(7),
      where now = 5 and faulty = False]
  obtain db1 db2 db' where d: "complete_body ex_sha 3 ex_cas 5 ex_result ex_pair_db = Some (True, db1)"
    "complete_body ex_sha 3 ex_cas 5 (ex_result\<lparr>r_uid := 2\<rparr>) ex_pair_db = Some (True, db2)"
    "side_by_side ex_pair_db db1 db2 = Some db'" "at_rest 1 db'"
    "\<forall>s'. run_of (coord_step ex_sha 3 20000 False) ((ex_at ex_pair_db 1)\<lparr>co_db := db'\<rparr>) s' \<longrightarrow> (\<exists>r\<in>set (db_builds (co_db s')). b_id r = 1 \<and> b_state r = BRunning)"
    by (auto simp: ex_pair_db_def)
  from d(5) run_refl have "\<exists>r\<in>set (db_builds db'). b_id r = 1 \<and> b_state r = BRunning" by (fastforce simp: ex_at_def)
  with d(1-4) show ?thesis by (auto simp: list_ex_iff)
qed

text \<open>
  C15. A round of the reaper leaves tasks with a live lease alone, requeues an expired one with
  attempts left, and fails an expired one without, together with its build.
\<close>

theorem reaper_outcome:
  assumes "coord_start m s0" "run_of (coord_step sha m lease False) s0 s" "t \<in> set (db_tasks (co_db s))"
  shows "if \<not> expired now t then t \<in> set (db_tasks (co_db (reap_round m None now s)))
    else \<exists>t'\<in>set (db_tasks (co_db (reap_round m None now s))). t_uid t' = t_uid t \<and> t_lease_owner t' = None \<and>
      t_last_failed_by t' = t_lease_owner t \<and>
      (if t_attempts t < m then t_state t' = TReady
       else t_state t' = TFailed \<and> (\<forall>r\<in>set (db_builds (co_db (reap_round m None now s))). b_id r = t_build t \<longrightarrow> b_state r = BFailed))"
proof -
  let ?s = "reap_round m None now s"
  have con: "consistent sha m (stored_hashes (co_cas s)) {} {} {} (co_db s)"
    using coord.inv_run[OF assms(1,2)] by (simp add: coord_ok_def)
  have eq: "co_db ?s = reap m None now (co_db s)" by (simp add: reap_round_def Let_def wake_workers_def)
  obtain Y where Y: "consistent sha m (stored_hashes (co_cas s)) {} ({} \<union> Y) {} (co_db ?s)" "Y = {}"
    and rows: "db_tasks (co_db ?s) = upd_where (expired now) (mark_reaped m now) (db_tasks (co_db s))"
    using reap_ok[OF con, of None now] unfolding eq by metis
  have mem: "(if expired now t then mark_reaped m now t else t) \<in> set (db_tasks (co_db ?s))"
    unfolding rows by (rule upd_where_memI[OF assms(3)])
  have "b_state r = BFailed" if "expired now t" "\<not> t_attempts t < m" "r \<in> set (db_builds (co_db ?s))" "b_id r = t_build t" for r
  proof -
    have "verdict (b_id r) (co_db ?s) = BFailed"
      using mem that by (auto simp: verdict_cases(1) mark_reaped_def intro!: bexI[of _ "mark_reaped m now t"])
    with consistent_verdict(1)[OF Y(1) that(3)] Y(2) show ?thesis by simp
  qed
  with mem show ?thesis by (auto simp: mark_reaped_def intro!: bexI[of _ "mark_reaped m now t"])
qed

theorem reaper_outcome_witness:
  "\<exists>t'\<in>set (db_tasks (co_db (reap_round 3 None 30000 (ex_at ex_claimed 1)))). t_uid t' = 1 \<and> t_state t' = TReady"
  using reaper_outcome[OF ex_start ex_runs(2), of "mark_claimed 20000 0 ''w1'' ex_task0" 30000]
  by (auto simp: ex_claimed_def mark_claimed_def expired_def ex_task0_def)

text \<open>
  C16. If a heartbeat thread wakes at most \<open>late\<close> ms late, its calls are answered in
  time and leases last 13 s plus \<open>late\<close>, a worker keeps a task it claimed, whatever
  rounds of the reaper, claims, submissions and reports of other tasks come between, until the
  task itself is reported.
\<close>

theorem live_workers_keep_their_tasks:
  assumes "coord_start m s0" "run_of (coord_step sha m lease faulty) s0 s" "13000 + late \<le> lease"
    and "t \<in> set (db_tasks (co_db s))" "t_state t = TRunning" "t_lease_owner t = Some w" "t_lease_until t = Some (now + lease)"
    and "list_all (answered late) calls" "start \<le> now"
    and "sorted (event_times es)" "beats_of w es = dropWhile (\<lambda>a. a < now) (heartbeat_thread start calls)"
    and "list_all (\<lambda>a. a \<le> last (now # beats_of w es) + lease) (event_times es)"
    and "list_all event_ok es" "list_all (\<lambda>e. reported e \<noteq> Some (t_uid t)) es"
  shows "held w (t_uid t) (t_attempts t) (co_db (history sha m lease es s))"
proof -
  have sound: "coord_sound sha m s" using run_evolves[OF assms(2) coord_start_sound[OF assms(1)]] by blast
  then obtain X where "consistent sha m (stored_hashes (co_cas s)) {} X {} (co_db s)" by (auto simp: coord_sound_def)
  from consistentD(5)[OF this assms(4)] have "t_pending t \<le> 0" using assms(5) by (auto simp: task_ok_def)
  then have "on_lease w (t_uid t) (t_attempts t) (now + lease) (co_db s)"
    using assms(5-7) by (intro leasedI[OF assms(4)]) (simp add: leased_row_def)
  from live_worker_keeps[OF sound this assms(3,8-14)] show ?thesis .
qed

theorem live_workers_keep_their_tasks_witness:
  "held ''w1'' 1 1 (co_db (history ex_sha 3 20000
     [Beat 3100 ''w1'', Beat 4000 ''w2'', Round 5000 None, Beat 6300 ''w1'', Round 25000 None] (ex_at ex_claimed 1)))"
proof -
  let ?es = "[Beat 3100 ''w1'', Beat 4000 ''w2'', Round 5000 None, Beat 6300 ''w1'', Round 25000 None]"
  let ?calls = "[\<lparr>b_sleeps = 3000, b_arrives = Some 100, b_takes = 200\<rparr>, \<lparr>b_sleeps = 3000, b_arrives = Some 100, b_takes = 300\<rparr>]"
  let ?t = "mark_claimed 20000 0 ''w1'' ex_task0"
  have t: "?t \<in> set (db_tasks (co_db (ex_at ex_claimed 1)))" "t_state ?t = TRunning" "t_lease_owner ?t = Some ''w1''"
    "t_lease_until ?t = Some (0 + 20000)" "t_uid ?t = 1" "t_attempts ?t = 1"
    by (simp_all add: ex_claimed_def mark_claimed_def ex_task0_def)
  have c: "list_all (answered 0) ?calls" by (simp add: answered_def)
  have e: "sorted (event_times ?es)" "beats_of ''w1'' ?es = dropWhile (\<lambda>a. a < 0) (heartbeat_thread 0 ?calls)"
    "list_all (\<lambda>a. a \<le> last (0 # beats_of ''w1'' ?es) + 20000) (event_times ?es)" "list_all event_ok ?es"
    "list_all (\<lambda>e. reported e \<noteq> Some (t_uid ?t)) ?es"
    by (simp_all add: map_filter_simps reported_def)
  have l: "(13000::int) + 0 \<le> 20000" "(0::int) \<le> 0" by simp_all
  from live_workers_keep_their_tasks[OF ex_start ex_runs(2) l(1) t(1-4) c l(2) e] show ?thesis by (simp only: t)
qed

text \<open>
  C17. No task is attempted more often than the maximum (or once, when that is below one); a
  running one has an owner and a lease, and the count of unfinished dependencies is never negative
  and is positive exactly while the task waits.
\<close>

theorem attempts_are_bounded:
  assumes "coord_start m s0" "run_of (coord_step sha m lease faulty) s0 s" "t \<in> set (db_tasks (co_db s))"
  shows "t_attempts t \<le> max 1 m \<and> (t_state t = TReady \<or> t_state t = TWaiting \<longrightarrow> t_attempts t < max 1 m) \<and>
    (t_state t = TRunning \<longrightarrow> 0 < t_attempts t \<and> t_lease_owner t \<noteq> None \<and> t_lease_until t \<noteq> None) \<and>
    0 \<le> t_pending t \<and> (t_state t = TWaiting \<longleftrightarrow> 0 < t_pending t)"
proof -
  obtain X where con: "consistent sha m (stored_hashes (co_cas s)) {} X {} (co_db s)"
    using run_consistent[OF assms(1,2)] by blast
  have tok: "task_ok sha m (stored_hashes (co_cas s)) {} {} (co_db s) t" by (rule consistentD(5)[OF con assms(3)])
  then have "0 \<le> t_pending t" by (simp add: task_ok_def)
  with tok show ?thesis unfolding task_ok_def empty_iff simp_thms by blast
qed

theorem attempts_are_bounded_witness: "list_all (\<lambda>t. t_attempts t \<le> 3 \<and> 0 \<le> t_pending t) (db_tasks ex_claimed)"
  using attempts_are_bounded[OF ex_start ex_runs(2)] by (simp add: list_all_iff)

section \<open>The task graph\<close>

text \<open>
  C18. Kahn: an order is returned exactly for a valid acyclic graph and lists every task once
  after its dependencies; each error message is accurate, and the loop ends within its fuel.
\<close>

theorem topo_order_correct:
  "case topo_order t of
     Inr order \<Rightarrow> valid_graph t \<and> acyclic (dep_rel t) \<and> topo_sorted t order
   | Inl DependencyCycle \<Rightarrow> valid_graph t \<and> \<not> acyclic (dep_rel t)
   | Inl BadIds \<Rightarrow> \<exists>j<length t. g_id (t ! j) \<noteq> int j
   | Inl (BadDep j d) \<Rightarrow> j < length t \<and> d \<in> set (g_deps (t ! j)) \<and> (d < 0 \<or> d \<ge> int (length t) \<or> d = int j)
   | Inl OutOfFuel \<Rightarrow> False"
  by (rule topo_order_outcome)

text \<open>
  C19. The upward rank of a task is the cost of the most expensive chain of tasks that starts at
  it: no chain costs more and some chain costs that much. For costs whose absolute values sum to
  less than 2^63: the code adds in int64_t.
\<close>

theorem rank_is_longest_chain:
  assumes "topo_order t = Inr order" "costs_fit t" "i < length t"
  shows "(\<forall>p. chain t (i # p) \<longrightarrow> chain_cost t (i # p) \<le> upward_rank t ! i) \<and>
    (\<exists>p. chain t (i # p) \<and> chain_cost t (i # p) = upward_rank t ! i)"
  using topo_order_Inr[OF assms(1)] chain_cost_le_rank rank_attained assms(2,3) by blast

theorem rank_is_longest_chain_witness:
  "\<exists>p. chain (graph_of (bs_tasks ex_spec)) (0 # p) \<and> chain_cost (graph_of (bs_tasks ex_spec)) (0 # p) = 4"
proof -
  have "costs_fit (graph_of (bs_tasks ex_spec))" by (simp add: costs_fit_def ex_spec_def graph_of_def)
  from rank_is_longest_chain[OF ex_order this, of 0, unfolded ex_rank] show ?thesis by (simp add: ex_spec_def graph_of_def)
qed

text \<open>
  C20. Every task gets a partition in range, and a compile task shares the partition of the first
  archive that contains it.
\<close>

theorem partition_covers_parts:
  assumes "topo_order t = Inr order"
  shows "length (partition_graph t parts) = length t \<and> (\<forall>p\<in>set (partition_graph t parts). p < nat (max 1 parts)) \<and>
    (\<forall>a j. a < length t \<and> g_kind (t ! a) = kArchive \<and> j \<in> set (deps_of t a) \<and> g_kind (t ! j) = kCompile \<and>
        (\<forall>b<a. g_kind (t ! b) = kArchive \<longrightarrow> j \<notin> set (deps_of t b)) \<longrightarrow>
      partition_graph t parts ! j = partition_graph t parts ! a)"
proof -
  have v: "valid_graph t" using topo_order_Inr[OF assms] by blast
  show ?thesis using partition_in_range[OF v] partition_together[OF v] by blast
qed

theorem partition_covers_parts_witness:
  "list_all (\<lambda>p. p < nat (max 1 4)) (partition_graph (graph_of (bs_tasks ex_spec)) 4)"
  using partition_covers_parts[OF ex_order, of 4] unfolding list_all_iff by blast

text \<open>
  C21. The Graham bound: the load of a partition is at most the average load plus the share (1 -
  1/parts) of the largest unit. For costs, each taken as at least 1, that sum to less than 2^63:
  the code adds in int64_t.
\<close>

theorem partition_is_balanced:
  assumes "topo_order t = Inr order" "1 < parts" "t \<noteq> []" "work_fits t" "p < nat parts"
  shows "parts * part_load t (partition_graph t parts) p
    \<le> sum_list (map (work_of t) [0..<length t]) + (parts - 1) * max_unit_cost t"
  using partition_balanced assms topo_order_Inr[OF assms(1)] by blast

theorem partition_is_balanced_witness:
  "3 * part_load (graph_of (bs_tasks ex_spec)) (partition_graph (graph_of (bs_tasks ex_spec)) 3) 0
    \<le> sum_list (map (work_of (graph_of (bs_tasks ex_spec))) [0..<length (graph_of (bs_tasks ex_spec))])
      + (3 - 1) * max_unit_cost (graph_of (bs_tasks ex_spec))"
proof -
  have "graph_of (bs_tasks ex_spec) \<noteq> []" by (simp add: ex_spec_def graph_of_def)
  moreover have "work_fits (graph_of (bs_tasks ex_spec))" by (simp add: work_fits_def work_of_def ex_spec_def graph_of_def)
  ultimately show ?thesis by (intro partition_is_balanced[OF ex_order]) simp_all
qed

section \<open>The blob store\<close>



text \<open>
  C23. Writers of temporary files, interleaved in any way and dying at any point: a step is
  invisible or puts one blob. If no final flush is lost, it is the complete data and every blob
  matches its name, an atomic store; otherwise a blob may be a beginning of data with that hash.
\<close>

theorem concurrent_puts_are_atomic:
  assumes "run_of (store_step sha lossy) empty_store s" "store_step sha lossy s t"
  shows "(blobs t = blobs s \<or> (\<exists>d n. blobs t = (blobs s)(sha256_hex sha d \<mapsto> take n d) \<and> (lossy \<or> length d \<le> n))) \<and>
    (\<forall>h c. blobs t h = Some c \<longrightarrow> (\<exists>d n. sha256_hex sha d = h \<and> c = take n d \<and> (lossy \<or> c = d)))"
proof -
  have s: "store_ok sha lossy s" using shared_blobs.inv_run[OF refl assms(1)] .
  from assms(2) have "blobs t = blobs s \<or> (\<exists>d n. blobs t = (blobs s)(sha256_hex sha d \<mapsto> take n d) \<and> (lossy \<or> length d \<le> n))"
  proof cases
    case (writer_renames w x)
    with s have "w_hash x = sha256_hex sha (w_data x)" "w_lost x \<longrightarrow> lossy" by (auto simp: store_ok_def)
    with writer_renames show ?thesis by (intro disjI2 exI[of _ "w_data x"] exI[of _ "w_done x"]) auto
  qed simp_all
  with store_ok_step[OF s assms(2)] show ?thesis unfolding store_ok_def blob_of_def by metis
qed

theorem concurrent_puts_are_atomic_witness:
  "\<exists>s. run_of (store_step ex_sha False) empty_store s \<and> blobs s zeros = Some [] \<and> sha256_hex ex_sha [] = zeros"
proof -
  let ?s1 = "empty_store\<lparr>writers := (writers empty_store)(0 \<mapsto> new_writing ex_sha [])\<rparr>"
  have s1: "store_step ex_sha False empty_store ?s1" by (rule writer_opens) (simp_all add: empty_store_def)
  let ?s2 = "\<lparr>blobs = (blobs ?s1)(zeros \<mapsto> []), writers = (writers ?s1)(0 := None)\<rparr>"
  have s2: "store_step ex_sha False ?s1 ?s2"
    using writer_renames[of ?s1 0 "new_writing ex_sha []" ex_sha False] by (simp add: new_writing_def ex_sha_hex)
  have r1: "run_of (store_step ex_sha False) empty_store ?s1" by (rule run_step) (rule run_refl, rule s1)
  have b: "blobs ?s2 zeros = Some []" by simp
  have "sha256_hex ex_sha [] = zeros" using concurrent_puts_are_atomic[OF r1 s2] b by blast
  moreover have "run_of (store_step ex_sha False) empty_store ?s2" by (rule run_step) (rule r1, rule s2)
  ultimately show ?thesis using b by blast
qed

section \<open>Keys, preprocessing and the manifest\<close>

text \<open>
  C24. Two compiles share a key exactly when toolchain, language, compiler flags and text agree,
  where for C without debug info only the lines that are neither markers nor blank count.
\<close>

theorem compile_keys_differ:
  assumes "\<forall>f\<in>set fs. nl \<notin> set f" "\<forall>f\<in>set fs'. nl \<notin> set f"
    and "c = make_config drv lng tc fs" "d = make_config drv' lng' tc' fs'"
    and "frameable (key_parts c s)" "frameable (key_parts d t)" "collision_free sha {frame (key_parts c s), frame (key_parts d t)}"
  shows "compile_key sha c s = compile_key sha d t \<longleftrightarrow>
    tc = tc' \<and> lng = lng' \<and> cc_flags c = cc_flags d \<and>
    (if \<not> debug c \<and> lng = ''c'' then filter kept_line (lines_of s) = filter kept_line (lines_of t) else s = t)"
proof -
  have "compile_key sha c s = compile_key sha d t \<longleftrightarrow>
    toolchain c = toolchain d \<and> lang c = lang d \<and> cc_flags c = cc_flags d \<and> normalized c s = normalized d t"
    using compile_key_eq_iff[OF _ _ assms(5-7)] make_config_ok[OF assms(1)] make_config_ok[OF assms(2)] assms(3,4) by blast
  moreover have "debug c = debug d" if "cc_flags c = cc_flags d"
    using that make_config_split[of fs drv lng tc] make_config_split[of fs' drv' lng' tc'] assms(3,4) by simp
  ultimately show ?thesis using assms(3,4) by (auto simp: normalized_def strip_eq_iff)
qed

theorem compile_keys_differ_witness:
  "compile_key ex_sha (make_config ''gcc'' ''c'' ''x'' []) ''a'' = compile_key ex_sha (make_config ''gcc'' ''c'' ''x'' []) (''# 1'' @ nl # ''a'')"
proof -
  define c where "c = make_config ''gcc'' ''c'' ''x'' []"
  have lines: "filter kept_line (lines_of ''a'') = filter kept_line (lines_of (''# 1'' @ nl # ''a''))" by code_simp
  have eq: "key_parts c ''a'' = key_parts c (''# 1'' @ nl # ''a'')"
    unfolding key_parts_def strip_line_markers_spec lines by (simp add: c_def make_config_def)
  have "strip_line_markers ''a'' = ''a'' @ [nl]" by code_simp
  then have fr: "frameable (key_parts c ''a'')" by (simp add: frameable_def key_parts_def c_def make_config_def)
  have nd: "\<not> debug c" by (simp add: c_def make_config_def)
  have coll: "collision_free ex_sha {frame (key_parts c ''a''), frame (key_parts c (''# 1'' @ nl # ''a''))}"
    unfolding eq by (simp add: collision_free_def)
  have none: "\<forall>f\<in>set []. nl \<notin> set f" by simp
  show ?thesis
    unfolding c_def[symmetric] compile_keys_differ[OF none none c_def c_def fr fr[unfolded eq] coll]
    using lines nd by simp
qed

text \<open>
  C25. Two archive or link actions share a key exactly when kind, toolchain, arguments, input
  names and input digests agree, for inputs that do not collide.
\<close>

theorem action_keys_differ:
  assumes "length ns = length ds" "length ns' = length ds'"
    and "collision_free sha (frame ` {action_parts k tc args ns ds, action_parts k' tc' args' ns' ds'})"
    and "frameable (action_parts k tc args ns ds)" "frameable (action_parts k' tc' args' ns' ds')"
  shows "action_key sha k tc args ns ds = action_key sha k' tc' args' ns' ds' \<longleftrightarrow>
    k = k' \<and> tc = tc' \<and> args = args' \<and> ns = ns' \<and> ds = ds'"
  unfolding action_key_def using sha256_hex_parts_eq_iff[OF assms(3) _ _ assms(4,5)] action_parts_inject[OF assms(1,2)] by simp

theorem action_keys_differ_witness:
  "let sha = (\<lambda>d i. of_nat (length d)) in action_key sha 2 ''gcc'' [] [] [] \<noteq> action_key sha 2 ''gcc'' ''-s'' [] []"
proof -
  define sha :: sha_fn where "sha = (\<lambda>d i. of_nat (length d))"
  have "collision_free sha (frame ` {action_parts 2 ''gcc'' [] [] [], action_parts 2 ''gcc'' ''-s'' [] []})"
    by (auto simp: collision_free_def digest_bytes_def sha_def frame_def action_parts_def upt_rec)
  moreover have "to_string 2 = ''2''" by code_simp
  ultimately show ?thesis
    using action_keys_differ[of "[]" "[]" "[]" "[]" sha 2 "''gcc''" "[]" 2 "''gcc''" "''-s''"]
    by (simp add: sha_def frameable_def action_parts_def)
qed

text \<open>
  C26. The index loop of strip_line_markers keeps exactly the lines that are neither markers nor
  blank, each ended by a newline, and stripping twice is stripping once.
\<close>

theorem markers_are_stripped:
  "strip_line_markers text = unlines (filter kept_line (lines_of text)) \<and>
   strip_line_markers (strip_line_markers text) = strip_line_markers text"
  using strip_line_markers_spec strip_idempotent by blast

text \<open>
  C27. A manifest that parses has distinct target names, targets with sources, names without
  blanks, libraries without dependencies, and programs that link only libraries that exist.
\<close>

theorem manifest_is_well_formed:
  assumes "parse_manifest glob text root = Inr m"
  shows "manifest_ok m"
  by (rule parse_manifest_ok[OF assms])

theorem manifest_is_well_formed_witness:
  "case parse_manifest (\<lambda>_. []) (''lib m a.c'' @ nl # ''bin x b.c : m'') ''r'' of Inl _ \<Rightarrow> False | Inr m \<Rightarrow> manifest_ok m \<and> length (targets m) = 2"
proof -
  have m: "parse_manifest (\<lambda>_. []) (''lib m a.c'' @ nl # ''bin x b.c : m'') ''r'' = Inr \<lparr>cc = ''gcc'', cxx = ''g++'', cflags = [], ldflags = [],
      targets = [\<lparr>is_lib = True, tname = ''m'', sources = [''a.c''], libs = []\<rparr>,
        \<lparr>is_lib = False, tname = ''x'', sources = [''b.c''], libs = [''m'']\<rparr>]\<rparr>"
    by code_simp
  from manifest_is_well_formed[OF m] show ?thesis unfolding m by simp
qed

section \<open>Database and calls\<close>

text \<open>
  C28. A transaction ends with what one attempt, the sixth at most, made of the database it found,
  if it returns, and with what that attempt found if it throws, save a COMMIT that took effect
  though its answer was lost. A retryable error is thrown after the sixth attempt only.
\<close>

theorem transaction_is_atomic:
  assumes "transaction fn commit others 0 s r = (s', r', res)"
  shows "\<exists>j\<le>5. \<exists>rj. let found = begins others s j in
    case res of
      Returned a \<Rightarrow> fn j found rj = (r', Finished s' a) \<and> commit j = Committed
    | Raised_db e \<Rightarrow> (retryable e \<longrightarrow> j = 5) \<and>
        (s' = found \<and> fn j found rj = (r', Throws_db e) \<or>
         (\<exists>s1 a landed. fn j found rj = (r', Finished s1 a) \<and> commit j = Commit_error landed e \<and>
           s' = (if landed \<and> \<not> retryable e then s1 else found)))
    | Raised m \<Rightarrow> s' = found \<and> fn j found rj = (r', Throws m)"
  using transaction_outcome[of fn commit others 0 s r] assms by (simp add: txn_spec_def Let_def)

theorem transaction_is_atomic_witness:
  "let e = \<lparr>de_message = ''deadlock detected'', de_state = ''40P01''\<rparr>;
       fn = (\<lambda>k s r. (r + 1, if k = 0 then Throws_db e else Finished (s @ [k]) s)) :: nat \<Rightarrow> nat list \<Rightarrow> nat \<Rightarrow> _
   in transaction fn (\<lambda>_. Committed) (\<lambda>k s. s @ [9]) 0 [] 0 = ([9, 1], 2, Returned [9]) \<and>
      (\<exists>j\<le>5. \<exists>rj. fn j (begins (\<lambda>k s. s @ [9]) [] j) rj = (2, Finished [9, 1] [9]))"
proof -
  define e where "e = \<lparr>de_message = ''deadlock detected'', de_state = ''40P01''\<rparr>"
  define fn where "fn = (\<lambda>k s r. (r + 1, if k = 0 then Throws_db e else Finished (s @ [k]) s) :: nat \<times> (nat list, nat list) body)"
  have t: "transaction fn (\<lambda>_. Committed) (\<lambda>k s. s @ [9]) 0 [] 0 = ([9, 1], 2, Returned [9])"
    by (simp add: transaction.simps retryable_def fn_def e_def)
  have "\<exists>j\<le>5. \<exists>rj. fn j (begins (\<lambda>k s. s @ [9]) [] j) rj = (2, Finished [9, 1] [9])"
    using transaction_is_atomic[OF t] unfolding Let_def txn_result.case by blast
  with t show ?thesis unfolding fn_def e_def Let_def by (rule conjI)
qed

text \<open>
  C29. While the server is away each get of a broken connection loses it: after as many calls as
  there were connections the pool is empty, and get blocks even when the server is back.
\<close>

theorem pool_leaks_when_server_is_away:
  assumes "list_all Not (idle p)" "n \<le> length (idle p)"
  shows "pool_size (gets_while_down n p) = pool_size p - n \<and> (n = length (idle p) \<longrightarrow> pool_get True (gets_while_down n p) = Blocked)"
proof -
  note l = gets_while_down_leak[OF assms]
  have "pool_get True (gets_while_down n p) = Blocked" if "n = length (idle p)"
    using l that unfolding pool_get_def by simp
  with l assms(2) show ?thesis by (simp add: pool_size_def)
qed

theorem pool_leaks_when_server_is_away_witness:
  "pool_get True (gets_while_down 2 \<lparr>idle = [False, False], leased = 0\<rparr>) = Blocked"
  using pool_leaks_when_server_is_away[of "\<lparr>idle = [False, False], leased = 0\<rparr>" 2] by simp

text \<open>
  C30. with_retry answers what its last call answered; all earlier ones were transient, a
  transient answer is returned only after the last attempt, and the pauses double from 100 ms up
  to 3 s.
\<close>

theorem retries_until_settled:
  assumes "with_retry fn attempts s = (st, pauses, s')" "0 < attempts"
  shows "\<exists>k<attempts. (st, s') = fn k (state_at fn k s) \<and> (\<forall>j<k. transient (fst (fn j (state_at fn j s)))) \<and>
    (if transient st then k = attempts - 1 \<and> pauses = map backoff_at [0..<attempts] else pauses = map backoff_at [0..<k])"
proof -
  have "retry_loop fn 0 attempts (backoff_at 0) Status_ok (map backoff_at [0..<0]) (state_at fn 0 s) = (st, pauses, s')"
    using assms(1) by (simp add: with_retry_def backoff_at_def)
  from retry_loop_spec[OF _ this] assms(2) show ?thesis unfolding add_0 by blast
qed

theorem retries_until_settled_witness:
  "let fn = (\<lambda>k s. (if k < 2 then Status_error Unavailable [] else Status_ok, s + k))
   in with_retry fn 5 0 = (Status_ok, [100, 200], 3) \<and> (\<exists>k<5. (Status_ok, 3) = fn k (state_at fn k 0))"
proof -
  define fn :: "nat \<Rightarrow> nat \<Rightarrow> rpc_status \<times> nat" where "fn = (\<lambda>k s. (if k < 2 then Status_error Unavailable [] else Status_ok, s + k))"
  have w: "with_retry fn 5 0 = (Status_ok, [100, 200], 3)"
    by (simp add: with_retry_def fn_def eval_nat_numeral transient_def)
  from retries_until_settled[OF w] w show ?thesis unfolding fn_def[symmetric] Let_def by auto
qed

text \<open>
  C31. Reading back an array literal gives the items it was written from, whatever characters they
  hold.
\<close>

theorem array_literals_round_trip: "parse_pg_array (pg_array items False) = items"
  by (rule array_literal.dec_enc) simp

section \<open>Worker and client\<close>

text \<open>
  C32. For distinct flat names without line breaks, a sound cache and complete writes: a worker
  that reports success for a claimed task ran its command in a directory with its inputs (for
  archives and links the dependencies' outputs); the server has the output reported, or none is
  named.
\<close>

theorem claimed_task_runs_on_its_inputs:
  assumes "coord_start m s0" "run_of (coord_step sha m lease faulty) s0 s"
    and "claim_stmt ls now w tc part locked pick (co_db s) = (Some a, db')"
    and "execute sha e a server cache = (res, server', cache')" "r_ok res"
    and "cache_good sha M cache" "blobs_within M server" "env_sound M e (a_input_names a)" "distinct (a_input_names a)"
    and "put_env_ok (we_out_io e)" "\<forall>k. put_env_ok (we_server_io e k)"
  shows "\<exists>t\<in>set (db_tasks (co_db s)). \<exists>out. t_uid t = a_uid a \<and> a_kind a = t_kind t \<and> a_args a = split_lines (t_args t) \<and>
    ran_on sha e a out \<and> (r_output res = sha256_hex sha out \<and> cas_has server' (r_output res) \<or> r_output res = []) \<and>
    (let deps = dep_rows (t_build t) (t_id t) (co_db s); ins = zip (a_inputs a) (a_input_names a)
     in if t_kind t = 0 then ins = [(text_of (t_input t), ''in.i'')]
        else deps \<noteq> [] \<and> column (map (\<lambda>d. flat_name (t_name d)) deps) \<longrightarrow>
          ins = map (\<lambda>d. (text_of (t_output d), flat_name (t_name d))) deps)"
proof -
  obtain X where con: "consistent sha m (stored_hashes (co_cas s)) {} X {} (co_db s)"
    using run_evolves[OF assms(2) coord_start_sound[OF assms(1)]] by (auto simp: coord_sound_def)
  obtain out where out: "ran_on sha e a out" "r_output res = sha256_hex sha out \<and> cas_has server' (r_output res) \<or> r_output res = []"
    using execute_ok[OF assms(4,6-11,5)] by blast
  show ?thesis
  proof (rule claim_stmt_ok[OF con, of ls now w tc part locked pick], goal_cases)
    case 1
    with assms(3) show ?thesis by simp
  next
    case (2 t)
    have "t_state t = TReady" using 2(2) by (simp add: eligible_def)
    moreover have "a = assignment_of (mark_claimed ls now w t)" using 2(4) assms(3) by simp
    ultimately have a: "assignment_ok (stored_hashes (co_cas s)) (co_db s) t a" using assignment_of_ok[OF con 2(1)] by simp
    let ?deps = "dep_rows (t_build t) (t_id t) (co_db s)"
    have "zip (dep_digests ?deps) (dep_names ?deps) = map (\<lambda>d. (text_of (t_output d), flat_name (t_name d))) ?deps"
      by (simp add: dep_digests_def dep_names_def zip_map_map zip_same_conv_map)
    moreover have "dep_names ?deps = map (\<lambda>d. flat_name (t_name d)) ?deps" by (simp add: dep_names_def)
    ultimately show ?thesis
      using a out 2(1) by (intro bexI[of _ t] exI[of _ out]) (auto simp: assignment_ok_def Let_def text_of_def)
  qed
qed

theorem claimed_task_runs_on_its_inputs_witness:
  "\<exists>out. ran_on ex_sha ex_box ex_job out"
proof -
  obtain db' where c: "claim_stmt 20000 0 ''w1'' ''12 x86'' (Some 0) {} 0 ex_new = (Some ex_job, db')"
    using ex_claim_new by (metis prod.collapse)
  then have c': "claim_stmt 20000 0 ''w1'' ''12 x86'' (Some 0) {} 0 (co_db (ex_at ex_new 1)) = (Some ex_job, db')" by simp
  obtain res sv ca where x: "execute ex_sha ex_box ex_job ex_cas ex_own = (res, sv, ca)" "r_ok res"
    using ex_execute by (metis prod.collapse)
  have "a_input_names ex_job = [''in.i'']" by (simp add: ex_job_def)
  then have n: "env_sound 3 ex_box (a_input_names ex_job)" "distinct (a_input_names ex_job)" using ex_worker_ready(3) by simp_all
  have io: "put_env_ok (we_out_io ex_box)" "\<forall>k. put_env_ok (we_server_io ex_box k)"
    by (simp_all add: ex_box_def ok_io_def put_env_ok_def tmp_suffix_def)
  show ?thesis
    using claimed_task_runs_on_its_inputs[OF ex_start ex_run_new c' x ex_worker_ready(1,2) n io] by blast
qed

text \<open>
  C33. When the reply of a ClaimTask is lost, with_retry repeats it and the worker gets a second
  task; the first stays running under its name, and however many rounds the reaper makes, the
  heartbeats of the worker renew its lease, so nobody ever runs it.
\<close>

theorem lost_claims_are_never_requeued:
  assumes "coord_start m s0" "run_of (coord_step sha m lease False) s0 s"
    and "length (rounds 0) = 1" "length (rounds 1) = 1" "net 0 = Reply_lost Unavailable" "net 1 = Delivered"
    and "claim_handler lease w tc now rounds 0 s = (Status_ok, Some a1, s1)"
    and "claim_handler lease w tc now rounds 1 s1 = (Status_ok, Some a2, s2)"
    and "list_all (\<lambda>(h, r). r \<le> h + lease) beats"
  shows "claim_call lease w tc now rounds net s = (Status_ok, Some a2, s2) \<and> a_uid a2 \<noteq> a_uid a1 \<and>
    held w (a_uid a1) (a_attempt a1) (watched lease m w beats (co_db s2))"
proof -
  have con: "consistent sha m (stored_hashes (co_cas s)) {} {} {} (co_db s)"
    using coord.inv_run[OF assms(1,2)] by (simp add: coord_ok_def)
  note l = lost_claim[OF con assms(3,4,7,8,5,6)]
  from l(1,2) held_watched[OF l(3) assms(9)] show ?thesis by blast
qed

theorem lost_claims_are_never_requeued_witness:
  "\<exists>s. claim_call 20000 ''w1'' ''gcc'' (\<lambda>k. 0) (\<lambda>k. [ex_round]) (\<lambda>k. if k = 0 then Reply_lost Unavailable else Delivered) (ex_at ex_pair_db 1) =
      (Status_ok, Some (assignment_of (mark_claimed 20000 0 ''w1'' ex_right)), s) \<and>
    held ''w1'' 1 1 (watched 20000 3 ''w1'' [(3000, 4000), (6000, 20000)] (co_db s))"
proof -
  define d1 where "d1 = ex_pair_db\<lparr>db_tasks := [mark_claimed 20000 0 ''w1'' ex_left, ex_right]\<rparr>"
  define d2 where "d2 = ex_pair_db\<lparr>db_tasks := [mark_claimed 20000 0 ''w1'' ex_left, mark_claimed 20000 0 ''w1'' ex_right]\<rparr>"
  let ?p = "[''w1'' \<mapsto> - 1]"
  have f: "filter (eligible 0 ''w1'' ''gcc'' (Some (- 1)) {}) (db_tasks d) = []" if "d = ex_pair_db \<or> d = d1" for d
    using that by (auto simp: eligible_def d1_def ex_pair_db_def ex_left_def ex_right_def ex_task0_def mark_claimed_def)
  have g: "filter (eligible 0 ''w1'' ''gcc'' None {}) (db_tasks ex_pair_db) = [ex_left, ex_right]"
    "filter (eligible 0 ''w1'' ''gcc'' None {}) (db_tasks d1) = [ex_right]"
    by (simp_all add: eligible_def d1_def ex_pair_db_def ex_left_def ex_right_def ex_task0_def mark_claimed_def)
  have best: "best_tasks [ex_left, ex_right] = [ex_left]" "best_tasks [ex_right] = [ex_right]"
    by (simp_all add: best_tasks_def ex_left_def ex_right_def ex_task0_def)
  have u: "upd_tasks (\<lambda>s. t_uid s = t_uid ex_left) (mark_claimed 20000 0 ''w1'') ex_pair_db = d1"
    "upd_tasks (\<lambda>s. t_uid s = t_uid ex_right) (mark_claimed 20000 0 ''w1'') d1 = d2"
    by (simp_all add: upd_tasks_def upd_where_def d1_def d2_def ex_pair_db_def ex_left_def ex_right_def ex_task0_def mark_claimed_def)
  have nw: "db_workers ex_pair_db = []" "db_workers d1 = []" by (simp_all add: d1_def ex_pair_db_def ex_db_def)
  have t: "try_claim 20000 0 ''w1'' ''gcc'' (- 1) {} 0 ex_pair_db = (Some (assignment_of (mark_claimed 20000 0 ''w1'' ex_left)), d1)"
    "try_claim 20000 0 ''w1'' ''gcc'' (- 1) {} 0 d1 = (Some (assignment_of (mark_claimed 20000 0 ''w1'' ex_right)), d2)"
    by (simp_all add: try_claim_def claim_stmt_def pick_task_def Let_def f g best best_tasks_Nil u)
  have c1: "claim_handler 20000 ''w1'' ''gcc'' (\<lambda>k. 0) (\<lambda>k. [ex_round]) 0 (ex_at ex_pair_db 1) =
      (Status_ok, Some (assignment_of (mark_claimed 20000 0 ''w1'' ex_left)), (ex_at d1 1)\<lparr>co_parts := ?p\<rparr>)"
    by (simp add: claim_handler_def claim_task_def partition_of_def worker_rows_def ex_round_def t nw Let_def ex_at_def)
  have c2: "claim_handler 20000 ''w1'' ''gcc'' (\<lambda>k. 0) (\<lambda>k. [ex_round]) 1 ((ex_at d1 1)\<lparr>co_parts := ?p\<rparr>) =
      (Status_ok, Some (assignment_of (mark_claimed 20000 0 ''w1'' ex_right)), (ex_at d2 1)\<lparr>co_parts := ?p\<rparr>)"
    by (simp add: claim_handler_def claim_task_def partition_of_def ex_round_def t Let_def ex_at_def)
  have l: "length ((\<lambda>k. [ex_round]) (0::nat)) = 1" "length ((\<lambda>k. [ex_round]) (1::nat)) = 1" by simp_all
  have n: "(\<lambda>k. if k = 0 then Reply_lost Unavailable else Delivered) (0::nat) = Reply_lost Unavailable"
    "(\<lambda>k. if k = 0 then Reply_lost Unavailable else Delivered) (1::nat) = Delivered" by simp_all
  have b: "list_all (\<lambda>(h, r). r \<le> h + 20000) [(3000, 4000), (6000, 20000::int)]" by simp
  from lost_claims_are_never_requeued[OF ex_start ex_run_pair l n c1 c2 b]
  show ?thesis by (intro exI[of _ "(ex_at d2 1)\<lparr>co_parts := ?p\<rparr>"]) (simp add: assignment_of_def mark_claimed_def ex_left_def ex_task0_def)
qed



text \<open>
  C35. When the names of two dependencies are equal after slashes became underscores, the worker
  lays out both and only the second one is there: the first object is silently missing from the
  archive or link.
\<close>

theorem clashing_names_lose_an_input:
  assumes "flat_name n1 = flat_name n2" "place_inputs sha e server dir 0 [(h1, flat_name n1), (h2, flat_name n2)] cache Map.empty = (None, cache', files)"
    and "cache_good sha M cache" "blobs_within M server" "\<forall>i. put_good M (we_cache_io e i) \<and> put_good M (we_file_io e i)"
  shows "dom files = {dir @ ''/'' @ flat_name n1} \<and> (\<exists>d. files (dir @ ''/'' @ flat_name n1) = Some d \<and> sha256_hex sha d = h2)"
proof -
  let ?p = "dir @ ''/'' @ flat_name n1"
  have io: "put_good M (we_cache_io e i)" "put_good M (we_file_io e i)" for i using assms(5) by auto
  obtain x1 c1 where f1: "fetch sha (we_get e 0) (we_cache_io e 0) h1 server cache = (x1, c1)" by fastforce
  obtain d1 where d1: "x1 = Some d1" using assms(2) f1 by (cases x1) simp_all
  obtain ok1 fs1 where w1: "write_file_atomic (fst (we_file_io e 0)) (snd (we_file_io e 0)) ?p d1 Map.empty = (ok1, fs1)" by fastforce
  have s1: "CHR ''/'' \<notin> set (flat_name n1)" using assms(2) f1 d1 by (auto split: if_splits)
  have ok1: "ok1" using assms(2) f1 d1 w1 s1 by (cases ok1) (auto split: if_splits)
  have rest: "place_inputs sha e server dir 1 [(h2, flat_name n1)] c1 fs1 = (None, cache', files)"
    using assms(1,2) f1 d1 w1 s1 ok1 by simp
  note g1 = fetch_good[OF assms(3,4) io(1) f1]
  obtain x2 c2 where f2: "fetch sha (we_get e 1) (we_cache_io e 1) h2 server c1 = (x2, c2)" by fastforce
  obtain d2 where d2: "x2 = Some d2" using rest f2 by (cases x2) simp_all
  obtain ok2 fs2 where w2: "write_file_atomic (fst (we_file_io e 1)) (snd (we_file_io e 1)) ?p d2 fs1 = (ok2, fs2)" by fastforce
  have ok2: "ok2" using rest f2 d2 w2 s1 by (cases ok2) (auto split: if_splits)
  have fs: "files = fs2" using rest f2 d2 w2 s1 ok2 by simp
  note g2 = fetch_good[OF g1(1) assms(4) io(1) f2]
  have ne: "snd (we_file_io e i) \<noteq> []" for i using io(2)[of i] by (auto simp: put_good_def put_env_ok_def tmp_suffix_def)
  have "dom fs1 = {?p}" using w1 ok1 ne[of 0] by (auto simp: write_file_atomic_def Let_def split: if_splits)
  then have dom: "dom files = {?p}" using w2 ok2 ne[of 1] unfolding fs by (auto simp: write_file_atomic_def Let_def split: if_splits)
  have "files ?p = Some d2" using write_file_atomic_ok(1)[OF w2[unfolded ok2[THEN eqTrueI]]] g2(2)[OF d2] io(2)[of 1] unfolding fs by (simp add: put_good_def)
  with dom g2(2)[OF d2] show ?thesis by blast
qed

theorem clashing_names_lose_an_input_witness:
  "\<exists>cache files. place_inputs ex_sha ex_box ex_cas ''d'' 0 [(zeros, flat_name ''obj/x/y.c.o''), (zeros, flat_name ''obj/x_y.c.o'')] ex_own Map.empty = (None, cache, files) \<and>
     dom files = {''d/obj_x_y.c.o''}"
proof -
  obtain c where c: "fetch ex_sha (\<lambda>_. Delivered) (ok_io ''obj'') zeros ex_cas ex_own = (Some [], c)" "cas_get c zeros = Some []" by (rule ex_fetch)
  have n: "flat_name ''obj/x/y.c.o'' = ''obj_x_y.c.o''" "flat_name ''obj/x_y.c.o'' = ''obj_x_y.c.o''" by (simp_all add: flat_name_def)
  have again: "fetch ex_sha (\<lambda>_. Delivered) (ok_io ''obj'') zeros ex_cas c = (Some [], c)" by (simp add: fetch_def c(2))
  have w: "\<exists>files'. write_file_atomic (fst (ok_io ''obj'')) (snd (ok_io ''obj'')) p [] files = (True, files')" for p files
    by (simp add: ok_io_def write_file_atomic_def Let_def)
  obtain f1 where f1: "write_file_atomic (fst (ok_io ''obj'')) (snd (ok_io ''obj'')) ''d/obj_x_y.c.o'' [] Map.empty = (True, f1)" using w by blast
  obtain f2 where f2: "write_file_atomic (fst (ok_io ''obj'')) (snd (ok_io ''obj'')) ''d/obj_x_y.c.o'' [] f1 = (True, f2)" using w by blast
  have p: "place_inputs ex_sha ex_box ex_cas ''d'' 0 [(zeros, flat_name ''obj/x/y.c.o''), (zeros, flat_name ''obj/x_y.c.o'')] ex_own Map.empty = (None, c, f2)"
    using f1 f2 by (simp add: n ex_box_simps c(1) again)
  have "\<forall>i. put_good 3 (we_cache_io ex_box i) \<and> put_good 3 (we_file_io ex_box i)"
    by (simp add: ex_box_simps put_good_def ok_io_def put_env_ok_def tmp_suffix_def)
  from clashing_names_lose_an_input[OF _ p ex_worker_ready(1,2) this] p show ?thesis by (auto simp: n)
qed

text \<open>
  C36. For units with valid hashes that are uploaded or cached and no database faults, the request
  dcc builds for a manifest that parses is accepted, unless a program names a library twice: then
  the tables refuse it and the call answers UNAVAILABLE with the server's message.
\<close>

theorem request_is_accepted:
  assumes "load_manifest glob files root = Inr m" "make_units m tc = (us0, ix)" "map u_src us = map u_src us0"
    and "\<forall>u\<in>set us. valid_hash (u_key u) \<and> valid_hash (u_digest u)"
    and "\<forall>u\<in>set us. cas_has cas (u_digest u) \<or> u_key u \<in> c_key ` set (db_cache db)"
    and "submit_build sha cas (calm\<lparr>refuses := e\<rparr>) now (build_request m tc parts ix us) db = (st, rep, db')"
    and "\<not> retryable e"
  shows "if \<forall>tg\<in>set (targets m). distinct (libs tg) then st = Status_ok \<and> sr_build rep = db_next_build db
    else st = Status_error Unavailable (''SubmitBuild: '' @ de_message e) \<and> db' = db"
proof -
  have "manifest_ok m" using assms(1) parse_manifest_ok by (auto simp: load_manifest_def split: option.splits)
  from submit_accepts[OF covers_make_units[OF assms(2,3)] this assms(4-7)] show ?thesis .
qed

theorem request_is_accepted_witness:
  "sr_build (fst (snd (submit_build ex_sha ex_cas calm 100 ex_request ex_done))) = db_next_build ex_done"
proof -
  have calm: "calm\<lparr>refuses := refuses calm\<rparr> = calm" "\<not> retryable (refuses calm)" by (simp_all add: calm_def retryable_def)
  have "\<forall>u\<in>set [ex_unit]. valid_hash (u_key u) \<and> valid_hash (u_digest u)" by (simp add: ex_unit_def)
  moreover have "\<forall>u\<in>set [ex_unit]. cas_has ex_cas (u_digest u) \<or> u_key u \<in> c_key ` set (db_cache ex_done)" by (simp add: ex_unit_def)
  moreover have "map u_src [ex_unit] = map u_src [new_tu ''a.c'' (make_config ''gcc'' ''c'' ''12 x86'' [])]" by (simp add: ex_unit_def new_tu_def)
  ultimately show ?thesis
    using request_is_accepted[where e = "refuses calm", unfolded calm(1), OF ex_load ex_make_units _ _ _ ex_submit_hit[unfolded ex_request_def] calm(2)]
    by (simp add: ex_submit_hit ex_manifest_def empty_manifest_def)
qed

text \<open>
  C37. In every interleaving of its threads parallel_for can go on until all threads have ended,
  each step brings it closer to that, and then every element has been worked on exactly once: the
  vector is the map of the body over it.
\<close>

theorem parallel_for_is_map:
  assumes "0 < jobs" "run_of (par_step f (length us)) (par_start jobs us) s"
  shows "(if list_all (\<lambda>t. t = Joined) (pa_threads s) then pa_units s = map f us else \<exists>s'. par_step f (length us) s s') \<and>
    (\<forall>s'. par_step f (length us) s s' \<longrightarrow> par_left (length us) s' < par_left (length us) s)"
  using par_result[OF assms(2,1)] par_goes_on[of s f "length us"] par_step_less by auto

theorem parallel_for_is_map_witness:
  "\<exists>s. run_of (par_step Suc 1) (par_start 2 [4]) s \<and> pa_threads s = [Joined, Joined] \<and> pa_units s = [5]"
proof -
  let ?u = "\<lambda>n ts us. \<lparr>pa_next = n, pa_threads = ts, pa_units = us\<rparr> :: nat par"
  have a: "par_step Suc 1 (par_start 2 [4]) (?u 1 [Working 0, Fetching] [4])"
    using par_fetch[of 0 "par_start 2 [4::nat]" 1 Suc] by (simp add: par_start_def numeral_2_eq_2)
  have b: "par_step Suc 1 (?u 1 [Working 0, Fetching] [4]) (?u 2 [Working 0, Joined] [4])"
    using par_stop[of 1 "?u 1 [Working 0, Fetching] [4]" 1 Suc] by (simp add: numeral_2_eq_2)
  have c: "par_step Suc 1 (?u 2 [Working 0, Joined] [4]) (?u 2 [Fetching, Joined] [5])"
    using par_work[of 0 "?u 2 [Working 0, Joined] [4]" 0 Suc 1] by simp
  have d: "par_step Suc 1 (?u 2 [Fetching, Joined] [5]) (?u 3 [Joined, Joined] [5])"
    using par_stop[of 0 "?u 2 [Fetching, Joined] [5]" 1 Suc] by simp
  have r: "run_of (par_step Suc (length [4::nat])) (par_start 2 [4]) (?u 3 [Joined, Joined] [5])"
    unfolding list.size One_nat_def[symmetric] add_0
    by (rule run_step[where R = "par_step Suc 1", OF _ d], rule run_step[where R = "par_step Suc 1", OF _ c], rule run_step[where R = "par_step Suc 1", OF _ b], rule run_step[where R = "par_step Suc 1", OF _ a], rule run_refl)
  from parallel_for_is_map[OF _ r] have "pa_units (?u 3 [Joined, Joined] [5]) = map Suc [4]" by simp
  then show ?thesis using r by (intro exI[of _ "?u 3 [Joined, Joined] [5]"]) simp
qed

text \<open>
  C38. Of the units to upload every missing digest is sent exactly once with the text of a unit
  that has it, nothing else is sent, no batch is empty, and a batch without its last blob is
  within 32 MB.
\<close>

theorem uploads_once_in_bounds:
  "let bss = batches us missing; sent = concat bss
   in distinct (map fst sent) \<and> set (map fst sent) = set missing \<inter> u_digest ` set us \<and>
      list_all (\<lambda>(h, d). list_ex (\<lambda>u. u_digest u = h \<and> u_text u = d) us) sent \<and>
      list_all (\<lambda>bs. bs \<noteq> [] \<and> blob_bytes (butlast bs) \<le> batch_limit) bss"
proof -
  have eq: "concat (batches us missing) = first_blobs us (set missing)" by (simp add: batches_def concat_batches_from)
  have "list_all batch_ok (batches us missing)" unfolding batches_def by (rule batches_from_ok) (simp_all add: batch_limit_def)
  then have "list_all (\<lambda>bs. bs \<noteq> [] \<and> blob_bytes (butlast bs) \<le> batch_limit) (batches us missing)"
    by (simp add: batch_ok_def list_all_iff)
  moreover have "list_all (\<lambda>(h, d). list_ex (\<lambda>u. u_digest u = h \<and> u_text u = d) us) (first_blobs us (set missing))"
    using first_blobs_ok(3)[of _ _ us "set missing"] by (auto simp: list_all_iff list_ex_iff)
  ultimately show ?thesis unfolding Let_def eq using first_blobs_ok(1,2)[of us "set missing"] by blast
qed

text \<open>
  C39. Reading a saved state back under the same configuration gives for every saved unit its key,
  digest, cost and stamps, for names without blanks, paths on one line and numbers of 64 bits.
\<close>

theorem saved_state_round_trip:
  assumes "word_ok config" "\<forall>u\<in>set us. saved u \<longrightarrow> storable u" "distinct (map u_src us)"
  shows "load_state (Some (state_text config us)) config = map_of (map (\<lambda>u. (u_src u, restored u)) (filter saved us))"
proof -
  have "distinct (map u_src (filter saved us))" using assms(3) by (rule distinct_map_filter)
  from fold_upd_map_of[OF this, of restored Map.empty] load_state_text[OF assms(1), of us] assms(2) show ?thesis by simp
qed

theorem saved_state_round_trip_witness:
  "let u = (new_tu ''a.c'' no_config)\<lparr>u_key := ''k'', u_digest := ''d'', u_cost := 9, u_deps := [\<lparr>fs_mtime = -5, fs_size = 7, fs_path = ''my file.h''\<rparr>]\<rparr>
   in load_state (Some (state_text ''c'' [u])) ''c'' ''a.c'' = Some u"
proof -
  define u where "u = (new_tu ''a.c'' no_config)\<lparr>u_key := ''k'', u_digest := ''d'', u_cost := 9, u_deps := [\<lparr>fs_mtime = -5, fs_size = 7, fs_path = ''my file.h''\<rparr>]\<rparr>"
  have s: "saved u" by (simp add: u_def saved_def new_tu_def)
  have "storable u" by (simp add: u_def storable_def new_tu_def word_ok_def is_space_def in_i64_def path_ok_def)
  moreover have "word_ok ''c''" by (simp add: word_ok_def is_space_def)
  ultimately have "load_state (Some (state_text ''c'' [u])) ''c'' = map_of [(u_src u, restored u)]"
    using saved_state_round_trip[of "''c''" "[u]"] s by simp
  moreover have "u_src u = ''a.c''" "restored u = u" by (simp_all add: u_def restored_def new_tu_def)
  ultimately show ?thesis by (simp add: u_def Let_def)
qed

text \<open>
  C40. When the reply of SubmitBuild is lost, with_retry repeats the call and the coordinator has
  two builds of the same request: the call is not safe to repeat, against the comment on
  with_retry.
\<close>

theorem retried_submission_duplicates:
  assumes "coord_start m s0" "run_of (coord_step sha m lease faulty) s0 s" "leaf_compiles (bs_tasks spec)"
    and "ce_net e Submit_build 0 = Reply_lost Unavailable" "ce_net e Submit_build 1 = Delivered"
    and "ce_world e Submit_build 0 s = s" "submit_handler sha e spec 0 s = (Status_ok, rep1, s1)"
    and "ce_world e Submit_build 1 s1 = s1" "submit_handler sha e spec 1 s1 = (Status_ok, rep2, s2)"
  shows "stub e Submit_build (submit_handler sha e spec) r0 s = (Status_ok, rep2, s2) \<and>
    sr_build rep1 \<noteq> sr_build rep2 \<and> {sr_build rep1, sr_build rep2} \<subseteq> b_id ` set (db_builds (co_db s2))"
proof -
  have st: "stub e Submit_build (submit_handler sha e spec) r0 s = (Status_ok, rep2, s2)"
    using assms(4-9) by (simp add: stub_def remote_def with_retry_def net_call_def transient_def eval_nat_numeral)
  have s: "coord_sound sha m s" using run_evolves[OF assms(2) coord_start_sound[OF assms(1)]] by blast
  have call: "\<exists>db'. submit_build sha (co_cas u) (ce_txn e k) (ce_now e k) spec (co_db u) = (Status_ok, rep, db') \<and> co_db v = db'"
    if "submit_handler sha e spec k u = (Status_ok, rep, v)" for k u rep v
    using that by (auto simp: submit_handler_def submit_call_def wake_workers_def split: prod.splits)
  have run1: "run_of (coord_step sha m lease faulty) s s1" "run_of (coord_step sha m lease faulty) s1 s2"
    using submit_run[OF assms(3), of sha m lease faulty _ e] assms(7,9) by (metis snd_conv)+
  have s1: "coord_sound sha m s1" and ev: "evolves (co_db s1) (co_db s2)" using run_evolves run1 s by blast+
  obtain d1 where d1: "submit_build sha (co_cas s) (ce_txn e 0) (ce_now e 0) spec (co_db s) = (Status_ok, rep1, d1)" "co_db s1 = d1"
    using call[OF assms(7)] by blast
  obtain d2 where d2: "submit_build sha (co_cas s1) (ce_txn e 1) (ce_now e 1) spec (co_db s1) = (Status_ok, rep2, d2)" "co_db s2 = d2"
    using call[OF assms(9)] by blast
  have b1: "sr_build rep1 \<in> b_id ` set (db_builds (co_db s1))" using submit_build_rows(4)[OF s assms(3) d1(1)] d1(2) by simp
  have b2: "sr_build rep2 = db_next_build (co_db s1)" "sr_build rep2 \<in> b_id ` set (db_builds (co_db s2))"
    using submit_build_rows(3,4)[OF s1 assms(3) d2(1)] d2(2) by simp_all
  have "keys_ok (co_db s1)" using s1 by (auto simp: coord_sound_def dest: consistentD(1))
  then have "sr_build rep1 \<noteq> sr_build rep2" using b1 b2(1) by (auto simp: keys_ok_def)
  moreover have "sr_build rep1 \<in> b_id ` set (db_builds (co_db s2))" using b1 ev unfolding evolves_def image_iff by metis
  ultimately show ?thesis using st b2(2) by blast
qed

theorem retried_submission_duplicates_witness:
  "\<exists>rep s. stub ex_retrying Submit_build (submit_handler ex_sha ex_retrying ex_spec) \<lparr>sr_build = 0, sr_cached = 0\<rparr> (ex_at empty_db 0) = (Status_ok, rep, s) \<and>
     {1, sr_build rep} \<subseteq> b_id ` set (db_builds (co_db s)) \<and> sr_build rep \<noteq> 1"
proof -
  have spec: "leaf_compiles (bs_tasks ex_spec)" by (rule ex_leaf)
  obtain db where db: "submit_build ex_sha ex_cas calm 0 ex_spec ex_db = (Status_ok, \<lparr>sr_build = 2, sr_cached = 0\<rparr>, db)"
    using ex_submit_again by blast
  have net: "ce_net ex_retrying Submit_build 0 = Reply_lost Unavailable" "ce_net ex_retrying Submit_build 1 = Delivered"
    and w: "ce_world ex_retrying c k u = u" for c k u by (simp_all add: ex_retrying_def ex_client_def)
  have h1: "submit_handler ex_sha ex_retrying ex_spec 0 (ex_at empty_db 0) = (Status_ok, \<lparr>sr_build = 1, sr_cached = 0\<rparr>, ex_at ex_db 1)"
    using ex_handler[OF ex_submit, of 0 0] by simp
  show ?thesis using retried_submission_duplicates[OF ex_start run_refl spec net w h1 w ex_handler[OF db]] by auto
qed

end
